theory Spec2Isabelle
  imports Main
begin

section \<open>Data model of \<^verbatim>\<open>_dequedict.c\<close>\<close>

text \<open>
  Entries live in C memory and are reached through pointers. An entry pointer is an
  address; \<open>None\<close> is the \<^verbatim>\<open>NULL\<close> pointer. The fields of
  \<^verbatim>\<open>struct DequeDictEntry\<close> carry the prefix \<open>entry_\<close> (\<open>value\<close> and
  \<open>next\<close> are reserved words of the theory language).
  Python objects are values of the type parameters \<open>'k\<close> (hashable keys) and
  \<open>'v\<close>; reference counts are not modelled.
\<close>

type_synonym addr = nat

record ('k, 'v) DequeDictEntry =
  entry_key :: 'k
  entry_value :: 'v
  entry_prev :: "addr option"
  entry_next :: "addr option"
  entry_cache_idx :: int

text \<open>
  The state collects the fields of \<^verbatim>\<open>DequeDictObject\<close> (\<open>dict\<close> maps a key to the
  entry pointer kept in the capsule; \<open>size\<close> is called \<open>dd_size\<close>), the two
  static variables \<^verbatim>\<open>freelist\<close> and \<^verbatim>\<open>freelist_size\<close>, the memory \<open>mem\<close>
  that entry pointers are dereferenced in, and the set \<open>allocated\<close> of entry blocks
  handed out by \<^verbatim>\<open>PyMem_Malloc\<close> and not yet given back with \<^verbatim>\<open>PyMem_Free\<close>.
  \<^verbatim>\<open>Py_ssize_t\<close> is modelled by \<open>int\<close>: the counters are bounded by the number
  of entries in memory, far below \<open>2^63\<close>.
  The array \<open>index_cache\<close> is a list whose length is the number of allocated slots.
\<close>

record ('k, 'v) DequeDictObject =
  mem :: "addr \<Rightarrow> ('k, 'v) DequeDictEntry"
  allocated :: "addr set"
  freelist :: "addr option"
  freelist_size :: int
  dict :: "'k \<rightharpoonup> addr"
  head :: "addr option"
  tail :: "addr option"
  dd_size :: int
  index_cache :: "addr list option"
  cache_size :: int
  cache_capacity :: int
  cache_offset :: int

datatype error =
    KeyError | IndexError | MemoryError | AttributeError | TypeError | OverflowError | ValueError

text \<open>
  What the allocator answers during one call of an operation: the block returned by
  \<^verbatim>\<open>PyMem_Malloc(sizeof(DequeDictEntry))\<close> (\<open>None\<close> when it fails), whether
  \<^verbatim>\<open>PyLong_FromVoidPtr\<close> and \<^verbatim>\<open>PyDict_SetItem\<close> succeed, and whether the
  allocation of the cache array (\<^verbatim>\<open>PyMem_Malloc\<close> in the rebuild,
  \<^verbatim>\<open>PyMem_Realloc\<close> in the growth step) succeeds. Every operation makes at most
  one call of each kind.
\<close>

record alloc_env =
  malloc_entry :: "addr option"
  capsule_ok :: bool
  dict_set_ok :: bool
  cache_alloc_ok :: bool

definition FREELIST_MAX :: int where
  "FREELIST_MAX = 128"

subsection \<open>Entry pool\<close>

definition entry_alloc ::
  "alloc_env \<Rightarrow> ('k, 'v) DequeDictObject \<Rightarrow> addr option \<times> ('k, 'v) DequeDictObject" where
  "entry_alloc env s =
     (case freelist s of
        Some entry \<Rightarrow>
          (Some entry, s\<lparr>freelist := entry_next (mem s entry),
                          freelist_size := freelist_size s - 1\<rparr>)
      | None \<Rightarrow>
          (case malloc_entry env of
             None \<Rightarrow> (None, s)
           | Some a \<Rightarrow> (Some a, s\<lparr>allocated := insert a (allocated s)\<rparr>)))"

definition entry_free ::
  "addr \<Rightarrow> ('k, 'v) DequeDictObject \<Rightarrow> ('k, 'v) DequeDictObject" where
  "entry_free entry s =
     (if freelist_size s < FREELIST_MAX
      then s\<lparr>mem := (mem s)(entry := (mem s entry)\<lparr>entry_next := freelist s\<rparr>),
             freelist := Some entry,
             freelist_size := freelist_size s + 1\<rparr>
      else s\<lparr>allocated := allocated s - {entry}\<rparr>)"

subsection \<open>Cache helpers\<close>

definition DequeDict_invalidate_cache ::
  "('k, 'v) DequeDictObject \<Rightarrow> ('k, 'v) DequeDictObject" where
  "DequeDict_invalidate_cache s =
     s\<lparr>index_cache := None, cache_size := 0, cache_capacity := 0, cache_offset := 0\<rparr>"

text \<open>
  The loop of \<^verbatim>\<open>DequeDict_rebuild_cache\<close>: it follows \<open>next\<close> from \<open>entry\<close>, stores
  the slot number in each entry and the entry in the slot. The result \<open>None\<close> stands
  for a loop without a defined result: one that never ends (a cyclic chain) or that
  writes past the end of the array.
\<close>

partial_function (option) rebuild_loop ::
  "(addr \<Rightarrow> ('k, 'v) DequeDictEntry) \<Rightarrow> addr list \<Rightarrow> addr option \<Rightarrow> nat
     \<Rightarrow> ((addr \<Rightarrow> ('k, 'v) DequeDictEntry) \<times> addr list) option" where
  "rebuild_loop m arr entry i =
     (case entry of
        None \<Rightarrow> Some (m, arr)
      | Some e \<Rightarrow>
          if i < length arr
          then rebuild_loop (m(e := (m e)\<lparr>entry_cache_idx := int i\<rparr>)) (arr[i := e])
                 (entry_next (m e)) (Suc i)
          else None)"

definition DequeDict_rebuild_cache ::
  "alloc_env \<Rightarrow> ('k, 'v) DequeDictObject \<Rightarrow> (int \<times> ('k, 'v) DequeDictObject) option" where
  "DequeDict_rebuild_cache env s0 =
     (let s = DequeDict_invalidate_cache s0 in
      if dd_size s = 0 then Some (0, s)
      else
        let s1 = s\<lparr>cache_capacity := dd_size s\<rparr> in
        if \<not> cache_alloc_ok env then Some (-1, s1)
        else
          let s2 = s1\<lparr>index_cache := Some (replicate (nat (cache_capacity s1)) 0),
                      cache_size := dd_size s1, cache_offset := 0\<rparr> in
          case rebuild_loop (mem s2) (replicate (nat (cache_capacity s1)) 0) (head s2) 0 of
            None \<Rightarrow> None
          | Some (m, arr) \<Rightarrow> Some (0, s2\<lparr>mem := m, index_cache := Some arr\<rparr>))"

definition DequeDict_cache_ensure_capacity ::
  "alloc_env \<Rightarrow> ('k, 'v) DequeDictObject \<Rightarrow> int \<times> ('k, 'v) DequeDictObject" where
  "DequeDict_cache_ensure_capacity env s =
     (if cache_size s < cache_capacity s then (0, s)
      else
        let new_cap = (if cache_capacity s * 2 < 8 then 8 else cache_capacity s * 2) in
        if \<not> cache_alloc_ok env then (-1, DequeDict_invalidate_cache s)
        else (0, s\<lparr>index_cache :=
                      map_option (\<lambda>arr. take (nat new_cap) (arr @ replicate (nat new_cap) 0))
                        (index_cache s),
                    cache_capacity := new_cap\<rparr>))"

subsection \<open>Code blocks shared by several operations\<close>

text \<open>
  The source repeats a few blocks verbatim in several functions; each is modelled
  once. Every statement reads the memory as the statements before it left it.

  \<open>unlink_from_list\<close> is the block \<^verbatim>\<open>/* Unlink from list */\<close> of
  \<^verbatim>\<open>DequeDict_setitem\<close> (deletion), \<^verbatim>\<open>DequeDict_pop\<close> and
  \<^verbatim>\<open>DequeDict_move_to_end\<close>.
\<close>

definition unlink_from_list ::
  "addr \<Rightarrow> ('k, 'v) DequeDictObject \<Rightarrow> ('k, 'v) DequeDictObject" where
  "unlink_from_list entry s =
     (let s1 = (case entry_prev (mem s entry) of
                  Some p \<Rightarrow> s\<lparr>mem := (mem s)(p := (mem s p)\<lparr>entry_next := entry_next (mem s entry)\<rparr>)\<rparr>
                | None \<Rightarrow> s\<lparr>head := entry_next (mem s entry)\<rparr>)
      in (case entry_next (mem s1 entry) of
            Some n \<Rightarrow> s1\<lparr>mem := (mem s1)(n := (mem s1 n)\<lparr>entry_prev := entry_prev (mem s1 entry)\<rparr>)\<rparr>
          | None \<Rightarrow> s1\<lparr>tail := entry_prev (mem s1 entry)\<rparr>))"

text \<open>The block \<^verbatim>\<open>/* Unlink head */\<close> of \<^verbatim>\<open>popleft\<close> and \<^verbatim>\<open>popleftitem\<close>.\<close>

definition unlink_head ::
  "addr \<Rightarrow> ('k, 'v) DequeDictObject \<Rightarrow> ('k, 'v) DequeDictObject" where
  "unlink_head entry s =
     (let s1 = s\<lparr>head := entry_next (mem s entry)\<rparr>
      in (case head s1 of
            Some h \<Rightarrow> s1\<lparr>mem := (mem s1)(h := (mem s1 h)\<lparr>entry_prev := None\<rparr>)\<rparr>
          | None \<Rightarrow> s1\<lparr>tail := None\<rparr>))"

text \<open>The block \<^verbatim>\<open>/* Unlink tail */\<close> of \<^verbatim>\<open>pop\<close> and \<^verbatim>\<open>popitem\<close>.\<close>

definition unlink_tail ::
  "addr \<Rightarrow> ('k, 'v) DequeDictObject \<Rightarrow> ('k, 'v) DequeDictObject" where
  "unlink_tail entry s =
     (let s1 = s\<lparr>tail := entry_prev (mem s entry)\<rparr>
      in (case tail s1 of
            Some t \<Rightarrow> s1\<lparr>mem := (mem s1)(t := (mem s1 t)\<lparr>entry_next := None\<rparr>)\<rparr>
          | None \<Rightarrow> s1\<lparr>head := None\<rparr>))"

text \<open>
  After unlinking, every removal runs \<^verbatim>\<open>PyDict_DelItem(self->dict, key)\<close>,
  \<^verbatim>\<open>entry_free(entry)\<close> and \<^verbatim>\<open>self->size--\<close>.
\<close>

definition discard_entry ::
  "addr \<Rightarrow> 'k \<Rightarrow> ('k, 'v) DequeDictObject \<Rightarrow> ('k, 'v) DequeDictObject" where
  "discard_entry entry k s =
     (let s1 = s\<lparr>dict := (dict s)(k := None)\<rparr>;
          s2 = entry_free entry s1
      in s2\<lparr>dd_size := dd_size s2 - 1\<rparr>)"

text \<open>
  The initialisation of a new entry and its linking at the tail
  (\<^verbatim>\<open>DequeDict_setitem\<close>, \<^verbatim>\<open>/* New key - append to end */\<close>).
\<close>

definition link_at_tail ::
  "addr \<Rightarrow> 'k \<Rightarrow> 'v \<Rightarrow> ('k, 'v) DequeDictObject \<Rightarrow> ('k, 'v) DequeDictObject" where
  "link_at_tail new_entry k v s =
     (let s1 = s\<lparr>mem := (mem s)(new_entry :=
                  \<lparr>entry_key = k, entry_value = v, entry_prev = tail s,
                   entry_next = None, entry_cache_idx = - 1\<rparr>)\<rparr>;
          s2 = (case tail s1 of
                  Some t \<Rightarrow> s1\<lparr>mem := (mem s1)(t := (mem s1 t)\<lparr>entry_next := Some new_entry\<rparr>)\<rparr>
                | None \<Rightarrow> s1\<lparr>head := Some new_entry\<rparr>)
      in s2\<lparr>tail := Some new_entry, dd_size := dd_size s2 + 1\<rparr>)"

text \<open>The same at the head (\<^verbatim>\<open>DequeDict_appendleft\<close>).\<close>

definition link_at_head ::
  "addr \<Rightarrow> 'k \<Rightarrow> 'v \<Rightarrow> ('k, 'v) DequeDictObject \<Rightarrow> ('k, 'v) DequeDictObject" where
  "link_at_head new_entry k v s =
     (let s1 = s\<lparr>mem := (mem s)(new_entry :=
                  \<lparr>entry_key = k, entry_value = v, entry_prev = None,
                   entry_next = head s, entry_cache_idx = - 1\<rparr>)\<rparr>;
          s2 = (case head s1 of
                  Some h \<Rightarrow> s1\<lparr>mem := (mem s1)(h := (mem s1 h)\<lparr>entry_prev := Some new_entry\<rparr>)\<rparr>
                | None \<Rightarrow> s1\<lparr>tail := Some new_entry\<rparr>)
      in s2\<lparr>head := Some new_entry, dd_size := dd_size s2 + 1\<rparr>)"

text \<open>The block \<^verbatim>\<open>/* Append to cache if it exists */\<close> of \<^verbatim>\<open>DequeDict_setitem\<close>.\<close>

definition cache_append ::
  "alloc_env \<Rightarrow> addr \<Rightarrow> ('k, 'v) DequeDictObject \<Rightarrow> ('k, 'v) DequeDictObject" where
  "cache_append env new_entry s =
     (case index_cache s of
        None \<Rightarrow> s
      | Some _ \<Rightarrow>
          (case DequeDict_cache_ensure_capacity env s of
             (rc, s1) \<Rightarrow>
               (case index_cache s1 of
                  None \<Rightarrow> s1
                | Some arr \<Rightarrow>
                    if rc = 0
                    then s1\<lparr>mem := (mem s1)(new_entry :=
                                (mem s1 new_entry)\<lparr>entry_cache_idx := cache_size s1\<rparr>),
                            index_cache := Some (arr[nat (cache_size s1) := new_entry]),
                            cache_size := cache_size s1 + 1\<rparr>
                    else s1)))"

text \<open>
  The end of \<^verbatim>\<open>DequeDict_setitem\<close> and \<^verbatim>\<open>DequeDict_appendleft\<close>: the capsule is
  created and stored in the key index; when either step fails the new entry is handed
  to \<^verbatim>\<open>entry_free\<close> and the call reports the error.
\<close>

definition store_capsule ::
  "alloc_env \<Rightarrow> addr \<Rightarrow> 'k \<Rightarrow> ('k, 'v) DequeDictObject
     \<Rightarrow> (error + unit) \<times> ('k, 'v) DequeDictObject" where
  "store_capsule env new_entry k s =
     (if \<not> capsule_ok env then (Inl MemoryError, entry_free new_entry s)
      else if \<not> dict_set_ok env then (Inl MemoryError, entry_free new_entry s)
      else (Inr (), s\<lparr>dict := (dict s)(k \<mapsto> new_entry)\<rparr>))"

section \<open>The operations\<close>

text \<open>
  The Python objects an operation returns: a key, a value, a \<open>(key, value)\<close> tuple,
  \<^verbatim>\<open>None\<close>, a truth value, an integer, \<^verbatim>\<open>NotImplemented\<close>, or the list of
  what an iterator yields.
\<close>

datatype ('k, 'v) pyobj =
    Key 'k
  | Value 'v
  | Item 'k 'v
  | PyNone
  | PyBool bool
  | PyInt int
  | PyNotImplemented
  | PyList "('k, 'v) pyobj list"

type_synonym ('k, 'v) outcome = "(error + ('k, 'v) pyobj) \<times> ('k, 'v) DequeDictObject"

definition DequeDict_len :: "('k, 'v) DequeDictObject \<Rightarrow> int" where
  "DequeDict_len s = dd_size s"

definition DequeDict_getitem :: "('k, 'v) DequeDictObject \<Rightarrow> 'k \<Rightarrow> error + 'v" where
  "DequeDict_getitem s k =
     (case dict s k of
        None \<Rightarrow> Inl KeyError
      | Some entry \<Rightarrow> Inr (entry_value (mem s entry)))"

text \<open>
  \<^verbatim>\<open>DequeDict_setitem\<close> is the slot \<^verbatim>\<open>mp_ass_subscript\<close>: the value \<open>None\<close> is
  the C \<^verbatim>\<open>NULL\<close> that Python passes for \<^verbatim>\<open>del d[key]\<close>.
\<close>

definition DequeDict_setitem ::
  "alloc_env \<Rightarrow> ('k, 'v) DequeDictObject \<Rightarrow> 'k \<Rightarrow> 'v option
     \<Rightarrow> (error + unit) \<times> ('k, 'v) DequeDictObject" where
  "DequeDict_setitem env s k val =
     (case val of
        None \<Rightarrow>
          (case dict s k of
             None \<Rightarrow> (Inl KeyError, s)
           | Some entry \<Rightarrow>
               (Inr (), DequeDict_invalidate_cache
                          (discard_entry entry k (unlink_from_list entry s))))
      | Some v \<Rightarrow>
          (case dict s k of
             Some entry \<Rightarrow>
               (Inr (), s\<lparr>mem := (mem s)(entry := (mem s entry)\<lparr>entry_value := v\<rparr>)\<rparr>)
           | None \<Rightarrow>
               (case entry_alloc env s of
                  (None, s1) \<Rightarrow> (Inl MemoryError, s1)
                | (Some new_entry, s1) \<Rightarrow>
                    store_capsule env new_entry k
                      (cache_append env new_entry (link_at_tail new_entry k v s1)))))"

definition DequeDict_contains :: "('k, 'v) DequeDictObject \<Rightarrow> 'k \<Rightarrow> bool" where
  "DequeDict_contains s k = (dict s k \<noteq> None)"

definition DequeDict_peekleft :: "('k, 'v) DequeDictObject \<Rightarrow> error + 'v" where
  "DequeDict_peekleft s =
     (case head s of None \<Rightarrow> Inl IndexError | Some h \<Rightarrow> Inr (entry_value (mem s h)))"

definition DequeDict_peekleftitem :: "('k, 'v) DequeDictObject \<Rightarrow> error + 'k \<times> 'v" where
  "DequeDict_peekleftitem s =
     (case head s of
        None \<Rightarrow> Inl IndexError
      | Some h \<Rightarrow> Inr (entry_key (mem s h), entry_value (mem s h)))"

definition DequeDict_peekleftkey :: "('k, 'v) DequeDictObject \<Rightarrow> error + 'k" where
  "DequeDict_peekleftkey s =
     (case head s of None \<Rightarrow> Inl IndexError | Some h \<Rightarrow> Inr (entry_key (mem s h)))"

definition DequeDict_peek :: "('k, 'v) DequeDictObject \<Rightarrow> error + 'v" where
  "DequeDict_peek s =
     (case tail s of None \<Rightarrow> Inl IndexError | Some t \<Rightarrow> Inr (entry_value (mem s t)))"

definition DequeDict_peekitem :: "('k, 'v) DequeDictObject \<Rightarrow> error + 'k \<times> 'v" where
  "DequeDict_peekitem s =
     (case tail s of
        None \<Rightarrow> Inl IndexError
      | Some t \<Rightarrow> Inr (entry_key (mem s t), entry_value (mem s t)))"

text \<open>\<^verbatim>\<open>/* Bump cache offset instead of invalidating */\<close>\<close>

definition bump_cache_offset ::
  "('k, 'v) DequeDictObject \<Rightarrow> ('k, 'v) DequeDictObject" where
  "bump_cache_offset s =
     (if index_cache s \<noteq> None then s\<lparr>cache_offset := cache_offset s + 1\<rparr> else s)"

text \<open>\<^verbatim>\<open>/* Pop from cache right side */\<close>\<close>

definition pop_cache_right ::
  "('k, 'v) DequeDictObject \<Rightarrow> ('k, 'v) DequeDictObject" where
  "pop_cache_right s =
     (if index_cache s \<noteq> None \<and> cache_size s > 0
      then s\<lparr>cache_size := cache_size s - 1\<rparr> else s)"

definition DequeDict_popleft ::
  "('k, 'v) DequeDictObject \<Rightarrow> (error + 'v) \<times> ('k, 'v) DequeDictObject" where
  "DequeDict_popleft s =
     (case head s of
        None \<Rightarrow> (Inl IndexError, s)
      | Some entry \<Rightarrow>
          (let v = entry_value (mem s entry);
               s1 = unlink_head entry s;
               s2 = discard_entry entry (entry_key (mem s1 entry)) s1
           in (Inr v, bump_cache_offset s2)))"

definition DequeDict_popleftitem ::
  "('k, 'v) DequeDictObject \<Rightarrow> (error + 'k \<times> 'v) \<times> ('k, 'v) DequeDictObject" where
  "DequeDict_popleftitem s =
     (case head s of
        None \<Rightarrow> (Inl KeyError, s)
      | Some entry \<Rightarrow>
          (let k = entry_key (mem s entry);
               v = entry_value (mem s entry);
               s1 = unlink_head entry s;
               s2 = discard_entry entry k s1
           in (Inr (k, v), bump_cache_offset s2)))"

text \<open>
  \<^verbatim>\<open>pop(key=None, default=UNSET)\<close>: an argument that is not given is \<open>None\<close>; the
  result is a value of the container or the caller's default object.
\<close>

definition DequeDict_pop ::
  "('k, 'v) DequeDictObject \<Rightarrow> 'k option \<Rightarrow> ('k, 'v) pyobj option \<Rightarrow> ('k, 'v) outcome" where
  "DequeDict_pop s key default_val =
     (case key of
        None \<Rightarrow>
          (case tail s of
             None \<Rightarrow>
               (case default_val of
                  Some d \<Rightarrow> (Inr d, s)
                | None \<Rightarrow> (Inl IndexError, s))
           | Some entry \<Rightarrow>
               (let v = entry_value (mem s entry);
                    s1 = unlink_tail entry s;
                    s2 = discard_entry entry (entry_key (mem s1 entry)) s1
                in (Inr (Value v), pop_cache_right s2)))
      | Some k \<Rightarrow>
          (case dict s k of
             None \<Rightarrow>
               (case default_val of
                  Some d \<Rightarrow> (Inr d, s)
                | None \<Rightarrow> (Inl KeyError, s))
           | Some entry \<Rightarrow>
               (let v = entry_value (mem s entry);
                    s1 = unlink_from_list entry s;
                    s2 = discard_entry entry k s1
                in (Inr (Value v), DequeDict_invalidate_cache s2))))"

definition DequeDict_popitem ::
  "('k, 'v) DequeDictObject \<Rightarrow> (error + 'k \<times> 'v) \<times> ('k, 'v) DequeDictObject" where
  "DequeDict_popitem s =
     (case tail s of
        None \<Rightarrow> (Inl KeyError, s)
      | Some entry \<Rightarrow>
          (let k = entry_key (mem s entry);
               v = entry_value (mem s entry);
               s1 = unlink_tail entry s;
               s2 = discard_entry entry k s1
           in (Inr (k, v), pop_cache_right s2)))"

definition DequeDict_appendleft ::
  "alloc_env \<Rightarrow> ('k, 'v) DequeDictObject \<Rightarrow> 'k \<Rightarrow> 'v
     \<Rightarrow> (error + unit) \<times> ('k, 'v) DequeDictObject" where
  "DequeDict_appendleft env s k v =
     (if dict s k \<noteq> None then (Inl KeyError, s)
      else
        (case entry_alloc env s of
           (None, s1) \<Rightarrow> (Inl MemoryError, s1)
         | (Some new_entry, s1) \<Rightarrow>
             store_capsule env new_entry k
               (DequeDict_invalidate_cache (link_at_head new_entry k v s1))))"

definition DequeDict_get ::
  "('k, 'v) DequeDictObject \<Rightarrow> 'k \<Rightarrow> ('k, 'v) pyobj \<Rightarrow> ('k, 'v) pyobj" where
  "DequeDict_get s k default_val =
     (case dict s k of
        None \<Rightarrow> default_val
      | Some entry \<Rightarrow> Value (entry_value (mem s entry)))"

text \<open>
  The loop of \<^verbatim>\<open>DequeDict_clear_method\<close>: \<open>next\<close> is read before the entry is
  handed to \<^verbatim>\<open>entry_free\<close>. \<open>None\<close>: the loop never ends.
\<close>

partial_function (option) clear_loop ::
  "('k, 'v) DequeDictObject \<Rightarrow> addr option \<Rightarrow> ('k, 'v) DequeDictObject option" where
  "clear_loop s entry =
     (case entry of
        None \<Rightarrow> Some s
      | Some e \<Rightarrow> clear_loop (entry_free e s) (entry_next (mem s e)))"

definition DequeDict_clear_method ::
  "('k, 'v) DequeDictObject \<Rightarrow> ('k, 'v) DequeDictObject option" where
  "DequeDict_clear_method s =
     (case clear_loop s (head s) of
        None \<Rightarrow> None
      | Some s1 \<Rightarrow>
          Some (DequeDict_invalidate_cache
                  (s1\<lparr>dict := Map.empty, head := None, tail := None, dd_size := 0\<rparr>)))"

definition DequeDict_setdefault ::
  "alloc_env \<Rightarrow> ('k, 'v) DequeDictObject \<Rightarrow> 'k \<Rightarrow> 'v
     \<Rightarrow> (error + 'v) \<times> ('k, 'v) DequeDictObject" where
  "DequeDict_setdefault env s k default_val =
     (case dict s k of
        Some entry \<Rightarrow> (Inr (entry_value (mem s entry)), s)
      | None \<Rightarrow>
          (case DequeDict_setitem env s k (Some default_val) of
             (Inl e, s1) \<Rightarrow> (Inl e, s1)
           | (Inr _, s1) \<Rightarrow> (Inr default_val, s1)))"

text \<open>
  \<^verbatim>\<open>Py_ssize_t\<close> has 64 bits: \<^verbatim>\<open>PyArg_ParseTuple(args, "n", &index)\<close>
  converts a Python integer within \<^verbatim>\<open>PY_SSIZE_T_MIN .. PY_SSIZE_T_MAX\<close> and raises
  \<^verbatim>\<open>OverflowError\<close> for any other.
\<close>

definition PY_SSIZE_T_MAX :: int where
  "PY_SSIZE_T_MAX = 2 ^ 63 - 1"

definition PY_SSIZE_T_MIN :: int where
  "PY_SSIZE_T_MIN = - PY_SSIZE_T_MAX - 1"

definition fits_ssize_t :: "int \<Rightarrow> bool" where
  "fits_ssize_t n \<longleftrightarrow> PY_SSIZE_T_MIN \<le> n \<and> n \<le> PY_SSIZE_T_MAX"

text \<open>
  The index computation and the read of \<^verbatim>\<open>DequeDict_at\<close> on the cache array
  \<open>arr\<close>.
\<close>

definition at_cached ::
  "('k, 'v) DequeDictObject \<Rightarrow> addr list \<Rightarrow> int \<Rightarrow> error + 'v" where
  "at_cached s arr index0 =
     (let logical_size = cache_size s - cache_offset s;
          index = (if index0 < 0 then index0 + logical_size else index0)
      in if index < 0 \<or> index \<ge> logical_size then Inl IndexError
         else Inr (entry_value (mem s (arr ! nat (cache_offset s + index)))))"

text \<open>
  \<^verbatim>\<open>DequeDict_at\<close>: the argument is the Python integer of the call; it is
  converted first, then the cache is built if it is absent.
\<close>

definition DequeDict_at ::
  "alloc_env \<Rightarrow> ('k, 'v) DequeDictObject \<Rightarrow> int
     \<Rightarrow> ((error + 'v) \<times> ('k, 'v) DequeDictObject) option" where
  "DequeDict_at env s index =
     (if \<not> fits_ssize_t index then Some (Inl OverflowError, s)
      else
        (case index_cache s of
           Some arr \<Rightarrow> Some (at_cached s arr index, s)
         | None \<Rightarrow>
             (case DequeDict_rebuild_cache env s of
                None \<Rightarrow> None
              | Some (rc, s1) \<Rightarrow>
                  if rc < 0 then Some (Inl MemoryError, s1)
                  else (case index_cache s1 of
                          None \<Rightarrow> Some (Inl IndexError, s1)
                        | Some arr \<Rightarrow> Some (at_cached s1 arr index, s1)))))"

text \<open>
  The blocks \<^verbatim>\<open>/* Move to end */\<close> and \<^verbatim>\<open>/* Move to front */\<close> of
  \<^verbatim>\<open>DequeDict_move_to_end\<close>: the unlinked entry is linked again at one end.
\<close>

definition relink_at_tail ::
  "addr \<Rightarrow> ('k, 'v) DequeDictObject \<Rightarrow> ('k, 'v) DequeDictObject" where
  "relink_at_tail entry s =
     (let s1 = s\<lparr>mem := (mem s)(entry :=
                  (mem s entry)\<lparr>entry_prev := tail s, entry_next := None\<rparr>)\<rparr>;
          s2 = (case tail s1 of
                  Some t \<Rightarrow> s1\<lparr>mem := (mem s1)(t := (mem s1 t)\<lparr>entry_next := Some entry\<rparr>)\<rparr>
                | None \<Rightarrow> s1\<lparr>head := Some entry\<rparr>)
      in s2\<lparr>tail := Some entry\<rparr>)"

definition relink_at_head ::
  "addr \<Rightarrow> ('k, 'v) DequeDictObject \<Rightarrow> ('k, 'v) DequeDictObject" where
  "relink_at_head entry s =
     (let s1 = s\<lparr>mem := (mem s)(entry :=
                  (mem s entry)\<lparr>entry_prev := None, entry_next := head s\<rparr>)\<rparr>;
          s2 = (case head s1 of
                  Some h \<Rightarrow> s1\<lparr>mem := (mem s1)(h := (mem s1 h)\<lparr>entry_prev := Some entry\<rparr>)\<rparr>
                | None \<Rightarrow> s1\<lparr>tail := Some entry\<rparr>)
      in s2\<lparr>head := Some entry\<rparr>)"

definition DequeDict_move_to_end ::
  "('k, 'v) DequeDictObject \<Rightarrow> 'k \<Rightarrow> bool
     \<Rightarrow> (error + unit) \<times> ('k, 'v) DequeDictObject" where
  "DequeDict_move_to_end s k last_arg =
     (case dict s k of
        None \<Rightarrow> (Inl KeyError, s)
      | Some entry \<Rightarrow>
          if (last_arg \<and> Some entry = tail s) \<or> (\<not> last_arg \<and> Some entry = head s)
          then (Inr (), s)
          else
            let s1 = DequeDict_invalidate_cache (unlink_from_list entry s) in
            if last_arg then (Inr (), relink_at_tail entry s1)
            else (Inr (), relink_at_head entry s1))"

subsection \<open>Iteration\<close>

text \<open>
  An iterator is its field \<open>current\<close>. \<^verbatim>\<open>DequeDictIter_next\<close> and
  \<^verbatim>\<open>DequeDictRevIter_next\<close> yield keys; \<^verbatim>\<open>DequeDictViewIter_next\<close> yields what
  its \<open>kind\<close> says (0 keys, 1 values, otherwise items) and steps along \<open>prev\<close> when
  \<open>reverse\<close> is set. Each returns \<open>None\<close> when the iterator is exhausted.
\<close>

definition DequeDictIter_next ::
  "(addr \<Rightarrow> ('k, 'v) DequeDictEntry) \<Rightarrow> addr option \<Rightarrow> (('k, 'v) pyobj \<times> addr option) option" where
  "DequeDictIter_next m current =
     (case current of
        None \<Rightarrow> None
      | Some c \<Rightarrow> Some (Key (entry_key (m c)), entry_next (m c)))"

definition DequeDictRevIter_next ::
  "(addr \<Rightarrow> ('k, 'v) DequeDictEntry) \<Rightarrow> addr option \<Rightarrow> (('k, 'v) pyobj \<times> addr option) option" where
  "DequeDictRevIter_next m current =
     (case current of
        None \<Rightarrow> None
      | Some c \<Rightarrow> Some (Key (entry_key (m c)), entry_prev (m c)))"

definition DequeDictViewIter_next ::
  "int \<Rightarrow> bool \<Rightarrow> (addr \<Rightarrow> ('k, 'v) DequeDictEntry) \<Rightarrow> addr option
     \<Rightarrow> (('k, 'v) pyobj \<times> addr option) option" where
  "DequeDictViewIter_next kind reverse m current =
     (case current of
        None \<Rightarrow> None
      | Some c \<Rightarrow>
          Some (if kind = 0 then Key (entry_key (m c))
                else if kind = 1 then Value (entry_value (m c))
                else Item (entry_key (m c)) (entry_value (m c)),
                if reverse then entry_prev (m c) else entry_next (m c)))"

text \<open>
  Python's \<^verbatim>\<open>list(it)\<close>: call \<open>next\<close> until the iterator is exhausted and collect
  what it yields. \<open>None\<close>: the iteration never ends.
\<close>

partial_function (option) collect ::
  "(addr option \<Rightarrow> ('a \<times> addr option) option) \<Rightarrow> addr option \<Rightarrow> 'a list option" where
  "collect next_fn current =
     (case next_fn current of
        None \<Rightarrow> Some []
      | Some (x, current') \<Rightarrow>
          Option.bind (collect next_fn current') (\<lambda>rest. Some (x # rest)))"

definition list_iter :: "('k, 'v) DequeDictObject \<Rightarrow> ('k, 'v) pyobj list option" where
  "list_iter s = collect (DequeDictIter_next (mem s)) (head s)"

definition list_reversed :: "('k, 'v) DequeDictObject \<Rightarrow> ('k, 'v) pyobj list option" where
  "list_reversed s = collect (DequeDictRevIter_next (mem s)) (tail s)"

definition list_view ::
  "int \<Rightarrow> bool \<Rightarrow> ('k, 'v) DequeDictObject \<Rightarrow> ('k, 'v) pyobj list option" where
  "list_view kind reverse s =
     collect (DequeDictViewIter_next kind reverse (mem s)) (if reverse then tail s else head s)"

subsection \<open>Equality\<close>

text \<open>
  The right operand of \<^verbatim>\<open>DequeDict_richcompare\<close> through the mapping protocol: an
  object that is no mapping, or a mapping with the answer of \<^verbatim>\<open>PyMapping_Size\<close>
  and of \<^verbatim>\<open>PyObject_GetItem\<close> (\<open>None\<close> for \<^verbatim>\<open>KeyError\<close>). Values are compared
  with \<^verbatim>\<open>PyObject_RichCompareBool(.., Py_EQ)\<close>, modelled by equality.
\<close>

datatype ('k, 'v) other_obj = NotMapping | Mapping int "'k \<rightharpoonup> 'v"

datatype cmp_op = Py_LT | Py_LE | Py_EQ | Py_NE | Py_GT | Py_GE

datatype cmp_result = NotImplemented | Py_True | Py_False

partial_function (option) compare_loop ::
  "(addr \<Rightarrow> ('k, 'v) DequeDictEntry) \<Rightarrow> ('k \<rightharpoonup> 'v) \<Rightarrow> addr option \<Rightarrow> bool option" where
  "compare_loop m other entry =
     (case entry of
        None \<Rightarrow> Some True
      | Some e \<Rightarrow>
          (case other (entry_key (m e)) of
             None \<Rightarrow> Some False
           | Some other_val \<Rightarrow>
               if entry_value (m e) = other_val
               then compare_loop m other (entry_next (m e))
               else Some False))"

definition DequeDict_richcompare ::
  "('k, 'v) DequeDictObject \<Rightarrow> ('k, 'v) other_obj \<Rightarrow> cmp_op \<Rightarrow> cmp_result option" where
  "DequeDict_richcompare s other op =
     (if op \<noteq> Py_EQ \<and> op \<noteq> Py_NE then Some NotImplemented
      else
        (case other of
           NotMapping \<Rightarrow> Some (if op = Py_EQ then Py_False else Py_True)
         | Mapping other_len getitem \<Rightarrow>
             if other_len = - 1 then Some NotImplemented
             else if dd_size s \<noteq> other_len
             then Some (if op = Py_EQ then Py_False else Py_True)
             else
               (case compare_loop (mem s) getitem (head s) of
                  None \<Rightarrow> None
                | Some True \<Rightarrow> Some (if op = Py_EQ then Py_True else Py_False)
                | Some False \<Rightarrow> Some (if op = Py_EQ then Py_False else Py_True))))"

text \<open>
  A \<^verbatim>\<open>DequeDict\<close> as right operand answers \<^verbatim>\<open>PyMapping_Size\<close> with
  \<^verbatim>\<open>DequeDict_len\<close> and \<^verbatim>\<open>PyObject_GetItem\<close> with \<^verbatim>\<open>DequeDict_getitem\<close>; a plain
  \<^verbatim>\<open>dict\<close> with its number of keys and its lookup.
\<close>

definition as_mapping :: "('k, 'v) DequeDictObject \<Rightarrow> ('k, 'v) other_obj" where
  "as_mapping t =
     Mapping (DequeDict_len t)
       (\<lambda>k. case DequeDict_getitem t k of Inl _ \<Rightarrow> None | Inr v \<Rightarrow> Some v)"

definition plain_dict :: "('k \<rightharpoonup> 'v) \<Rightarrow> ('k, 'v) other_obj" where
  "plain_dict d = Mapping (int (card (dom d))) d"

subsection \<open>Construction and the interface as a whole\<close>

text \<open>
  The state after \<^verbatim>\<open>DequeDict()\<close> in a fresh interpreter: \<^verbatim>\<open>tp_new\<close> zero-fills
  the object, \<^verbatim>\<open>DequeDict_init\<close> without items creates the empty key index, and the
  free list is empty. The content of the memory is arbitrary.
\<close>

definition DequeDict_new ::
  "(addr \<Rightarrow> ('k, 'v) DequeDictEntry) \<Rightarrow> ('k, 'v) DequeDictObject" where
  "DequeDict_new m =
     \<lparr>mem = m, allocated = {}, freelist = None, freelist_size = 0,
      dict = Map.empty, head = None, tail = None, dd_size = 0,
      index_cache = None, cache_size = 0, cache_capacity = 0, cache_offset = 0\<rparr>"

text \<open>
  \<^verbatim>\<open>DequeDict_init\<close> with its argument \<open>items\<close>: absent, a \<^verbatim>\<open>dict\<close> (what
  \<^verbatim>\<open>PyDict_Next\<close> yields, in its order), or another iterable (what
  \<^verbatim>\<open>PyIter_Next\<close> yields, each element a 2-tuple or not). Every element comes with
  what the allocator answers while it is inserted. An argument that is not iterable and
  an iterator that raises are not represented.
\<close>

datatype ('k, 'v) pyitem = PyPair 'k 'v | NotPair

datatype ('k, 'v) init_items =
    NoItems
  | FromDict "(alloc_env \<times> 'k \<times> 'v) list"
  | FromIterable "(alloc_env \<times> ('k, 'v) pyitem) list"

text \<open>
  The loop \<^verbatim>\<open>/* Initialize from dict */\<close>: each pair gets a new entry that is
  linked at the tail and stored in the key index.
\<close>

fun init_from_dict ::
  "(alloc_env \<times> 'k \<times> 'v) list \<Rightarrow> ('k, 'v) DequeDictObject
     \<Rightarrow> (error + unit) \<times> ('k, 'v) DequeDictObject" where
  "init_from_dict [] s = (Inr (), s)"
| "init_from_dict ((env, k, v) # rest) s =
     (case entry_alloc env s of
        (None, s1) \<Rightarrow> (Inl MemoryError, s1)
      | (Some new_entry, s1) \<Rightarrow>
          (case store_capsule env new_entry k (link_at_tail new_entry k v s1) of
             (Inl e, s2) \<Rightarrow> (Inl e, s2)
           | (Inr _, s2) \<Rightarrow> init_from_dict rest s2))"

text \<open>
  The loop \<^verbatim>\<open>/* Initialize from iterable of (key, value) pairs */\<close>: the same
  after the check that the element is a 2-tuple. Neither loop looks the key up in the
  key index before it links the new entry.
\<close>

fun init_from_iterable ::
  "(alloc_env \<times> ('k, 'v) pyitem) list \<Rightarrow> ('k, 'v) DequeDictObject
     \<Rightarrow> (error + unit) \<times> ('k, 'v) DequeDictObject" where
  "init_from_iterable [] s = (Inr (), s)"
| "init_from_iterable ((env, NotPair) # rest) s = (Inl ValueError, s)"
| "init_from_iterable ((env, PyPair k v) # rest) s =
     (case entry_alloc env s of
        (None, s1) \<Rightarrow> (Inl MemoryError, s1)
      | (Some new_entry, s1) \<Rightarrow>
          (case store_capsule env new_entry k (link_at_tail new_entry k v s1) of
             (Inl e, s2) \<Rightarrow> (Inl e, s2)
           | (Inr _, s2) \<Rightarrow> init_from_iterable rest s2))"

text \<open>
  \<^verbatim>\<open>DequeDict_init\<close> first hands the entries of the object to
  \<^verbatim>\<open>entry_free\<close> (the loop of \<open>clear_loop\<close>), drops the cache and creates a
  new key index (\<open>dict_new_ok\<close>: \<^verbatim>\<open>PyDict_New\<close> succeeds; the \<^verbatim>\<open>NULL\<close> it
  leaves otherwise is represented by the empty map), then resets the list and inserts
  the items. \<open>None\<close>: the first loop never ends.
\<close>

definition DequeDict_init ::
  "bool \<Rightarrow> ('k, 'v) DequeDictObject \<Rightarrow> ('k, 'v) init_items
     \<Rightarrow> ((error + unit) \<times> ('k, 'v) DequeDictObject) option" where
  "DequeDict_init dict_new_ok s items =
     (case clear_loop s (head s) of
        None \<Rightarrow> None
      | Some s1 \<Rightarrow>
          let s2 = (DequeDict_invalidate_cache s1)\<lparr>dict := Map.empty\<rparr> in
          if \<not> dict_new_ok then Some (Inl MemoryError, s2)
          else
            let s3 = s2\<lparr>head := None, tail := None, dd_size := 0\<rparr> in
            Some (case items of
                    NoItems \<Rightarrow> (Inr (), s3)
                  | FromDict kvs \<Rightarrow> init_from_dict kvs s3
                  | FromIterable xs \<Rightarrow> init_from_iterable xs s3))"

text \<open>
  \<^verbatim>\<open>DequeDict_update\<close> with its positional argument \<open>other\<close> (absent, a
  \<^verbatim>\<open>dict\<close>, or another iterable) and its keyword arguments: every pair goes
  through \<^verbatim>\<open>DequeDict_setitem\<close>, and the first error ends the call.
\<close>

fun update_from_dict ::
  "(alloc_env \<times> 'k \<times> 'v) list \<Rightarrow> ('k, 'v) DequeDictObject
     \<Rightarrow> (error + unit) \<times> ('k, 'v) DequeDictObject" where
  "update_from_dict [] s = (Inr (), s)"
| "update_from_dict ((env, k, v) # rest) s =
     (case DequeDict_setitem env s k (Some v) of
        (Inl e, s1) \<Rightarrow> (Inl e, s1)
      | (Inr _, s1) \<Rightarrow> update_from_dict rest s1)"

fun update_from_iterable ::
  "(alloc_env \<times> ('k, 'v) pyitem) list \<Rightarrow> ('k, 'v) DequeDictObject
     \<Rightarrow> (error + unit) \<times> ('k, 'v) DequeDictObject" where
  "update_from_iterable [] s = (Inr (), s)"
| "update_from_iterable ((env, NotPair) # rest) s = (Inl ValueError, s)"
| "update_from_iterable ((env, PyPair k v) # rest) s =
     (case DequeDict_setitem env s k (Some v) of
        (Inl e, s1) \<Rightarrow> (Inl e, s1)
      | (Inr _, s1) \<Rightarrow> update_from_iterable rest s1)"

definition DequeDict_update ::
  "('k, 'v) DequeDictObject \<Rightarrow> ('k, 'v) init_items \<Rightarrow> (alloc_env \<times> 'k \<times> 'v) list
     \<Rightarrow> (error + unit) \<times> ('k, 'v) DequeDictObject" where
  "DequeDict_update s other kwds =
     (case (case other of
              NoItems \<Rightarrow> (Inr (), s)
            | FromDict kvs \<Rightarrow> update_from_dict kvs s
            | FromIterable xs \<Rightarrow> update_from_iterable xs s) of
        (Inl e, s1) \<Rightarrow> (Inl e, s1)
      | (Inr _, s1) \<Rightarrow> update_from_dict kwds s1)"

text \<open>
  The methods and slots of the type as one datatype, and the call of one of them.
  \<open>OpView kind reverse\<close> is \<^verbatim>\<open>list(d.keys())\<close>, \<^verbatim>\<open>list(d.values())\<close>,
  \<^verbatim>\<open>list(d.items())\<close> for the kinds 0, 1, 2, or the same on \<^verbatim>\<open>reversed(..)\<close>;
  \<open>OpIter\<close> is \<^verbatim>\<open>list(iter(d))\<close>, \<open>OpReversed\<close> is \<^verbatim>\<open>list(reversed(d))\<close>.
  The result \<open>None\<close> is a call that does not return.
\<close>

datatype ('k, 'v) operation =
    OpLen
  | OpGetItem 'k
  | OpSetItem 'k 'v
  | OpDelItem 'k
  | OpContains 'k
  | OpPeekLeft
  | OpPeekLeftItem
  | OpPeekLeftKey
  | OpPeek
  | OpPeekItem
  | OpPopLeft
  | OpPopLeftItem
  | OpPop "'k option" "('k, 'v) pyobj option"
  | OpPopItem
  | OpAppendLeft 'k 'v
  | OpGet 'k "('k, 'v) pyobj"
  | OpClear
  | OpSetDefault 'k 'v
  | OpAt int
  | OpMoveToEnd 'k bool
  | OpIter
  | OpReversed
  | OpView int bool
  | OpRichCompare "('k, 'v) other_obj" cmp_op

definition returning :: "('a \<Rightarrow> ('k, 'v) pyobj) \<Rightarrow> error + 'a \<Rightarrow> error + ('k, 'v) pyobj" where
  "returning f r = (case r of Inl e \<Rightarrow> Inl e | Inr x \<Rightarrow> Inr (f x))"

definition item_of :: "'k \<times> 'v \<Rightarrow> ('k, 'v) pyobj" where
  "item_of kv = Item (fst kv) (snd kv)"

definition cmp_obj :: "cmp_result \<Rightarrow> ('k, 'v) pyobj" where
  "cmp_obj r = (case r of NotImplemented \<Rightarrow> PyNotImplemented
                | Py_True \<Rightarrow> PyBool True | Py_False \<Rightarrow> PyBool False)"

fun exec ::
  "alloc_env \<Rightarrow> ('k, 'v) operation \<Rightarrow> ('k, 'v) DequeDictObject \<Rightarrow> ('k, 'v) outcome option" where
  "exec env OpLen s = Some (Inr (PyInt (DequeDict_len s)), s)"
| "exec env (OpGetItem k) s = Some (returning Value (DequeDict_getitem s k), s)"
| "exec env (OpSetItem k v) s =
     (case DequeDict_setitem env s k (Some v) of
        (r, s') \<Rightarrow> Some (returning (\<lambda>_. PyNone) r, s'))"
| "exec env (OpDelItem k) s =
     (case DequeDict_setitem env s k None of
        (r, s') \<Rightarrow> Some (returning (\<lambda>_. PyNone) r, s'))"
| "exec env (OpContains k) s = Some (Inr (PyBool (DequeDict_contains s k)), s)"
| "exec env OpPeekLeft s = Some (returning Value (DequeDict_peekleft s), s)"
| "exec env OpPeekLeftItem s = Some (returning item_of (DequeDict_peekleftitem s), s)"
| "exec env OpPeekLeftKey s = Some (returning Key (DequeDict_peekleftkey s), s)"
| "exec env OpPeek s = Some (returning Value (DequeDict_peek s), s)"
| "exec env OpPeekItem s = Some (returning item_of (DequeDict_peekitem s), s)"
| "exec env OpPopLeft s =
     (case DequeDict_popleft s of (r, s') \<Rightarrow> Some (returning Value r, s'))"
| "exec env OpPopLeftItem s =
     (case DequeDict_popleftitem s of (r, s') \<Rightarrow> Some (returning item_of r, s'))"
| "exec env (OpPop key default_val) s = Some (DequeDict_pop s key default_val)"
| "exec env OpPopItem s =
     (case DequeDict_popitem s of (r, s') \<Rightarrow> Some (returning item_of r, s'))"
| "exec env (OpAppendLeft k v) s =
     (case DequeDict_appendleft env s k v of
        (r, s') \<Rightarrow> Some (returning (\<lambda>_. PyNone) r, s'))"
| "exec env (OpGet k default_val) s = Some (Inr (DequeDict_get s k default_val), s)"
| "exec env OpClear s =
     (case DequeDict_clear_method s of None \<Rightarrow> None | Some s' \<Rightarrow> Some (Inr PyNone, s'))"
| "exec env (OpSetDefault k v) s =
     (case DequeDict_setdefault env s k v of (r, s') \<Rightarrow> Some (returning Value r, s'))"
| "exec env (OpAt index) s =
     (case DequeDict_at env s index of
        None \<Rightarrow> None
      | Some (r, s') \<Rightarrow> Some (returning Value r, s'))"
| "exec env (OpMoveToEnd k last_arg) s =
     (case DequeDict_move_to_end s k last_arg of
        (r, s') \<Rightarrow> Some (returning (\<lambda>_. PyNone) r, s'))"
| "exec env OpIter s =
     (case list_iter s of None \<Rightarrow> None | Some xs \<Rightarrow> Some (Inr (PyList xs), s))"
| "exec env OpReversed s =
     (case list_reversed s of None \<Rightarrow> None | Some xs \<Rightarrow> Some (Inr (PyList xs), s))"
| "exec env (OpView kind reverse) s =
     (case list_view kind reverse s of None \<Rightarrow> None | Some xs \<Rightarrow> Some (Inr (PyList xs), s))"
| "exec env (OpRichCompare other op) s =
     (case DequeDict_richcompare s other op of
        None \<Rightarrow> None
      | Some r \<Rightarrow> Some (Inr (cmp_obj r), s))"

text \<open>
  A program is a list of calls, each with the allocator's answers during the call;
  it yields the list of results and the final state.
\<close>

fun run ::
  "(alloc_env \<times> ('k, 'v) operation) list \<Rightarrow> ('k, 'v) DequeDictObject
     \<Rightarrow> ((error + ('k, 'v) pyobj) list \<times> ('k, 'v) DequeDictObject) option" where
  "run [] s = Some ([], s)"
| "run ((env, op) # rest) s =
     (case exec env op s of
        None \<Rightarrow> None
      | Some (r, s') \<Rightarrow>
          (case run rest s' of
             None \<Rightarrow> None
           | Some (rs, s'') \<Rightarrow> Some (r # rs, s'')))"

section \<open>The variant without position cache\<close>

text \<open>
  The second source file of the repository is the same type without \<open>cache_idx\<close>,
  without the four cache fields and without \<^verbatim>\<open>at\<close>; its views have no
  \<^verbatim>\<open>__reversed__\<close>. Its definitions carry the suffix \<open>_nc\<close>.
\<close>

record ('k, 'v) DequeDictEntry_nc =
  entry_key_nc :: 'k
  entry_value_nc :: 'v
  entry_prev_nc :: "addr option"
  entry_next_nc :: "addr option"

record ('k, 'v) DequeDictObject_nc =
  mem_nc :: "addr \<Rightarrow> ('k, 'v) DequeDictEntry_nc"
  allocated_nc :: "addr set"
  freelist_nc :: "addr option"
  freelist_size_nc :: int
  dict_nc :: "'k \<rightharpoonup> addr"
  head_nc :: "addr option"
  tail_nc :: "addr option"
  dd_size_nc :: int

type_synonym ('k, 'v) outcome_nc = "(error + ('k, 'v) pyobj) \<times> ('k, 'v) DequeDictObject_nc"

definition entry_alloc_nc ::
  "alloc_env \<Rightarrow> ('k, 'v) DequeDictObject_nc \<Rightarrow> addr option \<times> ('k, 'v) DequeDictObject_nc" where
  "entry_alloc_nc env s =
     (case freelist_nc s of
        Some entry \<Rightarrow>
          (Some entry, s\<lparr>freelist_nc := entry_next_nc (mem_nc s entry),
                          freelist_size_nc := freelist_size_nc s - 1\<rparr>)
      | None \<Rightarrow>
          (case malloc_entry env of
             None \<Rightarrow> (None, s)
           | Some a \<Rightarrow> (Some a, s\<lparr>allocated_nc := insert a (allocated_nc s)\<rparr>)))"

definition entry_free_nc ::
  "addr \<Rightarrow> ('k, 'v) DequeDictObject_nc \<Rightarrow> ('k, 'v) DequeDictObject_nc" where
  "entry_free_nc entry s =
     (if freelist_size_nc s < FREELIST_MAX
      then s\<lparr>mem_nc := (mem_nc s)(entry := (mem_nc s entry)\<lparr>entry_next_nc := freelist_nc s\<rparr>),
             freelist_nc := Some entry,
             freelist_size_nc := freelist_size_nc s + 1\<rparr>
      else s\<lparr>allocated_nc := allocated_nc s - {entry}\<rparr>)"

definition unlink_from_list_nc ::
  "addr \<Rightarrow> ('k, 'v) DequeDictObject_nc \<Rightarrow> ('k, 'v) DequeDictObject_nc" where
  "unlink_from_list_nc entry s =
     (let s1 = (case entry_prev_nc (mem_nc s entry) of
                  Some p \<Rightarrow> s\<lparr>mem_nc := (mem_nc s)(p :=
                              (mem_nc s p)\<lparr>entry_next_nc := entry_next_nc (mem_nc s entry)\<rparr>)\<rparr>
                | None \<Rightarrow> s\<lparr>head_nc := entry_next_nc (mem_nc s entry)\<rparr>)
      in (case entry_next_nc (mem_nc s1 entry) of
            Some n \<Rightarrow> s1\<lparr>mem_nc := (mem_nc s1)(n :=
                        (mem_nc s1 n)\<lparr>entry_prev_nc := entry_prev_nc (mem_nc s1 entry)\<rparr>)\<rparr>
          | None \<Rightarrow> s1\<lparr>tail_nc := entry_prev_nc (mem_nc s1 entry)\<rparr>))"

definition unlink_head_nc ::
  "addr \<Rightarrow> ('k, 'v) DequeDictObject_nc \<Rightarrow> ('k, 'v) DequeDictObject_nc" where
  "unlink_head_nc entry s =
     (let s1 = s\<lparr>head_nc := entry_next_nc (mem_nc s entry)\<rparr>
      in (case head_nc s1 of
            Some h \<Rightarrow> s1\<lparr>mem_nc := (mem_nc s1)(h := (mem_nc s1 h)\<lparr>entry_prev_nc := None\<rparr>)\<rparr>
          | None \<Rightarrow> s1\<lparr>tail_nc := None\<rparr>))"

definition unlink_tail_nc ::
  "addr \<Rightarrow> ('k, 'v) DequeDictObject_nc \<Rightarrow> ('k, 'v) DequeDictObject_nc" where
  "unlink_tail_nc entry s =
     (let s1 = s\<lparr>tail_nc := entry_prev_nc (mem_nc s entry)\<rparr>
      in (case tail_nc s1 of
            Some t \<Rightarrow> s1\<lparr>mem_nc := (mem_nc s1)(t := (mem_nc s1 t)\<lparr>entry_next_nc := None\<rparr>)\<rparr>
          | None \<Rightarrow> s1\<lparr>head_nc := None\<rparr>))"

definition discard_entry_nc ::
  "addr \<Rightarrow> 'k \<Rightarrow> ('k, 'v) DequeDictObject_nc \<Rightarrow> ('k, 'v) DequeDictObject_nc" where
  "discard_entry_nc entry k s =
     (let s1 = s\<lparr>dict_nc := (dict_nc s)(k := None)\<rparr>;
          s2 = entry_free_nc entry s1
      in s2\<lparr>dd_size_nc := dd_size_nc s2 - 1\<rparr>)"

definition link_at_tail_nc ::
  "addr \<Rightarrow> 'k \<Rightarrow> 'v \<Rightarrow> ('k, 'v) DequeDictObject_nc \<Rightarrow> ('k, 'v) DequeDictObject_nc" where
  "link_at_tail_nc new_entry k v s =
     (let s1 = s\<lparr>mem_nc := (mem_nc s)(new_entry :=
                  \<lparr>entry_key_nc = k, entry_value_nc = v, entry_prev_nc = tail_nc s,
                   entry_next_nc = None\<rparr>)\<rparr>;
          s2 = (case tail_nc s1 of
                  Some t \<Rightarrow> s1\<lparr>mem_nc := (mem_nc s1)(t :=
                              (mem_nc s1 t)\<lparr>entry_next_nc := Some new_entry\<rparr>)\<rparr>
                | None \<Rightarrow> s1\<lparr>head_nc := Some new_entry\<rparr>)
      in s2\<lparr>tail_nc := Some new_entry, dd_size_nc := dd_size_nc s2 + 1\<rparr>)"

definition link_at_head_nc ::
  "addr \<Rightarrow> 'k \<Rightarrow> 'v \<Rightarrow> ('k, 'v) DequeDictObject_nc \<Rightarrow> ('k, 'v) DequeDictObject_nc" where
  "link_at_head_nc new_entry k v s =
     (let s1 = s\<lparr>mem_nc := (mem_nc s)(new_entry :=
                  \<lparr>entry_key_nc = k, entry_value_nc = v, entry_prev_nc = None,
                   entry_next_nc = head_nc s\<rparr>)\<rparr>;
          s2 = (case head_nc s1 of
                  Some h \<Rightarrow> s1\<lparr>mem_nc := (mem_nc s1)(h :=
                              (mem_nc s1 h)\<lparr>entry_prev_nc := Some new_entry\<rparr>)\<rparr>
                | None \<Rightarrow> s1\<lparr>tail_nc := Some new_entry\<rparr>)
      in s2\<lparr>head_nc := Some new_entry, dd_size_nc := dd_size_nc s2 + 1\<rparr>)"

definition store_capsule_nc ::
  "alloc_env \<Rightarrow> addr \<Rightarrow> 'k \<Rightarrow> ('k, 'v) DequeDictObject_nc
     \<Rightarrow> (error + unit) \<times> ('k, 'v) DequeDictObject_nc" where
  "store_capsule_nc env new_entry k s =
     (if \<not> capsule_ok env then (Inl MemoryError, entry_free_nc new_entry s)
      else if \<not> dict_set_ok env then (Inl MemoryError, entry_free_nc new_entry s)
      else (Inr (), s\<lparr>dict_nc := (dict_nc s)(k \<mapsto> new_entry)\<rparr>))"

definition DequeDict_len_nc :: "('k, 'v) DequeDictObject_nc \<Rightarrow> int" where
  "DequeDict_len_nc s = dd_size_nc s"

definition DequeDict_getitem_nc :: "('k, 'v) DequeDictObject_nc \<Rightarrow> 'k \<Rightarrow> error + 'v" where
  "DequeDict_getitem_nc s k =
     (case dict_nc s k of
        None \<Rightarrow> Inl KeyError
      | Some entry \<Rightarrow> Inr (entry_value_nc (mem_nc s entry)))"

definition DequeDict_setitem_nc ::
  "alloc_env \<Rightarrow> ('k, 'v) DequeDictObject_nc \<Rightarrow> 'k \<Rightarrow> 'v option
     \<Rightarrow> (error + unit) \<times> ('k, 'v) DequeDictObject_nc" where
  "DequeDict_setitem_nc env s k val =
     (case val of
        None \<Rightarrow>
          (case dict_nc s k of
             None \<Rightarrow> (Inl KeyError, s)
           | Some entry \<Rightarrow>
               (Inr (), discard_entry_nc entry k (unlink_from_list_nc entry s)))
      | Some v \<Rightarrow>
          (case dict_nc s k of
             Some entry \<Rightarrow>
               (Inr (), s\<lparr>mem_nc := (mem_nc s)(entry :=
                             (mem_nc s entry)\<lparr>entry_value_nc := v\<rparr>)\<rparr>)
           | None \<Rightarrow>
               (case entry_alloc_nc env s of
                  (None, s1) \<Rightarrow> (Inl MemoryError, s1)
                | (Some new_entry, s1) \<Rightarrow>
                    store_capsule_nc env new_entry k (link_at_tail_nc new_entry k v s1))))"

definition DequeDict_contains_nc :: "('k, 'v) DequeDictObject_nc \<Rightarrow> 'k \<Rightarrow> bool" where
  "DequeDict_contains_nc s k = (dict_nc s k \<noteq> None)"

definition DequeDict_peekleft_nc :: "('k, 'v) DequeDictObject_nc \<Rightarrow> error + 'v" where
  "DequeDict_peekleft_nc s =
     (case head_nc s of None \<Rightarrow> Inl IndexError | Some h \<Rightarrow> Inr (entry_value_nc (mem_nc s h)))"

definition DequeDict_peekleftitem_nc :: "('k, 'v) DequeDictObject_nc \<Rightarrow> error + 'k \<times> 'v" where
  "DequeDict_peekleftitem_nc s =
     (case head_nc s of
        None \<Rightarrow> Inl IndexError
      | Some h \<Rightarrow> Inr (entry_key_nc (mem_nc s h), entry_value_nc (mem_nc s h)))"

definition DequeDict_peekleftkey_nc :: "('k, 'v) DequeDictObject_nc \<Rightarrow> error + 'k" where
  "DequeDict_peekleftkey_nc s =
     (case head_nc s of None \<Rightarrow> Inl IndexError | Some h \<Rightarrow> Inr (entry_key_nc (mem_nc s h)))"

definition DequeDict_peek_nc :: "('k, 'v) DequeDictObject_nc \<Rightarrow> error + 'v" where
  "DequeDict_peek_nc s =
     (case tail_nc s of None \<Rightarrow> Inl IndexError | Some t \<Rightarrow> Inr (entry_value_nc (mem_nc s t)))"

definition DequeDict_peekitem_nc :: "('k, 'v) DequeDictObject_nc \<Rightarrow> error + 'k \<times> 'v" where
  "DequeDict_peekitem_nc s =
     (case tail_nc s of
        None \<Rightarrow> Inl IndexError
      | Some t \<Rightarrow> Inr (entry_key_nc (mem_nc s t), entry_value_nc (mem_nc s t)))"

definition DequeDict_popleft_nc ::
  "('k, 'v) DequeDictObject_nc \<Rightarrow> (error + 'v) \<times> ('k, 'v) DequeDictObject_nc" where
  "DequeDict_popleft_nc s =
     (case head_nc s of
        None \<Rightarrow> (Inl IndexError, s)
      | Some entry \<Rightarrow>
          (let v = entry_value_nc (mem_nc s entry);
               s1 = unlink_head_nc entry s;
               s2 = discard_entry_nc entry (entry_key_nc (mem_nc s1 entry)) s1
           in (Inr v, s2)))"

definition DequeDict_popleftitem_nc ::
  "('k, 'v) DequeDictObject_nc \<Rightarrow> (error + 'k \<times> 'v) \<times> ('k, 'v) DequeDictObject_nc" where
  "DequeDict_popleftitem_nc s =
     (case head_nc s of
        None \<Rightarrow> (Inl KeyError, s)
      | Some entry \<Rightarrow>
          (let k = entry_key_nc (mem_nc s entry);
               v = entry_value_nc (mem_nc s entry);
               s1 = unlink_head_nc entry s;
               s2 = discard_entry_nc entry k s1
           in (Inr (k, v), s2)))"

definition DequeDict_pop_nc ::
  "('k, 'v) DequeDictObject_nc \<Rightarrow> 'k option \<Rightarrow> ('k, 'v) pyobj option
     \<Rightarrow> ('k, 'v) outcome_nc" where
  "DequeDict_pop_nc s key default_val =
     (case key of
        None \<Rightarrow>
          (case tail_nc s of
             None \<Rightarrow>
               (case default_val of
                  Some d \<Rightarrow> (Inr d, s)
                | None \<Rightarrow> (Inl IndexError, s))
           | Some entry \<Rightarrow>
               (let v = entry_value_nc (mem_nc s entry);
                    s1 = unlink_tail_nc entry s;
                    s2 = discard_entry_nc entry (entry_key_nc (mem_nc s1 entry)) s1
                in (Inr (Value v), s2)))
      | Some k \<Rightarrow>
          (case dict_nc s k of
             None \<Rightarrow>
               (case default_val of
                  Some d \<Rightarrow> (Inr d, s)
                | None \<Rightarrow> (Inl KeyError, s))
           | Some entry \<Rightarrow>
               (let v = entry_value_nc (mem_nc s entry);
                    s1 = unlink_from_list_nc entry s;
                    s2 = discard_entry_nc entry k s1
                in (Inr (Value v), s2))))"

definition DequeDict_popitem_nc ::
  "('k, 'v) DequeDictObject_nc \<Rightarrow> (error + 'k \<times> 'v) \<times> ('k, 'v) DequeDictObject_nc" where
  "DequeDict_popitem_nc s =
     (case tail_nc s of
        None \<Rightarrow> (Inl KeyError, s)
      | Some entry \<Rightarrow>
          (let k = entry_key_nc (mem_nc s entry);
               v = entry_value_nc (mem_nc s entry);
               s1 = unlink_tail_nc entry s;
               s2 = discard_entry_nc entry k s1
           in (Inr (k, v), s2)))"

definition DequeDict_appendleft_nc ::
  "alloc_env \<Rightarrow> ('k, 'v) DequeDictObject_nc \<Rightarrow> 'k \<Rightarrow> 'v
     \<Rightarrow> (error + unit) \<times> ('k, 'v) DequeDictObject_nc" where
  "DequeDict_appendleft_nc env s k v =
     (if dict_nc s k \<noteq> None then (Inl KeyError, s)
      else
        (case entry_alloc_nc env s of
           (None, s1) \<Rightarrow> (Inl MemoryError, s1)
         | (Some new_entry, s1) \<Rightarrow>
             store_capsule_nc env new_entry k (link_at_head_nc new_entry k v s1)))"

definition DequeDict_get_nc ::
  "('k, 'v) DequeDictObject_nc \<Rightarrow> 'k \<Rightarrow> ('k, 'v) pyobj \<Rightarrow> ('k, 'v) pyobj" where
  "DequeDict_get_nc s k default_val =
     (case dict_nc s k of
        None \<Rightarrow> default_val
      | Some entry \<Rightarrow> Value (entry_value_nc (mem_nc s entry)))"

partial_function (option) clear_loop_nc ::
  "('k, 'v) DequeDictObject_nc \<Rightarrow> addr option \<Rightarrow> ('k, 'v) DequeDictObject_nc option" where
  "clear_loop_nc s entry =
     (case entry of
        None \<Rightarrow> Some s
      | Some e \<Rightarrow> clear_loop_nc (entry_free_nc e s) (entry_next_nc (mem_nc s e)))"

definition DequeDict_clear_method_nc ::
  "('k, 'v) DequeDictObject_nc \<Rightarrow> ('k, 'v) DequeDictObject_nc option" where
  "DequeDict_clear_method_nc s =
     (case clear_loop_nc s (head_nc s) of
        None \<Rightarrow> None
      | Some s1 \<Rightarrow>
          Some (s1\<lparr>dict_nc := Map.empty, head_nc := None, tail_nc := None, dd_size_nc := 0\<rparr>))"

definition DequeDict_setdefault_nc ::
  "alloc_env \<Rightarrow> ('k, 'v) DequeDictObject_nc \<Rightarrow> 'k \<Rightarrow> 'v
     \<Rightarrow> (error + 'v) \<times> ('k, 'v) DequeDictObject_nc" where
  "DequeDict_setdefault_nc env s k default_val =
     (case dict_nc s k of
        Some entry \<Rightarrow> (Inr (entry_value_nc (mem_nc s entry)), s)
      | None \<Rightarrow>
          (case DequeDict_setitem_nc env s k (Some default_val) of
             (Inl e, s1) \<Rightarrow> (Inl e, s1)
           | (Inr _, s1) \<Rightarrow> (Inr default_val, s1)))"

definition relink_at_tail_nc ::
  "addr \<Rightarrow> ('k, 'v) DequeDictObject_nc \<Rightarrow> ('k, 'v) DequeDictObject_nc" where
  "relink_at_tail_nc entry s =
     (let s1 = s\<lparr>mem_nc := (mem_nc s)(entry :=
                  (mem_nc s entry)\<lparr>entry_prev_nc := tail_nc s, entry_next_nc := None\<rparr>)\<rparr>;
          s2 = (case tail_nc s1 of
                  Some t \<Rightarrow> s1\<lparr>mem_nc := (mem_nc s1)(t := (mem_nc s1 t)\<lparr>entry_next_nc := Some entry\<rparr>)\<rparr>
                | None \<Rightarrow> s1\<lparr>head_nc := Some entry\<rparr>)
      in s2\<lparr>tail_nc := Some entry\<rparr>)"

definition relink_at_head_nc ::
  "addr \<Rightarrow> ('k, 'v) DequeDictObject_nc \<Rightarrow> ('k, 'v) DequeDictObject_nc" where
  "relink_at_head_nc entry s =
     (let s1 = s\<lparr>mem_nc := (mem_nc s)(entry :=
                  (mem_nc s entry)\<lparr>entry_prev_nc := None, entry_next_nc := head_nc s\<rparr>)\<rparr>;
          s2 = (case head_nc s1 of
                  Some h \<Rightarrow> s1\<lparr>mem_nc := (mem_nc s1)(h := (mem_nc s1 h)\<lparr>entry_prev_nc := Some entry\<rparr>)\<rparr>
                | None \<Rightarrow> s1\<lparr>tail_nc := Some entry\<rparr>)
      in s2\<lparr>head_nc := Some entry\<rparr>)"

definition DequeDict_move_to_end_nc ::
  "('k, 'v) DequeDictObject_nc \<Rightarrow> 'k \<Rightarrow> bool
     \<Rightarrow> (error + unit) \<times> ('k, 'v) DequeDictObject_nc" where
  "DequeDict_move_to_end_nc s k last_arg =
     (case dict_nc s k of
        None \<Rightarrow> (Inl KeyError, s)
      | Some entry \<Rightarrow>
          if (last_arg \<and> Some entry = tail_nc s) \<or> (\<not> last_arg \<and> Some entry = head_nc s)
          then (Inr (), s)
          else
            let s1 = unlink_from_list_nc entry s in
            if last_arg then (Inr (), relink_at_tail_nc entry s1)
            else (Inr (), relink_at_head_nc entry s1))"

definition DequeDictIter_next_nc ::
  "(addr \<Rightarrow> ('k, 'v) DequeDictEntry_nc) \<Rightarrow> addr option
     \<Rightarrow> (('k, 'v) pyobj \<times> addr option) option" where
  "DequeDictIter_next_nc m current =
     (case current of
        None \<Rightarrow> None
      | Some c \<Rightarrow> Some (Key (entry_key_nc (m c)), entry_next_nc (m c)))"

definition DequeDictRevIter_next_nc ::
  "(addr \<Rightarrow> ('k, 'v) DequeDictEntry_nc) \<Rightarrow> addr option
     \<Rightarrow> (('k, 'v) pyobj \<times> addr option) option" where
  "DequeDictRevIter_next_nc m current =
     (case current of
        None \<Rightarrow> None
      | Some c \<Rightarrow> Some (Key (entry_key_nc (m c)), entry_prev_nc (m c)))"

definition DequeDictViewIter_next_nc ::
  "int \<Rightarrow> (addr \<Rightarrow> ('k, 'v) DequeDictEntry_nc) \<Rightarrow> addr option
     \<Rightarrow> (('k, 'v) pyobj \<times> addr option) option" where
  "DequeDictViewIter_next_nc kind m current =
     (case current of
        None \<Rightarrow> None
      | Some c \<Rightarrow>
          Some (if kind = 0 then Key (entry_key_nc (m c))
                else if kind = 1 then Value (entry_value_nc (m c))
                else Item (entry_key_nc (m c)) (entry_value_nc (m c)),
                entry_next_nc (m c)))"

definition list_iter_nc :: "('k, 'v) DequeDictObject_nc \<Rightarrow> ('k, 'v) pyobj list option" where
  "list_iter_nc s = collect (DequeDictIter_next_nc (mem_nc s)) (head_nc s)"

definition list_reversed_nc :: "('k, 'v) DequeDictObject_nc \<Rightarrow> ('k, 'v) pyobj list option" where
  "list_reversed_nc s = collect (DequeDictRevIter_next_nc (mem_nc s)) (tail_nc s)"

definition list_view_nc ::
  "int \<Rightarrow> ('k, 'v) DequeDictObject_nc \<Rightarrow> ('k, 'v) pyobj list option" where
  "list_view_nc kind s = collect (DequeDictViewIter_next_nc kind (mem_nc s)) (head_nc s)"

partial_function (option) compare_loop_nc ::
  "(addr \<Rightarrow> ('k, 'v) DequeDictEntry_nc) \<Rightarrow> ('k \<rightharpoonup> 'v) \<Rightarrow> addr option \<Rightarrow> bool option" where
  "compare_loop_nc m other entry =
     (case entry of
        None \<Rightarrow> Some True
      | Some e \<Rightarrow>
          (case other (entry_key_nc (m e)) of
             None \<Rightarrow> Some False
           | Some other_val \<Rightarrow>
               if entry_value_nc (m e) = other_val
               then compare_loop_nc m other (entry_next_nc (m e))
               else Some False))"

definition DequeDict_richcompare_nc ::
  "('k, 'v) DequeDictObject_nc \<Rightarrow> ('k, 'v) other_obj \<Rightarrow> cmp_op \<Rightarrow> cmp_result option" where
  "DequeDict_richcompare_nc s other op =
     (if op \<noteq> Py_EQ \<and> op \<noteq> Py_NE then Some NotImplemented
      else
        (case other of
           NotMapping \<Rightarrow> Some (if op = Py_EQ then Py_False else Py_True)
         | Mapping other_len getitem \<Rightarrow>
             if other_len = - 1 then Some NotImplemented
             else if dd_size_nc s \<noteq> other_len
             then Some (if op = Py_EQ then Py_False else Py_True)
             else
               (case compare_loop_nc (mem_nc s) getitem (head_nc s) of
                  None \<Rightarrow> None
                | Some True \<Rightarrow> Some (if op = Py_EQ then Py_True else Py_False)
                | Some False \<Rightarrow> Some (if op = Py_EQ then Py_False else Py_True))))"

definition DequeDict_new_nc ::
  "(addr \<Rightarrow> ('k, 'v) DequeDictEntry_nc) \<Rightarrow> ('k, 'v) DequeDictObject_nc" where
  "DequeDict_new_nc m =
     \<lparr>mem_nc = m, allocated_nc = {}, freelist_nc = None, freelist_size_nc = 0,
      dict_nc = Map.empty, head_nc = None, tail_nc = None, dd_size_nc = 0\<rparr>"

text \<open>\<^verbatim>\<open>DequeDict_init\<close> of this variant, with the same two loops.\<close>

fun init_from_dict_nc ::
  "(alloc_env \<times> 'k \<times> 'v) list \<Rightarrow> ('k, 'v) DequeDictObject_nc
     \<Rightarrow> (error + unit) \<times> ('k, 'v) DequeDictObject_nc" where
  "init_from_dict_nc [] s = (Inr (), s)"
| "init_from_dict_nc ((env, k, v) # rest) s =
     (case entry_alloc_nc env s of
        (None, s1) \<Rightarrow> (Inl MemoryError, s1)
      | (Some new_entry, s1) \<Rightarrow>
          (case store_capsule_nc env new_entry k (link_at_tail_nc new_entry k v s1) of
             (Inl e, s2) \<Rightarrow> (Inl e, s2)
           | (Inr _, s2) \<Rightarrow> init_from_dict_nc rest s2))"

fun init_from_iterable_nc ::
  "(alloc_env \<times> ('k, 'v) pyitem) list \<Rightarrow> ('k, 'v) DequeDictObject_nc
     \<Rightarrow> (error + unit) \<times> ('k, 'v) DequeDictObject_nc" where
  "init_from_iterable_nc [] s = (Inr (), s)"
| "init_from_iterable_nc ((env, NotPair) # rest) s = (Inl ValueError, s)"
| "init_from_iterable_nc ((env, PyPair k v) # rest) s =
     (case entry_alloc_nc env s of
        (None, s1) \<Rightarrow> (Inl MemoryError, s1)
      | (Some new_entry, s1) \<Rightarrow>
          (case store_capsule_nc env new_entry k (link_at_tail_nc new_entry k v s1) of
             (Inl e, s2) \<Rightarrow> (Inl e, s2)
           | (Inr _, s2) \<Rightarrow> init_from_iterable_nc rest s2))"

definition DequeDict_init_nc ::
  "bool \<Rightarrow> ('k, 'v) DequeDictObject_nc \<Rightarrow> ('k, 'v) init_items
     \<Rightarrow> ((error + unit) \<times> ('k, 'v) DequeDictObject_nc) option" where
  "DequeDict_init_nc dict_new_ok s items =
     (case clear_loop_nc s (head_nc s) of
        None \<Rightarrow> None
      | Some s1 \<Rightarrow>
          let s2 = s1\<lparr>dict_nc := Map.empty\<rparr> in
          if \<not> dict_new_ok then Some (Inl MemoryError, s2)
          else
            let s3 = s2\<lparr>head_nc := None, tail_nc := None, dd_size_nc := 0\<rparr> in
            Some (case items of
                    NoItems \<Rightarrow> (Inr (), s3)
                  | FromDict kvs \<Rightarrow> init_from_dict_nc kvs s3
                  | FromIterable xs \<Rightarrow> init_from_iterable_nc xs s3))"

text \<open>\<^verbatim>\<open>DequeDict_update\<close> of this variant.\<close>

fun update_from_dict_nc ::
  "(alloc_env \<times> 'k \<times> 'v) list \<Rightarrow> ('k, 'v) DequeDictObject_nc
     \<Rightarrow> (error + unit) \<times> ('k, 'v) DequeDictObject_nc" where
  "update_from_dict_nc [] s = (Inr (), s)"
| "update_from_dict_nc ((env, k, v) # rest) s =
     (case DequeDict_setitem_nc env s k (Some v) of
        (Inl e, s1) \<Rightarrow> (Inl e, s1)
      | (Inr _, s1) \<Rightarrow> update_from_dict_nc rest s1)"

fun update_from_iterable_nc ::
  "(alloc_env \<times> ('k, 'v) pyitem) list \<Rightarrow> ('k, 'v) DequeDictObject_nc
     \<Rightarrow> (error + unit) \<times> ('k, 'v) DequeDictObject_nc" where
  "update_from_iterable_nc [] s = (Inr (), s)"
| "update_from_iterable_nc ((env, NotPair) # rest) s = (Inl ValueError, s)"
| "update_from_iterable_nc ((env, PyPair k v) # rest) s =
     (case DequeDict_setitem_nc env s k (Some v) of
        (Inl e, s1) \<Rightarrow> (Inl e, s1)
      | (Inr _, s1) \<Rightarrow> update_from_iterable_nc rest s1)"

definition DequeDict_update_nc ::
  "('k, 'v) DequeDictObject_nc \<Rightarrow> ('k, 'v) init_items \<Rightarrow> (alloc_env \<times> 'k \<times> 'v) list
     \<Rightarrow> (error + unit) \<times> ('k, 'v) DequeDictObject_nc" where
  "DequeDict_update_nc s other kwds =
     (case (case other of
              NoItems \<Rightarrow> (Inr (), s)
            | FromDict kvs \<Rightarrow> update_from_dict_nc kvs s
            | FromIterable xs \<Rightarrow> update_from_iterable_nc xs s) of
        (Inl e, s1) \<Rightarrow> (Inl e, s1)
      | (Inr _, s1) \<Rightarrow> update_from_dict_nc kwds s1)"

text \<open>
  The calls on this variant. It has no method \<^verbatim>\<open>at\<close> (the attribute lookup raises
  \<^verbatim>\<open>AttributeError\<close>) and its views are not reversible (\<^verbatim>\<open>reversed\<close> raises
  \<^verbatim>\<open>TypeError\<close>).
\<close>

fun exec_nc ::
  "alloc_env \<Rightarrow> ('k, 'v) operation \<Rightarrow> ('k, 'v) DequeDictObject_nc
     \<Rightarrow> ('k, 'v) outcome_nc option" where
  "exec_nc env OpLen s = Some (Inr (PyInt (DequeDict_len_nc s)), s)"
| "exec_nc env (OpGetItem k) s = Some (returning Value (DequeDict_getitem_nc s k), s)"
| "exec_nc env (OpSetItem k v) s =
     (case DequeDict_setitem_nc env s k (Some v) of
        (r, s') \<Rightarrow> Some (returning (\<lambda>_. PyNone) r, s'))"
| "exec_nc env (OpDelItem k) s =
     (case DequeDict_setitem_nc env s k None of
        (r, s') \<Rightarrow> Some (returning (\<lambda>_. PyNone) r, s'))"
| "exec_nc env (OpContains k) s = Some (Inr (PyBool (DequeDict_contains_nc s k)), s)"
| "exec_nc env OpPeekLeft s = Some (returning Value (DequeDict_peekleft_nc s), s)"
| "exec_nc env OpPeekLeftItem s = Some (returning item_of (DequeDict_peekleftitem_nc s), s)"
| "exec_nc env OpPeekLeftKey s = Some (returning Key (DequeDict_peekleftkey_nc s), s)"
| "exec_nc env OpPeek s = Some (returning Value (DequeDict_peek_nc s), s)"
| "exec_nc env OpPeekItem s = Some (returning item_of (DequeDict_peekitem_nc s), s)"
| "exec_nc env OpPopLeft s =
     (case DequeDict_popleft_nc s of (r, s') \<Rightarrow> Some (returning Value r, s'))"
| "exec_nc env OpPopLeftItem s =
     (case DequeDict_popleftitem_nc s of (r, s') \<Rightarrow> Some (returning item_of r, s'))"
| "exec_nc env (OpPop key default_val) s = Some (DequeDict_pop_nc s key default_val)"
| "exec_nc env OpPopItem s =
     (case DequeDict_popitem_nc s of (r, s') \<Rightarrow> Some (returning item_of r, s'))"
| "exec_nc env (OpAppendLeft k v) s =
     (case DequeDict_appendleft_nc env s k v of
        (r, s') \<Rightarrow> Some (returning (\<lambda>_. PyNone) r, s'))"
| "exec_nc env (OpGet k default_val) s = Some (Inr (DequeDict_get_nc s k default_val), s)"
| "exec_nc env OpClear s =
     (case DequeDict_clear_method_nc s of None \<Rightarrow> None | Some s' \<Rightarrow> Some (Inr PyNone, s'))"
| "exec_nc env (OpSetDefault k v) s =
     (case DequeDict_setdefault_nc env s k v of (r, s') \<Rightarrow> Some (returning Value r, s'))"
| "exec_nc env (OpAt index) s = Some (Inl AttributeError, s)"
| "exec_nc env (OpMoveToEnd k last_arg) s =
     (case DequeDict_move_to_end_nc s k last_arg of
        (r, s') \<Rightarrow> Some (returning (\<lambda>_. PyNone) r, s'))"
| "exec_nc env OpIter s =
     (case list_iter_nc s of None \<Rightarrow> None | Some xs \<Rightarrow> Some (Inr (PyList xs), s))"
| "exec_nc env OpReversed s =
     (case list_reversed_nc s of None \<Rightarrow> None | Some xs \<Rightarrow> Some (Inr (PyList xs), s))"
| "exec_nc env (OpView kind reverse) s =
     (if reverse then Some (Inl TypeError, s)
      else (case list_view_nc kind s of
              None \<Rightarrow> None
            | Some xs \<Rightarrow> Some (Inr (PyList xs), s)))"
| "exec_nc env (OpRichCompare other op) s =
     (case DequeDict_richcompare_nc s other op of
        None \<Rightarrow> None
      | Some r \<Rightarrow> Some (Inr (cmp_obj r), s))"

fun run_nc ::
  "(alloc_env \<times> ('k, 'v) operation) list \<Rightarrow> ('k, 'v) DequeDictObject_nc
     \<Rightarrow> ((error + ('k, 'v) pyobj) list \<times> ('k, 'v) DequeDictObject_nc) option" where
  "run_nc [] s = Some ([], s)"
| "run_nc ((env, op) # rest) s =
     (case exec_nc env op s of
        None \<Rightarrow> None
      | Some (r, s') \<Rightarrow>
          (case run_nc rest s' of
             None \<Rightarrow> None
           | Some (rs, s'') \<Rightarrow> Some (r # rs, s'')))"

text \<open>The calls both variants offer.\<close>

fun shared_op :: "('k, 'v) operation \<Rightarrow> bool" where
  "shared_op (OpAt index) = False"
| "shared_op (OpView kind reverse) = (\<not> reverse)"
| "shared_op _ = True"

section \<open>Concrete states and allocator answers\<close>

text \<open>
  A memory for string keys and integer values whose blocks hold nothing of interest,
  and the allocator answers used in the examples: every allocation succeeds and
  \<^verbatim>\<open>PyMem_Malloc\<close> returns the block \<open>a\<close>; or the capsule cannot be created; or
  the cache array cannot be allocated.
\<close>

definition blank_mem :: "addr \<Rightarrow> (string, int) DequeDictEntry" where
  "blank_mem = (\<lambda>_. \<lparr>entry_key = [], entry_value = 0, entry_prev = None,
                       entry_next = None, entry_cache_idx = 0\<rparr>)"

definition blank_mem_nc :: "addr \<Rightarrow> (string, int) DequeDictEntry_nc" where
  "blank_mem_nc = (\<lambda>_. \<lparr>entry_key_nc = [], entry_value_nc = 0, entry_prev_nc = None,
                          entry_next_nc = None\<rparr>)"

definition all_ok :: "addr \<Rightarrow> alloc_env" where
  "all_ok a = \<lparr>malloc_entry = Some a, capsule_ok = True, dict_set_ok = True,
               cache_alloc_ok = True\<rparr>"

definition no_capsule :: "addr \<Rightarrow> alloc_env" where
  "no_capsule a = \<lparr>malloc_entry = Some a, capsule_ok = False, dict_set_ok = True,
                   cache_alloc_ok = True\<rparr>"

definition no_cache_memory :: "addr \<Rightarrow> alloc_env" where
  "no_cache_memory a = \<lparr>malloc_entry = Some a, capsule_ok = True, dict_set_ok = True,
                        cache_alloc_ok = False\<rparr>"

text \<open>
  Three assignments, a positional read that builds the cache, a removal at each end
  and a fourth assignment, which takes its entry from the free list.
\<close>

definition mixed_run :: "(alloc_env \<times> (string, int) operation) list" where
  "mixed_run =
     [(all_ok 1, OpSetItem ''a'' 1), (all_ok 2, OpSetItem ''b'' 2),
      (all_ok 3, OpSetItem ''c'' 3), (all_ok 4, OpAt 0), (all_ok 4, OpPopLeft),
      (all_ok 4, OpPop None None), (all_ok 4, OpSetItem ''d'' 4)]"

text \<open>
  The container holding \<open>a, b, c\<close> in this order with the values 1, 2, 3, as three
  assignments to the empty container build it (the entries are the blocks 1, 2, 3), and
  the same container after a positional read has built the cache.
\<close>

definition abc_entries :: "addr \<Rightarrow> (string, int) DequeDictEntry" where
  "abc_entries = blank_mem
     (1 := \<lparr>entry_key = ''a'', entry_value = 1, entry_prev = None, entry_next = Some 2,
            entry_cache_idx = - 1\<rparr>,
      2 := \<lparr>entry_key = ''b'', entry_value = 2, entry_prev = Some 1, entry_next = Some 3,
            entry_cache_idx = - 1\<rparr>,
      3 := \<lparr>entry_key = ''c'', entry_value = 3, entry_prev = Some 2, entry_next = None,
            entry_cache_idx = - 1\<rparr>)"

definition abc_state :: "(string, int) DequeDictObject" where
  "abc_state =
     \<lparr>mem = abc_entries, allocated = {1, 2, 3}, freelist = None, freelist_size = 0,
      dict = [''a'' \<mapsto> 1, ''b'' \<mapsto> 2, ''c'' \<mapsto> 3], head = Some 1, tail = Some 3,
      dd_size = 3, index_cache = None, cache_size = 0, cache_capacity = 0,
      cache_offset = 0\<rparr>"

definition abc_entries_cached :: "addr \<Rightarrow> (string, int) DequeDictEntry" where
  "abc_entries_cached = blank_mem
     (1 := \<lparr>entry_key = ''a'', entry_value = 1, entry_prev = None, entry_next = Some 2,
            entry_cache_idx = 0\<rparr>,
      2 := \<lparr>entry_key = ''b'', entry_value = 2, entry_prev = Some 1, entry_next = Some 3,
            entry_cache_idx = 1\<rparr>,
      3 := \<lparr>entry_key = ''c'', entry_value = 3, entry_prev = Some 2, entry_next = None,
            entry_cache_idx = 2\<rparr>)"

definition abc_cached :: "(string, int) DequeDictObject" where
  "abc_cached =
     \<lparr>mem = abc_entries_cached, allocated = {1, 2, 3}, freelist = None, freelist_size = 0,
      dict = [''a'' \<mapsto> 1, ''b'' \<mapsto> 2, ''c'' \<mapsto> 3], head = Some 1, tail = Some 3,
      dd_size = 3, index_cache = Some [1, 2, 3], cache_size = 3, cache_capacity = 3,
      cache_offset = 0\<rparr>"

definition abc_run :: "(alloc_env \<times> (string, int) operation) list" where
  "abc_run =
     [(all_ok 1, OpSetItem ''a'' 1), (all_ok 2, OpSetItem ''b'' 2),
      (all_ok 3, OpSetItem ''c'' 3)]"

text \<open>
  The containers built from \<open>x = 1, y = 2\<close> in this and in the opposite order.
\<close>

definition xy_state :: "(string, int) DequeDictObject" where
  "xy_state =
     \<lparr>mem = blank_mem
        (1 := \<lparr>entry_key = ''x'', entry_value = 1, entry_prev = None, entry_next = Some 2,
               entry_cache_idx = - 1\<rparr>,
         2 := \<lparr>entry_key = ''y'', entry_value = 2, entry_prev = Some 1, entry_next = None,
               entry_cache_idx = - 1\<rparr>),
      allocated = {1, 2}, freelist = None, freelist_size = 0,
      dict = [''x'' \<mapsto> 1, ''y'' \<mapsto> 2], head = Some 1, tail = Some 2,
      dd_size = 2, index_cache = None, cache_size = 0, cache_capacity = 0,
      cache_offset = 0\<rparr>"

definition yx_state :: "(string, int) DequeDictObject" where
  "yx_state =
     \<lparr>mem = blank_mem
        (1 := \<lparr>entry_key = ''y'', entry_value = 2, entry_prev = None, entry_next = Some 2,
               entry_cache_idx = - 1\<rparr>,
         2 := \<lparr>entry_key = ''x'', entry_value = 1, entry_prev = Some 1, entry_next = None,
               entry_cache_idx = - 1\<rparr>),
      allocated = {1, 2}, freelist = None, freelist_size = 0,
      dict = [''y'' \<mapsto> 1, ''x'' \<mapsto> 2], head = Some 1, tail = Some 2,
      dd_size = 2, index_cache = None, cache_size = 0, cache_capacity = 0,
      cache_offset = 0\<rparr>"

text \<open>
  Two runs with an insertion whose capsule cannot be created: on the empty container,
  followed by an insertion that succeeds and a positional read; and on the container
  \<open>a, b, c\<close> with its cache, followed by an insertion that succeeds.
\<close>

definition failed_first_insert_run :: "(alloc_env \<times> (string, int) operation) list" where
  "failed_first_insert_run =
     [(no_capsule 1, OpSetItem ''a'' 1), (all_ok 2, OpSetItem ''b'' 2), (all_ok 3, OpAt 0)]"

definition failed_insert_run :: "(alloc_env \<times> (string, int) operation) list" where
  "failed_insert_run = [(no_capsule 4, OpSetItem ''d'' 4), (all_ok 5, OpSetItem ''e'' 5)]"

text \<open>
  The argument of \<^verbatim>\<open>DequeDict([("a", 1), ("a", 2)])\<close> and of
  \<^verbatim>\<open>DequeDict({"x": 1, "y": 2})\<close>, with an allocator that succeeds.
\<close>

definition duplicate_pairs :: "(string, int) init_items" where
  "duplicate_pairs = FromIterable [(all_ok 1, PyPair ''a'' 1), (all_ok 2, PyPair ''a'' 2)]"

definition xy_dict :: "(string, int) init_items" where
  "xy_dict = FromDict [(all_ok 1, ''x'', 1), (all_ok 2, ''y'', 2)]"

text \<open>
  A run over the interface that both variants offer: removals at both ends, a lookup
  that fails, two insertions, a move, iteration and a comparison.
\<close>

definition shared_example_run :: "(alloc_env \<times> (string, int) operation) list" where
  "shared_example_run =
     [(all_ok 4, OpPopLeft), (all_ok 4, OpSetItem ''d'' 4), (all_ok 5, OpGetItem ''z''),
      (all_ok 5, OpPop None None), (all_ok 5, OpAppendLeft ''e'' 5),
      (all_ok 6, OpMoveToEnd ''b'' True), (all_ok 6, OpView 2 False),
      (all_ok 6, OpRichCompare (plain_dict [''b'' \<mapsto> 2, ''c'' \<mapsto> 3, ''e'' \<mapsto> 5]) Py_EQ)]"

section \<open>Well-formed states\<close>

text \<open>
  \<open>path h c as e\<close>: following the pointer field \<open>h\<close> from \<open>c\<close> visits exactly the
  addresses \<open>as\<close>, in this order, and then reaches \<open>e\<close>.
\<close>

fun path :: "(addr \<Rightarrow> addr option) \<Rightarrow> addr option \<Rightarrow> addr list \<Rightarrow> addr option \<Rightarrow> bool" where
  "path h c [] e = (c = e)"
| "path h c (a # as) e = (c = Some a \<and> path h (h a) as e)"

definition nexts :: "(addr \<Rightarrow> ('k, 'v) DequeDictEntry) \<Rightarrow> addr \<Rightarrow> addr option" where
  "nexts m = (\<lambda>a. entry_next (m a))"

definition prevs :: "(addr \<Rightarrow> ('k, 'v) DequeDictEntry) \<Rightarrow> addr \<Rightarrow> addr option" where
  "prevs m = (\<lambda>a. entry_prev (m a))"

text \<open>
  The linked list: \<open>next\<close> leads from \<open>head\<close> through the live entries \<open>as\<close> to
  \<^verbatim>\<open>NULL\<close>, \<open>prev\<close> leads from \<open>tail\<close> through them backwards, no entry occurs
  twice.
\<close>

definition links_inv :: "('k, 'v) DequeDictObject \<Rightarrow> addr list \<Rightarrow> bool" where
  "links_inv s as \<longleftrightarrow>
     path (nexts (mem s)) (head s) as None \<and>
     path (prevs (mem s)) (tail s) (rev as) None \<and>
     distinct as"

text \<open>The key index and the list hold the same keys, each key once.\<close>

definition dict_inv :: "('k, 'v) DequeDictObject \<Rightarrow> addr list \<Rightarrow> bool" where
  "dict_inv s as \<longleftrightarrow>
     (\<forall>a \<in> set as. dict s (entry_key (mem s a)) = Some a) \<and>
     (\<forall>k a. dict s k = Some a \<longrightarrow> a \<in> set as \<and> entry_key (mem s a) = k)"

text \<open>
  The free list \<open>fs\<close> is a chain of blocks that are not live; live and free blocks
  are allocated.
\<close>

definition free_inv :: "('k, 'v) DequeDictObject \<Rightarrow> addr list \<Rightarrow> addr list \<Rightarrow> bool" where
  "free_inv s as fs \<longleftrightarrow>
     path (nexts (mem s)) (freelist s) fs None \<and>
     distinct fs \<and>
     set fs \<inter> set as = {} \<and>
     set as \<union> set fs \<subseteq> allocated s"

text \<open>
  The position cache, when present: the slots from \<open>cache_offset\<close> up to
  \<open>cache_size\<close> hold the live entries in list order, and each live entry stores its
  slot.
\<close>

definition cache_inv :: "('k, 'v) DequeDictObject \<Rightarrow> addr list \<Rightarrow> bool" where
  "cache_inv s as \<longleftrightarrow>
     (case index_cache s of
        None \<Rightarrow> True
      | Some arr \<Rightarrow>
          0 \<le> cache_offset s \<and> cache_offset s \<le> cache_size s \<and>
          cache_size s \<le> cache_capacity s \<and>
          int (length arr) = cache_capacity s \<and>
          take (nat (cache_size s - cache_offset s)) (drop (nat (cache_offset s)) arr) = as \<and>
          (\<forall>i < length as. entry_cache_idx (mem s (as ! i)) = cache_offset s + int i))"

text \<open>
  A well-formed state with live entries \<open>as\<close> (from head to tail) and free list
  \<open>fs\<close>: \<open>core_inv\<close> is the part both variants of the type share.
\<close>

definition core_inv :: "('k, 'v) DequeDictObject \<Rightarrow> addr list \<Rightarrow> addr list \<Rightarrow> bool" where
  "core_inv s as fs \<longleftrightarrow>
     links_inv s as \<and> dd_size s = int (length as) \<and> dict_inv s as \<and> free_inv s as fs"

definition dd_inv :: "('k, 'v) DequeDictObject \<Rightarrow> addr list \<Rightarrow> addr list \<Rightarrow> bool" where
  "dd_inv s as fs \<longleftrightarrow> core_inv s as fs \<and> cache_inv s as"

text \<open>\<^verbatim>\<open>PyMem_Malloc\<close> never returns a block that is still allocated.\<close>

definition malloc_fresh :: "alloc_env \<Rightarrow> ('k, 'v) DequeDictObject \<Rightarrow> bool" where
  "malloc_fresh env s \<longleftrightarrow>
     (case malloc_entry env of None \<Rightarrow> True | Some a \<Rightarrow> a \<notin> allocated s)"

text \<open>The \<open>(key, value)\<close> pairs stored in the entries \<open>as\<close>.\<close>

definition pairs_of ::
  "(addr \<Rightarrow> ('k, 'v) DequeDictEntry) \<Rightarrow> addr list \<Rightarrow> ('k \<times> 'v) list" where
  "pairs_of m as = map (\<lambda>a. (entry_key (m a), entry_value (m a))) as"

text \<open>What a view iterator of the given kind yields at the entry \<open>a\<close>.\<close>

definition view_obj ::
  "int \<Rightarrow> (addr \<Rightarrow> ('k, 'v) DequeDictEntry) \<Rightarrow> addr \<Rightarrow> ('k, 'v) pyobj" where
  "view_obj kind m a =
     (if kind = 0 then Key (entry_key (m a))
      else if kind = 1 then Value (entry_value (m a))
      else Item (entry_key (m a)) (entry_value (m a)))"

text \<open>The container as a mapping from keys to values.\<close>

definition lookup :: "('k, 'v) DequeDictObject \<Rightarrow> 'k \<rightharpoonup> 'v" where
  "lookup s k = (case dict s k of None \<Rightarrow> None | Some a \<Rightarrow> Some (entry_value (mem s a)))"

text \<open>Python's index normalisation against a container of \<open>n\<close> entries.\<close>

definition norm_index :: "int \<Rightarrow> int \<Rightarrow> int" where
  "norm_index n index = (if index < 0 then index + n else index)"

text \<open>
  The key index can be extended: \<^verbatim>\<open>PyLong_FromVoidPtr\<close> and \<^verbatim>\<open>PyDict_SetItem\<close>
  succeed.
\<close>

definition index_alloc_ok :: "alloc_env \<Rightarrow> bool" where
  "index_alloc_ok env \<longleftrightarrow> capsule_ok env \<and> dict_set_ok env"

text \<open>
  A program whose every call finds an allocator that returns fresh blocks and can
  extend the key index. The allocation of an entry and of the cache array may fail.
  Nothing is asked of the calls after one that does not return.
\<close>

fun admissible ::
  "(alloc_env \<times> ('k, 'v) operation) list \<Rightarrow> ('k, 'v) DequeDictObject \<Rightarrow> bool" where
  "admissible [] s = True"
| "admissible ((env, op) # rest) s =
     (malloc_fresh env s \<and> index_alloc_ok env \<and>
      (case exec env op s of None \<Rightarrow> True | Some (r, s') \<Rightarrow> admissible rest s'))"

text \<open>The keys stored in the entries \<open>as\<close>, in this order.\<close>

definition keys_of :: "(addr \<Rightarrow> ('k, 'v) DequeDictEntry) \<Rightarrow> addr list \<Rightarrow> 'k list" where
  "keys_of m as = map (\<lambda>a. entry_key (m a)) as"


subsection \<open>From the cache-bearing variant to the variant without cache\<close>

text \<open>
  An entry and a state of the cache-bearing variant without \<open>cache_idx\<close> and without
  the four cache fields: the entry and the state of the other variant that hold the
  same pointers, keys and values at the same addresses.
\<close>

definition forget_entry :: "('k, 'v) DequeDictEntry \<Rightarrow> ('k, 'v) DequeDictEntry_nc" where
  "forget_entry e =
     \<lparr>entry_key_nc = entry_key e, entry_value_nc = entry_value e,
      entry_prev_nc = entry_prev e, entry_next_nc = entry_next e\<rparr>"

definition forget_cache :: "('k, 'v) DequeDictObject \<Rightarrow> ('k, 'v) DequeDictObject_nc" where
  "forget_cache s =
     \<lparr>mem_nc = (\<lambda>a. forget_entry (mem s a)), allocated_nc = allocated s,
      freelist_nc = freelist s, freelist_size_nc = freelist_size s, dict_nc = dict s,
      head_nc = head s, tail_nc = tail s, dd_size_nc = dd_size s\<rparr>"

text \<open>A sequence of calls that uses only what both variants offer.\<close>

definition shared_run :: "(alloc_env \<times> ('k, 'v) operation) list \<Rightarrow> bool" where
  "shared_run ops = list_all (\<lambda>step. shared_op (snd step)) ops"

text \<open>The keys of the pairs among the elements of an iterable.\<close>

fun item_keys :: "(alloc_env \<times> ('k, 'v) pyitem) list \<Rightarrow> 'k list" where
  "item_keys [] = []"
| "item_keys ((env, NotPair) # rest) = item_keys rest"
| "item_keys ((env, PyPair k v) # rest) = k # item_keys rest"
section \<open>Paths and linked lists\<close>

lemma collect_None [simp]: "next_fn c = None \<Longrightarrow> collect next_fn c = Some []"
  by (subst collect.simps) simp

lemma collect_Some [simp]:
  "next_fn c = Some (x, c') \<Longrightarrow>
     collect next_fn c = Option.bind (collect next_fn c') (\<lambda>rest. Some (x # rest))"
  by (subst collect.simps) simp

lemma path_append: "path h c (xs @ ys) e = (\<exists>y. path h c xs y \<and> path h y ys e)"
  by (induction xs arbitrary: c) auto

lemma path_upd_notin: "a \<notin> set as \<Longrightarrow> path (h(a := x)) c as e = path h c as e"
  by (induction as arbitrary: c) auto

lemma path_cong: "(\<And>a. a \<in> set as \<Longrightarrow> h' a = h a) \<Longrightarrow> path h' c as e = path h c as e"
  by (induction as arbitrary: c) auto

lemma path_succ: "path h c (xs @ a # ys) e \<Longrightarrow> h a = (if ys = [] then e else Some (hd ys))"
  by (induction xs arbitrary: c) (auto split: list.splits simp: neq_Nil_conv)

lemma path_start: "path h c as e \<Longrightarrow> c = (if as = [] then e else Some (hd as))"
  by (cases as) auto

lemma path_unlink:
  "path h c (xs @ a # ys) e \<Longrightarrow> distinct (xs @ a # ys) \<Longrightarrow> xs \<noteq> [] \<Longrightarrow>
     path (h(last xs := h a)) c (xs @ ys) e"
proof (induction xs arbitrary: c)
  case Nil then show ?case by simp
next
  case (Cons x xs)
  show ?case
  proof (cases "xs = []")
    case True
    with Cons.prems have "path (h(x := h a)) (h a) ys e"
      by (subst path_upd_notin) auto
    with True Cons.prems show ?thesis by (simp del: fun_upd_apply add: fun_upd_same)
  next
    case False
    with Cons.prems have "path (h(last xs := h a)) (h x) (xs @ ys) e"
      by (intro Cons.IH) auto
    moreover from False Cons.prems have "last xs \<noteq> x" by auto
    ultimately show ?thesis using Cons.prems False
      by (simp del: fun_upd_apply add: fun_upd_other)
  qed
qed

lemma dll_unlink_fwd:
  assumes "path nx c (xs @ a # ys) None" "distinct (xs @ a # ys)"
  shows "path (if xs = [] then nx else nx(last xs := nx a)) (if xs = [] then nx a else c)
           (xs @ ys) None"
proof (cases "xs = []")
  case True with assms show ?thesis by simp
next
  case False with path_unlink[OF assms] show ?thesis by simp
qed

lemma links_prev_of:
  "links_inv s (xs @ a # ys) \<Longrightarrow> entry_prev (mem s a) = (if xs = [] then None else Some (last xs))"
  unfolding links_inv_def using path_succ[of "prevs (mem s)" "tail s" "rev ys" a "rev xs" None]
  by (simp add: prevs_def hd_rev)

lemma links_next_of:
  "links_inv s (xs @ a # ys) \<Longrightarrow> entry_next (mem s a) = (if ys = [] then None else Some (hd ys))"
  unfolding links_inv_def using path_succ[of "nexts (mem s)" "head s" xs a ys None]
  by (simp add: nexts_def)

lemma links_head: "links_inv s as \<Longrightarrow> head s = (if as = [] then None else Some (hd as))"
  unfolding links_inv_def using path_start[of "nexts (mem s)" "head s" as None] by simp

lemma links_tail: "links_inv s as \<Longrightarrow> tail s = (if as = [] then None else Some (last as))"
  unfolding links_inv_def using path_start[of "prevs (mem s)" "tail s" "rev as" None]
  by (simp add: hd_rev)

subsection \<open>Unlinking an entry\<close>

lemma unlink_from_list_fields [simp]:
  "dict (unlink_from_list a s) = dict s"
  "allocated (unlink_from_list a s) = allocated s"
  "freelist (unlink_from_list a s) = freelist s"
  "freelist_size (unlink_from_list a s) = freelist_size s"
  "dd_size (unlink_from_list a s) = dd_size s"
  "index_cache (unlink_from_list a s) = index_cache s"
  "cache_size (unlink_from_list a s) = cache_size s"
  "cache_capacity (unlink_from_list a s) = cache_capacity s"
  "cache_offset (unlink_from_list a s) = cache_offset s"
  "entry_key (mem (unlink_from_list a s) b) = entry_key (mem s b)"
  "entry_value (mem (unlink_from_list a s) b) = entry_value (mem s b)"
  "entry_cache_idx (mem (unlink_from_list a s) b) = entry_cache_idx (mem s b)"
  by (simp_all add: unlink_from_list_def Let_def split: option.splits)

lemma unlink_from_list_links:
  assumes "links_inv s (xs @ a # ys)"
  shows "nexts (mem (unlink_from_list a s)) =
           (if xs = [] then nexts (mem s) else (nexts (mem s))(last xs := nexts (mem s) a))"
    and "prevs (mem (unlink_from_list a s)) =
           (if ys = [] then prevs (mem s) else (prevs (mem s))(hd ys := prevs (mem s) a))"
    and "head (unlink_from_list a s) = (if xs = [] then nexts (mem s) a else head s)"
    and "tail (unlink_from_list a s) = (if ys = [] then prevs (mem s) a else tail s)"
  using links_prev_of[OF assms] links_next_of[OF assms]
  by (auto simp: unlink_from_list_def Let_def nexts_def prevs_def fun_eq_iff)

lemma links_unlink:
  assumes "links_inv s (xs @ a # ys)"
  shows "links_inv (unlink_from_list a s) (xs @ ys)"
proof -
  from assms have f: "path (nexts (mem s)) (head s) (xs @ a # ys) None"
    and b: "path (prevs (mem s)) (tail s) (rev ys @ a # rev xs) None"
    and d: "distinct (xs @ a # ys)"
    by (simp_all add: links_inv_def)
  from d have d': "distinct (rev ys @ a # rev xs)" by auto
  show ?thesis
    unfolding links_inv_def unlink_from_list_links[OF assms]
    using dll_unlink_fwd[OF f d] dll_unlink_fwd[OF b d'] d
    by (cases "ys = []") (simp_all add: last_rev)
qed

lemma links_inv_cong:
  assumes "head s' = head s" "tail s' = tail s"
    and "\<And>a. a \<in> set as \<Longrightarrow> entry_next (mem s' a) = entry_next (mem s a)"
    and "\<And>a. a \<in> set as \<Longrightarrow> entry_prev (mem s' a) = entry_prev (mem s a)"
  shows "links_inv s' as = links_inv s as"
proof -
  have "path (nexts (mem s')) (head s) as None = path (nexts (mem s)) (head s) as None"
    by (rule path_cong) (simp add: nexts_def assms)
  moreover have "path (prevs (mem s')) (tail s) (rev as) None
      = path (prevs (mem s)) (tail s) (rev as) None"
    by (rule path_cong) (simp add: prevs_def assms)
  ultimately show ?thesis by (simp add: links_inv_def assms)
qed

lemma dict_inv_cong:
  assumes "dict s' = dict s"
    and "\<And>a. a \<in> set as \<Longrightarrow> entry_key (mem s' a) = entry_key (mem s a)"
  shows "dict_inv s' as = dict_inv s as"
proof -
  have "(\<forall>a \<in> set as. dict s' (entry_key (mem s' a)) = Some a)
      = (\<forall>a \<in> set as. dict s (entry_key (mem s a)) = Some a)"
    by (simp add: assms)
  moreover have "(\<forall>k a. dict s' k = Some a \<longrightarrow> a \<in> set as \<and> entry_key (mem s' a) = k)
      = (\<forall>k a. dict s k = Some a \<longrightarrow> a \<in> set as \<and> entry_key (mem s a) = k)"
  proof (intro iffI allI impI)
    fix k a assume h: "\<forall>k a. dict s' k = Some a \<longrightarrow> a \<in> set as \<and> entry_key (mem s' a) = k"
      and d: "dict s k = Some a"
    from h d have "a \<in> set as \<and> entry_key (mem s' a) = k" by (simp add: assms(1))
    then show "a \<in> set as \<and> entry_key (mem s a) = k" using assms(2) by auto
  next
    fix k a assume h: "\<forall>k a. dict s k = Some a \<longrightarrow> a \<in> set as \<and> entry_key (mem s a) = k"
      and d: "dict s' k = Some a"
    from h d have "a \<in> set as \<and> entry_key (mem s a) = k" by (simp add: assms(1))
    then show "a \<in> set as \<and> entry_key (mem s' a) = k" using assms(2) by auto
  qed
  ultimately show ?thesis by (simp add: dict_inv_def)
qed

lemma free_inv_cong:
  assumes "freelist s' = freelist s" "allocated s' = allocated s"
    and "\<And>a. a \<in> set fs \<Longrightarrow> entry_next (mem s' a) = entry_next (mem s a)"
  shows "free_inv s' as fs = free_inv s as fs"
proof -
  have "path (nexts (mem s')) (freelist s) fs None = path (nexts (mem s)) (freelist s) fs None"
    by (rule path_cong) (simp add: nexts_def assms)
  then show ?thesis by (simp add: free_inv_def assms)
qed

lemma cache_inv_cong:
  assumes "index_cache s' = index_cache s" "cache_size s' = cache_size s"
    "cache_capacity s' = cache_capacity s" "cache_offset s' = cache_offset s"
    and "\<And>a. a \<in> set as \<Longrightarrow> entry_cache_idx (mem s' a) = entry_cache_idx (mem s a)"
  shows "cache_inv s' as = cache_inv s as"
  unfolding cache_inv_def using assms by (auto split: option.splits)

lemma cache_inv_absent: "index_cache s = None \<Longrightarrow> cache_inv s as"
  by (simp add: cache_inv_def)

lemma free_inv_subset:
  "free_inv s as0 fs \<Longrightarrow> set as \<subseteq> set as0 \<Longrightarrow> free_inv s as fs"
  unfolding free_inv_def by auto

lemma entry_free_fields [simp]:
  "dict (entry_free a s) = dict s"
  "head (entry_free a s) = head s"
  "tail (entry_free a s) = tail s"
  "dd_size (entry_free a s) = dd_size s"
  "index_cache (entry_free a s) = index_cache s"
  "cache_size (entry_free a s) = cache_size s"
  "cache_capacity (entry_free a s) = cache_capacity s"
  "cache_offset (entry_free a s) = cache_offset s"
  "entry_key (mem (entry_free a s) b) = entry_key (mem s b)"
  "entry_value (mem (entry_free a s) b) = entry_value (mem s b)"
  "entry_prev (mem (entry_free a s) b) = entry_prev (mem s b)"
  "entry_cache_idx (mem (entry_free a s) b) = entry_cache_idx (mem s b)"
  by (simp_all add: entry_free_def)

lemma entry_free_other: "b \<noteq> a \<Longrightarrow> mem (entry_free a s) b = mem s b"
  by (simp add: entry_free_def)

lemma entry_free_links: "a \<notin> set as \<Longrightarrow> links_inv (entry_free a s) as = links_inv s as"
  by (rule links_inv_cong) (auto simp: entry_free_def)

lemma entry_free_dict: "dict_inv (entry_free a s) as = dict_inv s as"
  by (rule dict_inv_cong) auto

lemma entry_free_cache: "cache_inv (entry_free a s) as = cache_inv s as"
  by (rule cache_inv_cong) auto

lemma entry_free_free:
  assumes "free_inv s as fs" "a \<notin> set fs" "a \<notin> set as" "a \<in> allocated s"
  shows "\<exists>fs'. free_inv (entry_free a s) as fs'"
proof (cases "freelist_size s < FREELIST_MAX")
  case True
  have "path (nexts (mem (entry_free a s))) (freelist s) fs None
      = path (nexts (mem s)) (freelist s) fs None"
    using assms by (intro path_cong) (auto simp: nexts_def entry_free_def)
  moreover from True have "freelist (entry_free a s) = Some a"
    "nexts (mem (entry_free a s)) a = freelist s" "allocated (entry_free a s) = allocated s"
    by (simp_all add: entry_free_def nexts_def)
  ultimately have "free_inv (entry_free a s) as (a # fs)"
    using assms by (simp add: free_inv_def)
  then show ?thesis ..
next
  case False
  with assms have "free_inv (entry_free a s) as fs"
    by (auto simp: free_inv_def entry_free_def)
  then show ?thesis ..
qed

lemma core_inv_cong:
  assumes "head s' = head s" "tail s' = tail s" "dict s' = dict s" "dd_size s' = dd_size s"
    "freelist s' = freelist s" "allocated s' = allocated s"
    and "\<And>a. a \<in> set as \<union> set fs \<Longrightarrow> entry_next (mem s' a) = entry_next (mem s a)"
    and "\<And>a. a \<in> set as \<Longrightarrow> entry_prev (mem s' a) = entry_prev (mem s a)"
    and "\<And>a. a \<in> set as \<Longrightarrow> entry_key (mem s' a) = entry_key (mem s a)"
  shows "core_inv s' as fs = core_inv s as fs"
proof -
  have "links_inv s' as = links_inv s as" by (rule links_inv_cong) (simp_all add: assms)
  moreover have "dict_inv s' as = dict_inv s as" by (rule dict_inv_cong) (simp_all add: assms)
  moreover have "free_inv s' as fs = free_inv s as fs"
    by (rule free_inv_cong) (simp_all add: assms)
  ultimately show ?thesis by (simp add: core_inv_def assms)
qed

lemma core_inv_invalidate [simp]:
  "core_inv (DequeDict_invalidate_cache s) as fs = core_inv s as fs"
  by (rule core_inv_cong) (simp_all add: DequeDict_invalidate_cache_def)

lemma cache_inv_invalidate [simp]: "cache_inv (DequeDict_invalidate_cache s) as"
  by (simp add: cache_inv_def DequeDict_invalidate_cache_def)

lemma unlink_from_list_other:
  assumes "links_inv s (xs @ a # ys)" "b \<notin> set xs" "b \<notin> set ys"
  shows "mem (unlink_from_list a s) b = mem s b"
proof -
  have p: "entry_prev (mem s a) = (if xs = [] then None else Some (last xs))"
    by (rule links_prev_of[OF assms(1)])
  have n: "entry_next (mem s a) = (if ys = [] then None else Some (hd ys))"
    by (rule links_next_of[OF assms(1)])
  have 1: "xs \<noteq> [] \<Longrightarrow> b \<noteq> last xs" using assms(2) last_in_set by metis
  have 2: "ys \<noteq> [] \<Longrightarrow> b \<noteq> hd ys" using assms(3) hd_in_set by metis
  show ?thesis
    by (cases "xs = []"; cases "ys = []")
       (simp_all add: unlink_from_list_def Let_def p n 1 2)
qed

lemma dict_inv_key_neq:
  "dict_inv s as \<Longrightarrow> a \<in> set as \<Longrightarrow> b \<in> set as \<Longrightarrow> a \<noteq> b \<Longrightarrow>
     entry_key (mem s a) \<noteq> entry_key (mem s b)"
  unfolding dict_inv_def by (metis option.inject)

lemma core_inv_discard:
  assumes inv: "core_inv s (xs @ a # ys) fs"
    and l1: "links_inv s1 (xs @ ys)"
    and eqs: "dict s1 = dict s" "allocated s1 = allocated s" "freelist s1 = freelist s"
      "dd_size s1 = dd_size s"
    and keys: "\<And>b. entry_key (mem s1 b) = entry_key (mem s b)"
    and nx: "\<And>b. b \<in> set fs \<Longrightarrow> entry_next (mem s1 b) = entry_next (mem s b)"
    and k: "k = entry_key (mem s a)"
  shows "\<exists>fs'. core_inv (discard_entry a k s1) (xs @ ys) fs'"
proof -
  let ?as = "xs @ a # ys"
  let ?s2 = "s1\<lparr>dict := (dict s1)(k := None)\<rparr>"
  from inv have li: "links_inv s ?as" and sz: "dd_size s = int (length ?as)"
    and di: "dict_inv s ?as" and fi: "free_inv s ?as fs"
    by (simp_all add: core_inv_def)
  from li have dist: "distinct ?as" by (simp add: links_inv_def)
  then have a_notin: "a \<notin> set (xs @ ys)" by auto
  from fi have a_fs: "a \<notin> set fs" and a_alloc: "a \<in> allocated s"
    by (auto simp: free_inv_def)
  have "free_inv s1 ?as fs = free_inv s ?as fs"
    by (rule free_inv_cong) (simp_all add: eqs nx)
  with fi have "free_inv s1 (xs @ ys) fs" by (auto intro: free_inv_subset)
  then have "free_inv ?s2 (xs @ ys) fs" by (simp add: free_inv_def)
  from entry_free_free[OF this a_fs a_notin] a_alloc eqs
  obtain fs' where fr: "free_inv (entry_free a ?s2) (xs @ ys) fs'" by auto
  have "links_inv ?s2 (xs @ ys)" using l1 by (simp add: links_inv_def)
  then have lk: "links_inv (entry_free a ?s2) (xs @ ys)"
    using a_notin by (simp add: entry_free_links)
  have "dict_inv ?s2 (xs @ ys)"
    unfolding dict_inv_def
  proof (intro conjI ballI)
    fix b assume b: "b \<in> set (xs @ ys)"
    with a_notin have "a \<noteq> b" by auto
    with di b have "entry_key (mem s a) \<noteq> entry_key (mem s b)"
      by (intro dict_inv_key_neq[of s ?as]) auto
    moreover from di b have "dict s (entry_key (mem s b)) = Some b"
      by (auto simp: dict_inv_def)
    ultimately show "dict ?s2 (entry_key (mem ?s2 b)) = Some b"
      by (simp add: keys eqs k)
  next
    show "\<forall>k' b. dict ?s2 k' = Some b \<longrightarrow> b \<in> set (xs @ ys) \<and> entry_key (mem ?s2 b) = k'"
    proof (intro allI impI)
      fix k' b assume "dict ?s2 k' = Some b"
      then have kk: "k' \<noteq> k" and d: "dict s k' = Some b"
        by (auto simp: eqs split: if_splits)
      from di d have b: "b \<in> set ?as" and kb: "entry_key (mem s b) = k'"
        by (auto simp: dict_inv_def)
      with kk k have "b \<noteq> a" by auto
      with b kb show "b \<in> set (xs @ ys) \<and> entry_key (mem ?s2 b) = k'"
        by (auto simp: keys)
    qed
  qed
  then have dc: "dict_inv (entry_free a ?s2) (xs @ ys)" by (simp add: entry_free_dict)
  let ?s3 = "discard_entry a k s1"
  have s3: "?s3 = (entry_free a ?s2)\<lparr>dd_size := dd_size s - 1\<rparr>"
    by (simp add: discard_entry_def Let_def eqs)
  have "links_inv ?s3 (xs @ ys)"
    using lk unfolding s3 by (simp add: links_inv_def)
  moreover have "dict_inv ?s3 (xs @ ys)"
    using dc unfolding s3 by (simp add: dict_inv_def)
  moreover have "free_inv ?s3 (xs @ ys) fs'"
    using fr unfolding s3 by (simp add: free_inv_def)
  moreover have "dd_size ?s3 = int (length (xs @ ys))"
    using sz unfolding s3 by simp
  ultimately have "core_inv ?s3 (xs @ ys) fs'" by (simp add: core_inv_def)
  then show ?thesis ..
qed

lemma discard_entry_fields [simp]:
  "dict (discard_entry a k s) = (dict s)(k := None)"
  "head (discard_entry a k s) = head s"
  "tail (discard_entry a k s) = tail s"
  "dd_size (discard_entry a k s) = dd_size s - 1"
  "index_cache (discard_entry a k s) = index_cache s"
  "cache_size (discard_entry a k s) = cache_size s"
  "cache_capacity (discard_entry a k s) = cache_capacity s"
  "cache_offset (discard_entry a k s) = cache_offset s"
  "entry_key (mem (discard_entry a k s) b) = entry_key (mem s b)"
  "entry_value (mem (discard_entry a k s) b) = entry_value (mem s b)"
  "entry_prev (mem (discard_entry a k s) b) = entry_prev (mem s b)"
  "entry_cache_idx (mem (discard_entry a k s) b) = entry_cache_idx (mem s b)"
  by (simp_all add: discard_entry_def Let_def)

lemma invalidate_fields [simp]:
  "mem (DequeDict_invalidate_cache s) = mem s"
  "dict (DequeDict_invalidate_cache s) = dict s"
  "head (DequeDict_invalidate_cache s) = head s"
  "tail (DequeDict_invalidate_cache s) = tail s"
  "dd_size (DequeDict_invalidate_cache s) = dd_size s"
  "allocated (DequeDict_invalidate_cache s) = allocated s"
  "freelist (DequeDict_invalidate_cache s) = freelist s"
  "freelist_size (DequeDict_invalidate_cache s) = freelist_size s"
  "index_cache (DequeDict_invalidate_cache s) = None"
  "cache_size (DequeDict_invalidate_cache s) = 0"
  "cache_capacity (DequeDict_invalidate_cache s) = 0"
  "cache_offset (DequeDict_invalidate_cache s) = 0"
  by (simp_all add: DequeDict_invalidate_cache_def)

lemma dd_inv_core: "dd_inv s as fs \<Longrightarrow> core_inv s as fs"
  by (simp add: dd_inv_def)

lemma core_inv_links: "core_inv s as fs \<Longrightarrow> links_inv s as"
  by (simp add: core_inv_def)

lemma core_inv_distinct: "core_inv s as fs \<Longrightarrow> distinct as"
  by (simp add: core_inv_def links_inv_def)

lemma core_inv_lookup:
  "core_inv s as fs \<Longrightarrow> dict s k = Some a \<Longrightarrow> a \<in> set as \<and> entry_key (mem s a) = k"
  by (simp add: core_inv_def dict_inv_def)

lemma core_inv_lookup_live:
  "core_inv s as fs \<Longrightarrow> a \<in> set as \<Longrightarrow> dict s (entry_key (mem s a)) = Some a"
  by (simp add: core_inv_def dict_inv_def)

lemma core_inv_size: "core_inv s as fs \<Longrightarrow> dd_size s = int (length as)"
  by (simp add: core_inv_def)

text \<open>Removal by key: the state after the unlink, the release and the invalidation.\<close>

lemma core_inv_remove_key:
  assumes inv: "core_inv s as fs" and k: "dict s k = Some a"
  shows "\<exists>fs'. core_inv (discard_entry a k (unlink_from_list a s)) (remove1 a as) fs'"
proof -
  from core_inv_lookup[OF inv k] have a: "a \<in> set as" and ka: "k = entry_key (mem s a)"
    by auto
  from a obtain xs ys where as: "as = xs @ a # ys" by (auto simp: in_set_conv_decomp)
  from core_inv_distinct[OF inv] as have d: "a \<notin> set xs" "a \<notin> set ys" by auto
  then have r: "remove1 a as = xs @ ys" by (simp add: as remove1_append)
  from inv as have inv': "core_inv s (xs @ a # ys) fs" by simp
  have li: "links_inv s (xs @ a # ys)" by (rule core_inv_links[OF inv'])
  from inv' have "set fs \<inter> set (xs @ a # ys) = {}" by (simp add: core_inv_def free_inv_def)
  then have nx: "\<And>b. b \<in> set fs \<Longrightarrow>
      entry_next (mem (unlink_from_list a s) b) = entry_next (mem s b)"
    by (subst unlink_from_list_other[OF li]) auto
  show ?thesis unfolding r
    by (rule core_inv_discard[OF inv' links_unlink[OF li]]) (simp_all add: nx ka)
qed

lemma dd_inv_remove_key:
  assumes "dd_inv s as fs" "dict s k = Some a"
  shows "\<exists>fs'. dd_inv (DequeDict_invalidate_cache (discard_entry a k (unlink_from_list a s)))
           (remove1 a as) fs'"
  using core_inv_remove_key[OF dd_inv_core[OF assms(1)] assms(2)]
  by (simp add: dd_inv_def)

subsection \<open>Removal at the two ends\<close>

lemma unlink_head_eq:
  assumes "links_inv s (a # ys)"
  shows "unlink_head a s = unlink_from_list a s"
  using links_prev_of[of s "[]" a ys] links_next_of[of s "[]" a ys] assms
  by (simp add: unlink_head_def unlink_from_list_def Let_def)

lemma unlink_tail_eq:
  assumes "links_inv s (xs @ [a])"
  shows "unlink_tail a s = unlink_from_list a s"
proof -
  from assms have "a \<notin> set xs" by (simp add: links_inv_def)
  then have "xs \<noteq> [] \<Longrightarrow> a \<noteq> last xs" using last_in_set by metis
  then show ?thesis
    using links_prev_of[of s xs a "[]"] links_next_of[of s xs a "[]"] assms
    by (cases "xs = []") (simp_all add: unlink_tail_def unlink_from_list_def Let_def)
qed

lemma cache_inv_drop_first:
  assumes c: "cache_inv s (a # ys)"
    and eqs: "index_cache s2 = index_cache s" "cache_size s2 = cache_size s"
      "cache_capacity s2 = cache_capacity s" "cache_offset s2 = cache_offset s"
    and idx: "\<And>b. entry_cache_idx (mem s2 b) = entry_cache_idx (mem s b)"
  shows "cache_inv (bump_cache_offset s2) ys"
proof (cases "index_cache s")
  case None
  then show ?thesis by (simp add: cache_inv_def bump_cache_offset_def eqs)
next
  case (Some arr)
  let ?n = "nat (cache_size s - cache_offset s)" and ?k = "nat (cache_offset s)"
  from c Some have b: "0 \<le> cache_offset s" "cache_offset s \<le> cache_size s"
    "cache_size s \<le> cache_capacity s" "int (length arr) = cache_capacity s"
    and t: "take ?n (drop ?k arr) = a # ys"
    and i: "\<forall>i < length (a # ys). entry_cache_idx (mem s ((a # ys) ! i)) = cache_offset s + int i"
    by (simp_all add: cache_inv_def)
  from t have "length (take ?n (drop ?k arr)) = Suc (length ys)" by simp
  with b have lt: "cache_offset s < cache_size s" by (auto simp: min_def split: if_splits)
  have "take (?n - 1) (drop (Suc ?k) arr) = tl (take ?n (drop ?k arr))"
    by (simp add: tl_take tl_drop drop_Suc)
  with t have t': "take (?n - 1) (drop (Suc ?k) arr) = ys" by simp
  have n1: "nat (cache_size s - (cache_offset s + 1)) = ?n - 1" by simp
  have k1: "nat (cache_offset s + 1) = Suc ?k" using b by simp
  have i': "\<forall>j < length ys. entry_cache_idx (mem s (ys ! j)) = cache_offset s + 1 + int j"
  proof (intro allI impI)
    fix j assume "j < length ys"
    with i have "entry_cache_idx (mem s ((a # ys) ! Suc j)) = cache_offset s + int (Suc j)"
      by (metis Suc_less_eq length_Cons)
    then show "entry_cache_idx (mem s (ys ! j)) = cache_offset s + 1 + int j" by simp
  qed
  show ?thesis
    using Some b lt t' i'
    by (simp add: cache_inv_def bump_cache_offset_def eqs idx n1 k1)
qed

lemma cache_inv_drop_last:
  assumes c: "cache_inv s (xs @ [a])"
    and eqs: "index_cache s2 = index_cache s" "cache_size s2 = cache_size s"
      "cache_capacity s2 = cache_capacity s" "cache_offset s2 = cache_offset s"
    and idx: "\<And>b. entry_cache_idx (mem s2 b) = entry_cache_idx (mem s b)"
  shows "cache_inv (pop_cache_right s2) xs"
proof (cases "index_cache s")
  case None
  then show ?thesis by (simp add: cache_inv_def pop_cache_right_def eqs)
next
  case (Some arr)
  let ?n = "nat (cache_size s - cache_offset s)" and ?k = "nat (cache_offset s)"
  from c Some have b: "0 \<le> cache_offset s" "cache_offset s \<le> cache_size s"
    "cache_size s \<le> cache_capacity s" "int (length arr) = cache_capacity s"
    and t: "take ?n (drop ?k arr) = xs @ [a]"
    and i: "\<forall>i < length (xs @ [a]). entry_cache_idx (mem s ((xs @ [a]) ! i)) = cache_offset s + int i"
    by (simp_all add: cache_inv_def)
  from t have len: "length (take ?n (drop ?k arr)) = Suc (length xs)" by simp
  with b have lt: "cache_offset s < cache_size s" by (auto simp: min_def split: if_splits)
  from len b have n_le: "?n \<le> length (drop ?k arr)" by simp
  have "take (?n - 1) (drop ?k arr) = butlast (take ?n (drop ?k arr))"
    using n_le by (simp add: butlast_take)
  with t have t': "take (?n - 1) (drop ?k arr) = xs" by simp
  have n1: "nat (cache_size s - 1 - cache_offset s) = ?n - 1" by simp
  have i': "\<forall>j < length xs. entry_cache_idx (mem s (xs ! j)) = cache_offset s + int j"
  proof (intro allI impI)
    fix j assume j: "j < length xs"
    with i have "entry_cache_idx (mem s ((xs @ [a]) ! j)) = cache_offset s + int j" by simp
    with j show "entry_cache_idx (mem s (xs ! j)) = cache_offset s + int j"
      by (simp add: nth_append)
  qed
  show ?thesis
    using Some b lt t' i'
    by (simp add: cache_inv_def pop_cache_right_def eqs idx n1)
qed

lemma bump_cache_offset_core [simp]:
  "core_inv (bump_cache_offset s) as fs = core_inv s as fs"
  by (rule core_inv_cong) (simp_all add: bump_cache_offset_def)

lemma pop_cache_right_core [simp]:
  "core_inv (pop_cache_right s) as fs = core_inv s as fs"
  by (rule core_inv_cong) (simp_all add: pop_cache_right_def)

lemma dd_inv_remove_first:
  assumes inv: "dd_inv s (a # ys) fs"
  shows "\<exists>fs'. dd_inv (bump_cache_offset (discard_entry a (entry_key (mem s a)) (unlink_head a s)))
           ys fs'"
proof -
  have core: "core_inv s (a # ys) fs" by (rule dd_inv_core[OF inv])
  have li: "links_inv s (a # ys)" by (rule core_inv_links[OF core])
  have k: "dict s (entry_key (mem s a)) = Some a"
    by (rule core_inv_lookup_live[OF core]) simp
  from core_inv_remove_key[OF core k]
  obtain fs' where "core_inv (discard_entry a (entry_key (mem s a)) (unlink_from_list a s)) ys fs'"
    by auto
  moreover have "cache_inv (bump_cache_offset
      (discard_entry a (entry_key (mem s a)) (unlink_from_list a s))) ys"
    using inv by (intro cache_inv_drop_first[of s a]) (simp_all add: dd_inv_def)
  ultimately show ?thesis by (auto simp: dd_inv_def unlink_head_eq[OF li])
qed

lemma dd_inv_remove_last:
  assumes inv: "dd_inv s (xs @ [a]) fs"
  shows "\<exists>fs'. dd_inv (pop_cache_right (discard_entry a (entry_key (mem s a)) (unlink_tail a s)))
           xs fs'"
proof -
  have core: "core_inv s (xs @ [a]) fs" by (rule dd_inv_core[OF inv])
  have li: "links_inv s (xs @ [a])" by (rule core_inv_links[OF core])
  have k: "dict s (entry_key (mem s a)) = Some a"
    by (rule core_inv_lookup_live[OF core]) simp
  from core_inv_distinct[OF core] have "remove1 a (xs @ [a]) = xs"
    by (simp add: remove1_append)
  with core_inv_remove_key[OF core k]
  obtain fs' where "core_inv (discard_entry a (entry_key (mem s a)) (unlink_from_list a s)) xs fs'"
    by auto
  moreover have "cache_inv (pop_cache_right
      (discard_entry a (entry_key (mem s a)) (unlink_from_list a s))) xs"
    using inv by (intro cache_inv_drop_last[of s xs a]) (simp_all add: dd_inv_def)
  ultimately show ?thesis by (auto simp: dd_inv_def unlink_tail_eq[OF li])
qed

subsection \<open>Allocation and insertion\<close>

lemma path_set_last:
  "path h c as e \<Longrightarrow> distinct as \<Longrightarrow> as \<noteq> [] \<Longrightarrow> path (h(last as := e')) c as e'"
proof (induction as arbitrary: c)
  case Nil then show ?case by simp
next
  case (Cons x xs)
  show ?case
  proof (cases "xs = []")
    case True with Cons.prems show ?thesis by (simp del: fun_upd_apply add: fun_upd_same)
  next
    case False
    with Cons.prems have "path (h(last xs := e')) (h x) xs e'" by (intro Cons.IH) auto
    moreover from False Cons.prems have "last xs \<noteq> x" by auto
    ultimately show ?thesis using Cons.prems False
      by (simp del: fun_upd_apply add: fun_upd_other)
  qed
qed

lemma path_snoc_new:
  assumes "path h c as None" "distinct as" "a \<notin> set as"
  shows "path (if as = [] then h(a := None) else (h(a := None))(last as := Some a))
           (if as = [] then Some a else c) (as @ [a]) None"
proof (cases "as = []")
  case True then show ?thesis by simp
next
  case False
  from assms have "path (h(a := None)) c as None" by (simp add: path_upd_notin)
  from path_set_last[OF this assms(2) False]
  have 1: "path ((h(a := None))(last as := Some a)) c as (Some a)" .
  from False assms(3) have "last as \<noteq> a" using last_in_set by metis
  then have 2: "path ((h(a := None))(last as := Some a)) (Some a) [a] None" by simp
  from 1 2 False show ?thesis by (auto simp: path_append simp del: fun_upd_apply)
qed

lemma path_cons_new:
  assumes "path h c as None" "a \<notin> set as"
  shows "path (h(a := c)) (Some a) (a # as) None"
  using assms by (simp add: path_upd_notin fun_upd_same del: fun_upd_apply)

lemma link_at_tail_fields [simp]:
  "dict (link_at_tail a k v s) = dict s"
  "allocated (link_at_tail a k v s) = allocated s"
  "freelist (link_at_tail a k v s) = freelist s"
  "freelist_size (link_at_tail a k v s) = freelist_size s"
  "dd_size (link_at_tail a k v s) = dd_size s + 1"
  "tail (link_at_tail a k v s) = Some a"
  "index_cache (link_at_tail a k v s) = index_cache s"
  "cache_size (link_at_tail a k v s) = cache_size s"
  "cache_capacity (link_at_tail a k v s) = cache_capacity s"
  "cache_offset (link_at_tail a k v s) = cache_offset s"
  by (simp_all add: link_at_tail_def Let_def split: option.splits)

lemma link_at_head_fields [simp]:
  "dict (link_at_head a k v s) = dict s"
  "allocated (link_at_head a k v s) = allocated s"
  "freelist (link_at_head a k v s) = freelist s"
  "freelist_size (link_at_head a k v s) = freelist_size s"
  "dd_size (link_at_head a k v s) = dd_size s + 1"
  "head (link_at_head a k v s) = Some a"
  "index_cache (link_at_head a k v s) = index_cache s"
  "cache_size (link_at_head a k v s) = cache_size s"
  "cache_capacity (link_at_head a k v s) = cache_capacity s"
  "cache_offset (link_at_head a k v s) = cache_offset s"
  by (simp_all add: link_at_head_def Let_def split: option.splits)

lemma link_at_tail_mem:
  assumes "links_inv s as" "a \<notin> set as"
  shows "mem (link_at_tail a k v s) a =
           \<lparr>entry_key = k, entry_value = v, entry_prev = tail s, entry_next = None,
            entry_cache_idx = - 1\<rparr>"
    and "b \<noteq> a \<Longrightarrow> entry_key (mem (link_at_tail a k v s) b) = entry_key (mem s b)"
    and "b \<noteq> a \<Longrightarrow> entry_value (mem (link_at_tail a k v s) b) = entry_value (mem s b)"
    and "b \<noteq> a \<Longrightarrow> entry_prev (mem (link_at_tail a k v s) b) = entry_prev (mem s b)"
    and "b \<noteq> a \<Longrightarrow> entry_cache_idx (mem (link_at_tail a k v s) b) = entry_cache_idx (mem s b)"
    and "b \<notin> set as \<Longrightarrow> b \<noteq> a \<Longrightarrow> mem (link_at_tail a k v s) b = mem s b"
    and "nexts (mem (link_at_tail a k v s)) =
           (if as = [] then (nexts (mem s))(a := None)
            else ((nexts (mem s))(a := None))(last as := Some a))"
    and "prevs (mem (link_at_tail a k v s)) = (prevs (mem s))(a := tail s)"
    and "head (link_at_tail a k v s) = (if as = [] then Some a else head s)"
proof -
  have t: "tail s = (if as = [] then None else Some (last as))" by (rule links_tail[OF assms(1)])
  have ne: "as \<noteq> [] \<Longrightarrow> last as \<noteq> a" using assms(2) last_in_set by metis
  have in_as: "as \<noteq> [] \<Longrightarrow> last as \<in> set as" by simp
  show "mem (link_at_tail a k v s) a =
           \<lparr>entry_key = k, entry_value = v, entry_prev = tail s, entry_next = None,
            entry_cache_idx = - 1\<rparr>"
    using ne by (cases "as = []") (simp_all add: link_at_tail_def Let_def t)
  show "b \<noteq> a \<Longrightarrow> entry_key (mem (link_at_tail a k v s) b) = entry_key (mem s b)"
    by (cases "as = []") (simp_all add: link_at_tail_def Let_def t)
  show "b \<noteq> a \<Longrightarrow> entry_value (mem (link_at_tail a k v s) b) = entry_value (mem s b)"
    by (cases "as = []") (simp_all add: link_at_tail_def Let_def t)
  show "b \<noteq> a \<Longrightarrow> entry_prev (mem (link_at_tail a k v s) b) = entry_prev (mem s b)"
    by (cases "as = []") (simp_all add: link_at_tail_def Let_def t)
  show "b \<noteq> a \<Longrightarrow> entry_cache_idx (mem (link_at_tail a k v s) b) = entry_cache_idx (mem s b)"
    by (cases "as = []") (simp_all add: link_at_tail_def Let_def t)
  show "b \<notin> set as \<Longrightarrow> b \<noteq> a \<Longrightarrow> mem (link_at_tail a k v s) b = mem s b"
    using in_as by (cases "as = []") (auto simp: link_at_tail_def Let_def t)
  show "nexts (mem (link_at_tail a k v s)) =
           (if as = [] then (nexts (mem s))(a := None)
            else ((nexts (mem s))(a := None))(last as := Some a))"
    using ne by (cases "as = []") (auto simp: link_at_tail_def Let_def t nexts_def fun_eq_iff)
  show "prevs (mem (link_at_tail a k v s)) = (prevs (mem s))(a := tail s)"
    using ne by (cases "as = []") (auto simp: link_at_tail_def Let_def t prevs_def fun_eq_iff)
  show "head (link_at_tail a k v s) = (if as = [] then Some a else head s)"
    by (cases "as = []") (simp_all add: link_at_tail_def Let_def t)
qed

lemma links_link_at_tail:
  assumes "links_inv s as" "a \<notin> set as"
  shows "links_inv (link_at_tail a k v s) (as @ [a])"
proof -
  from assms have f: "path (nexts (mem s)) (head s) as None"
    and b: "path (prevs (mem s)) (tail s) (rev as) None" and d: "distinct as"
    by (simp_all add: links_inv_def)
  from assms(2) have a': "a \<notin> set (rev as)" by simp
  show ?thesis
    unfolding links_inv_def link_at_tail_mem(7-9)[OF assms] link_at_tail_fields
    using path_snoc_new[OF f d assms(2)] path_cons_new[OF b a'] d assms(2)
    by simp
qed

lemma link_at_head_mem:
  assumes "links_inv s as" "a \<notin> set as"
  shows "mem (link_at_head a k v s) a =
           \<lparr>entry_key = k, entry_value = v, entry_prev = None, entry_next = head s,
            entry_cache_idx = - 1\<rparr>"
    and "b \<noteq> a \<Longrightarrow> entry_key (mem (link_at_head a k v s) b) = entry_key (mem s b)"
    and "b \<noteq> a \<Longrightarrow> entry_value (mem (link_at_head a k v s) b) = entry_value (mem s b)"
    and "b \<noteq> a \<Longrightarrow> entry_next (mem (link_at_head a k v s) b) = entry_next (mem s b)"
    and "b \<noteq> a \<Longrightarrow> entry_cache_idx (mem (link_at_head a k v s) b) = entry_cache_idx (mem s b)"
    and "b \<notin> set as \<Longrightarrow> b \<noteq> a \<Longrightarrow> mem (link_at_head a k v s) b = mem s b"
    and "prevs (mem (link_at_head a k v s)) =
           (if as = [] then (prevs (mem s))(a := None)
            else ((prevs (mem s))(a := None))(hd as := Some a))"
    and "nexts (mem (link_at_head a k v s)) = (nexts (mem s))(a := head s)"
    and "tail (link_at_head a k v s) = (if as = [] then Some a else tail s)"
proof -
  have t: "head s = (if as = [] then None else Some (hd as))" by (rule links_head[OF assms(1)])
  have ne: "as \<noteq> [] \<Longrightarrow> hd as \<noteq> a" using assms(2) hd_in_set by metis
  have in_as: "as \<noteq> [] \<Longrightarrow> hd as \<in> set as" by simp
  show "mem (link_at_head a k v s) a =
           \<lparr>entry_key = k, entry_value = v, entry_prev = None, entry_next = head s,
            entry_cache_idx = - 1\<rparr>"
    using ne by (cases "as = []") (simp_all add: link_at_head_def Let_def t)
  show "b \<noteq> a \<Longrightarrow> entry_key (mem (link_at_head a k v s) b) = entry_key (mem s b)"
    by (cases "as = []") (simp_all add: link_at_head_def Let_def t)
  show "b \<noteq> a \<Longrightarrow> entry_value (mem (link_at_head a k v s) b) = entry_value (mem s b)"
    by (cases "as = []") (simp_all add: link_at_head_def Let_def t)
  show "b \<noteq> a \<Longrightarrow> entry_next (mem (link_at_head a k v s) b) = entry_next (mem s b)"
    by (cases "as = []") (simp_all add: link_at_head_def Let_def t)
  show "b \<noteq> a \<Longrightarrow> entry_cache_idx (mem (link_at_head a k v s) b) = entry_cache_idx (mem s b)"
    by (cases "as = []") (simp_all add: link_at_head_def Let_def t)
  show "b \<notin> set as \<Longrightarrow> b \<noteq> a \<Longrightarrow> mem (link_at_head a k v s) b = mem s b"
    using in_as by (cases "as = []") (auto simp: link_at_head_def Let_def t)
  show "prevs (mem (link_at_head a k v s)) =
           (if as = [] then (prevs (mem s))(a := None)
            else ((prevs (mem s))(a := None))(hd as := Some a))"
    using ne by (cases "as = []") (auto simp: link_at_head_def Let_def t prevs_def fun_eq_iff)
  show "nexts (mem (link_at_head a k v s)) = (nexts (mem s))(a := head s)"
    using ne by (cases "as = []") (auto simp: link_at_head_def Let_def t nexts_def fun_eq_iff)
  show "tail (link_at_head a k v s) = (if as = [] then Some a else tail s)"
    by (cases "as = []") (simp_all add: link_at_head_def Let_def t)
qed

lemma links_link_at_head:
  assumes "links_inv s as" "a \<notin> set as"
  shows "links_inv (link_at_head a k v s) (a # as)"
proof -
  from assms have f: "path (nexts (mem s)) (head s) as None"
    and b: "path (prevs (mem s)) (tail s) (rev as) None" and d: "distinct (rev as)"
    by (simp_all add: links_inv_def)
  from assms(2) have a': "a \<notin> set (rev as)" by simp
  show ?thesis
    unfolding links_inv_def link_at_head_mem(7-9)[OF assms] link_at_head_fields
    using path_snoc_new[OF b d a'] path_cons_new[OF f assms(2)] d assms(2)
    by (cases "as = []") (simp_all add: last_rev)
qed

lemma entry_alloc_None: "entry_alloc env s = (None, s1) \<Longrightarrow> s1 = s"
  by (auto simp: entry_alloc_def split: option.splits)

lemma entry_alloc_fields:
  assumes "entry_alloc env s = (r, s1)"
  shows "mem s1 = mem s" "dict s1 = dict s" "head s1 = head s" "tail s1 = tail s"
    "dd_size s1 = dd_size s" "index_cache s1 = index_cache s" "cache_size s1 = cache_size s"
    "cache_capacity s1 = cache_capacity s" "cache_offset s1 = cache_offset s"
  using assms by (auto simp: entry_alloc_def split: option.splits)

lemma entry_alloc_Some:
  assumes inv: "core_inv s as fs" and fresh: "malloc_fresh env s"
    and al: "entry_alloc env s = (Some a, s1)"
  shows "\<exists>fs'. core_inv s1 as fs' \<and> a \<notin> set as \<and> a \<notin> set fs' \<and> a \<in> allocated s1"
proof (cases "freelist s")
  case None
  with al have m: "malloc_entry env = Some a" and s1: "s1 = s\<lparr>allocated := insert a (allocated s)\<rparr>"
    by (auto simp: entry_alloc_def split: option.splits)
  from m fresh have "a \<notin> allocated s" by (simp add: malloc_fresh_def)
  moreover from inv have fi: "free_inv s as fs" by (simp add: core_inv_def)
  ultimately have na: "a \<notin> set as" "a \<notin> set fs" by (auto simp: free_inv_def)
  from fi have "free_inv s1 as fs" by (auto simp: free_inv_def s1)
  with inv have "core_inv s1 as fs"
    by (simp add: core_inv_def s1 links_inv_def dict_inv_def)
  with na show ?thesis by (auto simp: s1)
next
  case (Some e)
  with al have e: "e = a" and s1: "s1 = s\<lparr>freelist := entry_next (mem s a),
      freelist_size := freelist_size s - 1\<rparr>"
    by (auto simp: entry_alloc_def)
  from inv have fi: "free_inv s as fs" by (simp add: core_inv_def)
  with Some e obtain fs' where fs: "fs = a # fs'"
    by (cases fs) (auto simp: free_inv_def)
  from fi fs have "free_inv s1 as fs'"
    by (auto simp: free_inv_def s1 nexts_def)
  with inv have "core_inv s1 as fs'"
    by (simp add: core_inv_def s1 links_inv_def dict_inv_def)
  moreover from fi fs have "a \<notin> set as" "a \<notin> set fs'" "a \<in> allocated s1"
    by (auto simp: free_inv_def s1)
  ultimately show ?thesis by auto
qed

text \<open>The state after the new entry is linked and the key index updated.\<close>

lemma core_inv_insert:
  assumes inv: "core_inv s as fs" and a: "a \<notin> set as" "a \<notin> set fs" "a \<in> allocated s"
    and k: "dict s k = None"
    and l2: "links_inv s2 as'" and as': "set as' = insert a (set as)"
    and len: "length as' = Suc (length as)"
    and eqs: "head s3 = head s2" "tail s3 = tail s2" "dd_size s3 = dd_size s + 1"
      "allocated s3 = allocated s" "freelist s3 = freelist s" "dict s3 = (dict s)(k \<mapsto> a)"
    and ka: "entry_key (mem s3 a) = k"
    and keys: "\<And>b. b \<noteq> a \<Longrightarrow> entry_key (mem s3 b) = entry_key (mem s b)"
    and frame: "\<And>b. b \<notin> set as \<Longrightarrow> b \<noteq> a \<Longrightarrow> entry_next (mem s3 b) = entry_next (mem s b)"
    and lk: "\<And>b. entry_next (mem s3 b) = entry_next (mem s2 b)"
      "\<And>b. entry_prev (mem s3 b) = entry_prev (mem s2 b)"
  shows "core_inv s3 as' fs"
proof -
  have "links_inv s3 as' = links_inv s2 as'" by (rule links_inv_cong) (simp_all add: eqs lk)
  with l2 have 1: "links_inv s3 as'" by simp
  from inv have sz: "dd_size s = int (length as)" and di: "dict_inv s as"
    and fi: "free_inv s as fs" by (simp_all add: core_inv_def)
  have 2: "dd_size s3 = int (length as')" by (simp add: eqs sz len)
  have 3: "dict_inv s3 as'"
    unfolding dict_inv_def
  proof (intro conjI ballI)
    fix b assume "b \<in> set as'"
    then consider "b = a" | "b \<in> set as" "b \<noteq> a" using as' a by auto
    then show "dict s3 (entry_key (mem s3 b)) = Some b"
    proof cases
      case 1 then show ?thesis by (simp add: eqs ka)
    next
      case 2
      with di have "dict s (entry_key (mem s b)) = Some b" by (simp add: dict_inv_def)
      with k have "entry_key (mem s b) \<noteq> k" by auto
      with 2 \<open>dict s (entry_key (mem s b)) = Some b\<close> show ?thesis by (simp add: eqs keys)
    qed
  next
    show "\<forall>k' b. dict s3 k' = Some b \<longrightarrow> b \<in> set as' \<and> entry_key (mem s3 b) = k'"
    proof (intro allI impI)
      fix k' b assume d: "dict s3 k' = Some b"
      show "b \<in> set as' \<and> entry_key (mem s3 b) = k'"
      proof (cases "k' = k")
        case True
        with d have "b = a" by (simp add: eqs)
        with True ka show ?thesis by (simp add: as')
      next
        case False
        with d have "dict s k' = Some b" by (simp add: eqs)
        with di have b: "b \<in> set as" "entry_key (mem s b) = k'" by (auto simp: dict_inv_def)
        with a have "b \<noteq> a" by auto
        with b show ?thesis by (simp add: as' keys)
      qed
    qed
  qed
  from fi have "path (nexts (mem s)) (freelist s) fs None" and dfs: "distinct fs"
    and dj: "set fs \<inter> set as = {}" and al: "set as \<union> set fs \<subseteq> allocated s"
    by (simp_all add: free_inv_def)
  moreover have "path (nexts (mem s3)) (freelist s) fs None = path (nexts (mem s)) (freelist s) fs None"
    using dj a by (intro path_cong) (auto simp: nexts_def intro!: frame)
  ultimately have 4: "free_inv s3 as' fs"
    using a by (auto simp: free_inv_def eqs as')
  from 1 2 3 4 show ?thesis by (simp add: core_inv_def)
qed

subsection \<open>The position cache under a tail append\<close>

lemma take_drop_snoc:
  assumes "k + n < length arr'" "k + n \<le> length arr" "\<forall>i < k + n. arr' ! i = arr ! i"
  shows "take (Suc n) (drop k (arr'[k + n := a])) = take n (drop k arr) @ [a]"
proof (rule nth_equalityI)
  show "length (take (Suc n) (drop k (arr'[k + n := a]))) = length (take n (drop k arr) @ [a])"
    using assms by simp
next
  fix i assume "i < length (take (Suc n) (drop k (arr'[k + n := a])))"
  with assms have i: "i < Suc n" by simp
  show "take (Suc n) (drop k (arr'[k + n := a])) ! i = (take n (drop k arr) @ [a]) ! i"
  proof (cases "i = n")
    case True
    with assms show ?thesis by (simp add: nth_append)
  next
    case False
    with i have "i < n" by simp
    with assms show ?thesis by (simp add: nth_append)
  qed
qed

lemma ensure_capacity_cases [consumes 2, case_names ok fail]:
  assumes c: "cache_inv s as" and arr: "index_cache s = Some arr"
  obtains (ok) arr' where
      "DequeDict_cache_ensure_capacity env s
         = (0, s\<lparr>index_cache := Some arr', cache_capacity := int (length arr')\<rparr>)"
      "cache_size s < int (length arr')" "\<forall>i < nat (cache_size s). arr' ! i = arr ! i"
  | (fail) "DequeDict_cache_ensure_capacity env s = (- 1, DequeDict_invalidate_cache s)"
      "\<not> cache_alloc_ok env" "cache_size s = cache_capacity s"
proof -
  from c arr have b: "0 \<le> cache_offset s" "cache_offset s \<le> cache_size s"
    "cache_size s \<le> cache_capacity s" "int (length arr) = cache_capacity s"
    by (simp_all add: cache_inv_def)
  show thesis
  proof (cases "cache_size s < cache_capacity s")
    case True
    have "s\<lparr>index_cache := Some arr, cache_capacity := int (length arr)\<rparr> = s"
      using arr b by simp
    with True b show ?thesis
      by (intro ok[of arr]) (simp_all add: DequeDict_cache_ensure_capacity_def)
  next
    case False
    with b have full: "cache_size s = cache_capacity s" by simp
    show ?thesis
    proof (cases "cache_alloc_ok env")
      case False
      with full show ?thesis
        by (intro fail) (simp_all add: DequeDict_cache_ensure_capacity_def Let_def)
    next
      case True
      let ?new_cap = "if cache_capacity s * 2 < 8 then 8 else cache_capacity s * 2"
      let ?arr' = "take (nat ?new_cap) (arr @ replicate (nat ?new_cap) 0)"
      have "length ?arr' = nat ?new_cap" by simp
      then have len: "int (length ?arr') = ?new_cap" by simp
      have gt: "cache_capacity s < ?new_cap" by simp
      have "DequeDict_cache_ensure_capacity env s
          = (0, s\<lparr>index_cache := Some ?arr', cache_capacity := int (length ?arr')\<rparr>)"
        unfolding len using True full arr
        by (simp add: DequeDict_cache_ensure_capacity_def Let_def)
      moreover have "cache_size s < int (length ?arr')" unfolding len using full gt by simp
      moreover have "\<forall>i < nat (cache_size s). ?arr' ! i = arr ! i"
        using full b gt by (auto simp: nth_append)
      ultimately show ?thesis by (rule ok)
    qed
  qed
qed

lemma cache_append_fields [simp]:
  "dict (cache_append env a s) = dict s"
  "head (cache_append env a s) = head s"
  "tail (cache_append env a s) = tail s"
  "dd_size (cache_append env a s) = dd_size s"
  "allocated (cache_append env a s) = allocated s"
  "freelist (cache_append env a s) = freelist s"
  "freelist_size (cache_append env a s) = freelist_size s"
  "entry_key (mem (cache_append env a s) b) = entry_key (mem s b)"
  "entry_value (mem (cache_append env a s) b) = entry_value (mem s b)"
  "entry_prev (mem (cache_append env a s) b) = entry_prev (mem s b)"
  "entry_next (mem (cache_append env a s) b) = entry_next (mem s b)"
  by (simp_all add: cache_append_def DequeDict_cache_ensure_capacity_def
      DequeDict_invalidate_cache_def Let_def split: option.splits)

lemma cache_inv_append:
  assumes c: "cache_inv s as" and a: "a \<notin> set as"
  shows "cache_inv (cache_append env a s) (as @ [a])"
proof (cases "index_cache s")
  case None
  then show ?thesis by (simp add: cache_append_def cache_inv_def)
next
  case (Some arr)
  from c Some have b: "0 \<le> cache_offset s" "cache_offset s \<le> cache_size s"
    "cache_size s \<le> cache_capacity s" "int (length arr) = cache_capacity s"
    and t: "take (nat (cache_size s - cache_offset s)) (drop (nat (cache_offset s)) arr) = as"
    and i: "\<forall>i < length as. entry_cache_idx (mem s (as ! i)) = cache_offset s + int i"
    by (simp_all add: cache_inv_def)
  let ?n = "nat (cache_size s - cache_offset s)" and ?k = "nat (cache_offset s)"
  from t b have la: "length as = ?n" by auto
  have kn: "?k + ?n = nat (cache_size s)" using b by simp
  from c Some show ?thesis
  proof (cases rule: ensure_capacity_cases[where env = env])
    case fail
    then show ?thesis using Some by (simp add: cache_append_def cache_inv_def)
  next
    case (ok arr')
    let ?s' = "s\<lparr>index_cache := Some (arr'[nat (cache_size s) := a]),
        cache_capacity := int (length arr'),
        mem := (mem s)(a := (mem s a)\<lparr>entry_cache_idx := cache_size s\<rparr>),
        cache_size := cache_size s + 1\<rparr>"
    have s': "cache_append env a s = ?s'"
      using Some ok(1) by (simp add: cache_append_def)
    have "take (Suc ?n) (drop ?k (arr'[?k + ?n := a])) = take ?n (drop ?k arr) @ [a]"
      using ok b by (intro take_drop_snoc) (simp_all add: kn)
    then have t': "take (nat (cache_size s + 1 - cache_offset s))
        (drop ?k (arr'[nat (cache_size s) := a])) = as @ [a]"
      using t b by (simp add: kn Suc_nat_eq_nat_zadd1 algebra_simps)
    have i': "\<forall>j < length (as @ [a]).
        entry_cache_idx (mem ?s' ((as @ [a]) ! j)) = cache_offset s + int j"
    proof (intro allI impI)
      fix j assume j: "j < length (as @ [a])"
      show "entry_cache_idx (mem ?s' ((as @ [a]) ! j)) = cache_offset s + int j"
      proof (cases "j < length as")
        case True
        then have "as ! j \<noteq> a" using a nth_mem by metis
        with True i show ?thesis by (simp add: nth_append)
      next
        case False
        with j have "j = length as" by simp
        then show ?thesis using la b by (simp add: nth_append)
      qed
    qed
    show ?thesis
      unfolding s' cache_inv_def using b ok(2) t' i' by simp
  qed
qed

section \<open>The operations on well-formed states\<close>

subsection \<open>Assignment\<close>

lemma setitem_update:
  "dict s k = Some a \<Longrightarrow>
     DequeDict_setitem env s k (Some v)
       = (Inr (), s\<lparr>mem := (mem s)(a := (mem s a)\<lparr>entry_value := v\<rparr>)\<rparr>)"
  by (simp add: DequeDict_setitem_def)

lemma dd_inv_set_value:
  assumes "dd_inv s as fs"
  shows "dd_inv (s\<lparr>mem := (mem s)(a := (mem s a)\<lparr>entry_value := v\<rparr>)\<rparr>) as fs"
proof -
  have "core_inv (s\<lparr>mem := (mem s)(a := (mem s a)\<lparr>entry_value := v\<rparr>)\<rparr>) as fs = core_inv s as fs"
    by (rule core_inv_cong) simp_all
  moreover have "cache_inv (s\<lparr>mem := (mem s)(a := (mem s a)\<lparr>entry_value := v\<rparr>)\<rparr>) as
      = cache_inv s as"
    by (rule cache_inv_cong) simp_all
  ultimately show ?thesis using assms by (simp add: dd_inv_def)
qed

lemma setitem_alloc_fail:
  "dict s k = None \<Longrightarrow> entry_alloc env s = (None, s1) \<Longrightarrow>
     DequeDict_setitem env s k (Some v) = (Inl MemoryError, s)"
  using entry_alloc_None[of env s s1] by (simp add: DequeDict_setitem_def)

lemma setitem_new_state:
  assumes "dict s k = None" "entry_alloc env s = (Some a, s1)" "capsule_ok env" "dict_set_ok env"
  shows "DequeDict_setitem env s k (Some v)
           = (Inr (), (cache_append env a (link_at_tail a k v s1))\<lparr>dict := (dict s)(k \<mapsto> a)\<rparr>)"
  using assms entry_alloc_fields[OF assms(2)]
  by (simp add: DequeDict_setitem_def store_capsule_def)

lemma setitem_new_failure_state:
  assumes "dict s k = None" "entry_alloc env s = (Some a, s1)"
    "\<not> (capsule_ok env \<and> dict_set_ok env)"
  shows "DequeDict_setitem env s k (Some v)
           = (Inl MemoryError, entry_free a (cache_append env a (link_at_tail a k v s1)))"
  using assms by (auto simp: DequeDict_setitem_def store_capsule_def)

lemma dd_inv_setitem_new:
  fixes s :: "('k, 'v) DequeDictObject" and v :: 'v
  assumes inv: "dd_inv s as fs" and k: "dict s k = None" and fresh: "malloc_fresh env s"
    and al: "entry_alloc env s = (Some a, s1)"
  defines "s' \<equiv> (cache_append env a (link_at_tail a k v s1))\<lparr>dict := (dict s)(k \<mapsto> a)\<rparr>"
  shows "\<exists>fs'. dd_inv s' (as @ [a]) fs'"
    and "a \<notin> set as"
    and "entry_key (mem s' a) = k" and "entry_value (mem s' a) = v"
    and "\<And>b. b \<noteq> a \<Longrightarrow> entry_key (mem s' b) = entry_key (mem s b)"
    and "\<And>b. b \<noteq> a \<Longrightarrow> entry_value (mem s' b) = entry_value (mem s b)"
proof -
  note f = entry_alloc_fields[OF al]
  from entry_alloc_Some[OF dd_inv_core[OF inv] fresh al]
  obtain fs' where c1: "core_inv s1 as fs'" and a: "a \<notin> set as" "a \<notin> set fs'"
    "a \<in> allocated s1" by auto
  have l1: "links_inv s1 as" by (rule core_inv_links[OF c1])
  note m = link_at_tail_mem[OF l1 a(1)]
  show "a \<notin> set as" by fact
  show "entry_key (mem s' a) = k" "entry_value (mem s' a) = v"
    by (simp_all add: s'_def m(1))
  show "\<And>b. b \<noteq> a \<Longrightarrow> entry_key (mem s' b) = entry_key (mem s b)"
    "\<And>b. b \<noteq> a \<Longrightarrow> entry_value (mem s' b) = entry_value (mem s b)"
    by (simp_all add: s'_def m f)
  have core: "core_inv s' (as @ [a]) fs'"
  proof (rule core_inv_insert[OF c1 a _ links_link_at_tail[OF l1 a(1), of k v]])
    show "dict s1 k = None" using k by (simp add: f)
    show "entry_key (mem s' a) = k" by (simp add: s'_def m(1))
    show "\<And>b. b \<notin> set as \<Longrightarrow> b \<noteq> a \<Longrightarrow> entry_next (mem s' b) = entry_next (mem s1 b)"
      by (simp add: s'_def m(6))
  qed (simp_all add: s'_def m f)
  have "cache_inv (link_at_tail a k v s1) as = cache_inv s as"
  proof (rule cache_inv_cong)
    fix b assume "b \<in> set as"
    with a(1) have "b \<noteq> a" by auto
    then show "entry_cache_idx (mem (link_at_tail a k v s1) b) = entry_cache_idx (mem s b)"
      by (simp add: m f)
  qed (simp_all add: f)
  with inv have "cache_inv (link_at_tail a k v s1) as" by (simp add: dd_inv_def)
  from cache_inv_append[OF this a(1), of env]
  have "cache_inv (cache_append env a (link_at_tail a k v s1)) (as @ [a])" .
  moreover have "cache_inv s' (as @ [a])
      = cache_inv (cache_append env a (link_at_tail a k v s1)) (as @ [a])"
    by (rule cache_inv_cong) (simp_all add: s'_def)
  ultimately have "cache_inv s' (as @ [a])" by simp
  with core show "\<exists>fs'. dd_inv s' (as @ [a]) fs'" by (auto simp: dd_inv_def)
qed

subsection \<open>Insertion at the head\<close>

lemma appendleft_duplicate:
  "dict s k \<noteq> None \<Longrightarrow> DequeDict_appendleft env s k v = (Inl KeyError, s)"
  by (simp add: DequeDict_appendleft_def)

lemma appendleft_alloc_fail:
  "dict s k = None \<Longrightarrow> entry_alloc env s = (None, s1) \<Longrightarrow>
     DequeDict_appendleft env s k v = (Inl MemoryError, s)"
  using entry_alloc_None[of env s s1] by (simp add: DequeDict_appendleft_def)

lemma appendleft_state:
  assumes "dict s k = None" "entry_alloc env s = (Some a, s1)" "capsule_ok env" "dict_set_ok env"
  shows "DequeDict_appendleft env s k v
           = (Inr (), (DequeDict_invalidate_cache (link_at_head a k v s1))
                        \<lparr>dict := (dict s)(k \<mapsto> a)\<rparr>)"
  using assms entry_alloc_fields[OF assms(2)]
  by (simp add: DequeDict_appendleft_def store_capsule_def)

lemma dd_inv_appendleft:
  fixes s :: "('k, 'v) DequeDictObject" and v :: 'v
  assumes inv: "dd_inv s as fs" and k: "dict s k = None" and fresh: "malloc_fresh env s"
    and al: "entry_alloc env s = (Some a, s1)"
  defines "s' \<equiv> (DequeDict_invalidate_cache (link_at_head a k v s1))\<lparr>dict := (dict s)(k \<mapsto> a)\<rparr>"
  shows "\<exists>fs'. dd_inv s' (a # as) fs'"
    and "a \<notin> set as"
    and "entry_key (mem s' a) = k" and "entry_value (mem s' a) = v"
    and "\<And>b. b \<noteq> a \<Longrightarrow> entry_key (mem s' b) = entry_key (mem s b)"
    and "\<And>b. b \<noteq> a \<Longrightarrow> entry_value (mem s' b) = entry_value (mem s b)"
proof -
  note f = entry_alloc_fields[OF al]
  from entry_alloc_Some[OF dd_inv_core[OF inv] fresh al]
  obtain fs' where c1: "core_inv s1 as fs'" and a: "a \<notin> set as" "a \<notin> set fs'"
    "a \<in> allocated s1" by auto
  have l1: "links_inv s1 as" by (rule core_inv_links[OF c1])
  note m = link_at_head_mem[OF l1 a(1)]
  show "a \<notin> set as" by fact
  show "entry_key (mem s' a) = k" "entry_value (mem s' a) = v"
    by (simp_all add: s'_def m(1))
  show "\<And>b. b \<noteq> a \<Longrightarrow> entry_key (mem s' b) = entry_key (mem s b)"
    "\<And>b. b \<noteq> a \<Longrightarrow> entry_value (mem s' b) = entry_value (mem s b)"
    by (simp_all add: s'_def m f)
  have core: "core_inv s' (a # as) fs'"
  proof (rule core_inv_insert[OF c1 a _ links_link_at_head[OF l1 a(1), of k v]])
    show "dict s1 k = None" using k by (simp add: f)
    show "entry_key (mem s' a) = k" by (simp add: s'_def m(1))
    show "\<And>b. b \<notin> set as \<Longrightarrow> b \<noteq> a \<Longrightarrow> entry_next (mem s' b) = entry_next (mem s1 b)"
      by (simp add: s'_def m(6))
  qed (simp_all add: s'_def m f)
  have "cache_inv s' (a # as)" by (simp add: cache_inv_def s'_def)
  with core show "\<exists>fs'. dd_inv s' (a # as) fs'" by (auto simp: dd_inv_def)
qed

subsection \<open>Removal\<close>

lemma delitem_absent:
  "dict s k = None \<Longrightarrow> DequeDict_setitem env s k None = (Inl KeyError, s)"
  by (simp add: DequeDict_setitem_def)

lemma delitem_state:
  "dict s k = Some a \<Longrightarrow>
     DequeDict_setitem env s k None
       = (Inr (), DequeDict_invalidate_cache (discard_entry a k (unlink_from_list a s)))"
  by (simp add: DequeDict_setitem_def)

lemma pop_key_state:
  "dict s k = Some a \<Longrightarrow>
     DequeDict_pop s (Some k) d
       = (Inr (Value (entry_value (mem s a))),
          DequeDict_invalidate_cache (discard_entry a k (unlink_from_list a s)))"
  by (simp add: DequeDict_pop_def Let_def)

lemma pop_key_absent:
  "dict s k = None \<Longrightarrow>
     DequeDict_pop s (Some k) d = (case d of Some x \<Rightarrow> (Inr x, s) | None \<Rightarrow> (Inl KeyError, s))"
  by (simp add: DequeDict_pop_def)

lemma removed_payload [simp]:
  "entry_key (mem (DequeDict_invalidate_cache (discard_entry a k (unlink_from_list a s))) b)
     = entry_key (mem s b)"
  "entry_value (mem (DequeDict_invalidate_cache (discard_entry a k (unlink_from_list a s))) b)
     = entry_value (mem s b)"
  by simp_all

lemma popleft_state:
  assumes "links_inv s (a # ys)"
  shows "DequeDict_popleft s
           = (Inr (entry_value (mem s a)),
              bump_cache_offset (discard_entry a (entry_key (mem s a)) (unlink_head a s)))"
    and "DequeDict_popleftitem s
           = (Inr (entry_key (mem s a), entry_value (mem s a)),
              bump_cache_offset (discard_entry a (entry_key (mem s a)) (unlink_head a s)))"
  using links_head[OF assms]
  by (simp_all add: DequeDict_popleft_def DequeDict_popleftitem_def Let_def
      unlink_head_eq[OF assms])

lemma pop_last_state:
  assumes "links_inv s (xs @ [a])"
  shows "DequeDict_pop s None d
           = (Inr (Value (entry_value (mem s a))),
              pop_cache_right (discard_entry a (entry_key (mem s a)) (unlink_tail a s)))"
    and "DequeDict_popitem s
           = (Inr (entry_key (mem s a), entry_value (mem s a)),
              pop_cache_right (discard_entry a (entry_key (mem s a)) (unlink_tail a s)))"
  using links_tail[OF assms]
  by (simp_all add: DequeDict_pop_def DequeDict_popitem_def Let_def
      unlink_tail_eq[OF assms])

lemma pop_empty:
  assumes "links_inv s []"
  shows "DequeDict_popleft s = (Inl IndexError, s)"
    and "DequeDict_popleftitem s = (Inl KeyError, s)"
    and "DequeDict_popitem s = (Inl KeyError, s)"
    and "DequeDict_pop s None d = (case d of Some x \<Rightarrow> (Inr x, s) | None \<Rightarrow> (Inl IndexError, s))"
  using links_head[OF assms] links_tail[OF assms]
  by (simp_all add: DequeDict_popleft_def DequeDict_popleftitem_def DequeDict_popitem_def
      DequeDict_pop_def)

subsection \<open>Moving an entry to an end\<close>

lemma relink_at_tail_fields [simp]:
  "dict (relink_at_tail a s) = dict s"
  "allocated (relink_at_tail a s) = allocated s"
  "freelist (relink_at_tail a s) = freelist s"
  "freelist_size (relink_at_tail a s) = freelist_size s"
  "dd_size (relink_at_tail a s) = dd_size s"
  "tail (relink_at_tail a s) = Some a"
  "index_cache (relink_at_tail a s) = index_cache s"
  "cache_size (relink_at_tail a s) = cache_size s"
  "cache_capacity (relink_at_tail a s) = cache_capacity s"
  "cache_offset (relink_at_tail a s) = cache_offset s"
  "entry_key (mem (relink_at_tail a s) b) = entry_key (mem s b)"
  "entry_value (mem (relink_at_tail a s) b) = entry_value (mem s b)"
  "entry_cache_idx (mem (relink_at_tail a s) b) = entry_cache_idx (mem s b)"
  by (simp_all add: relink_at_tail_def Let_def split: option.splits)

lemma relink_at_head_fields [simp]:
  "dict (relink_at_head a s) = dict s"
  "allocated (relink_at_head a s) = allocated s"
  "freelist (relink_at_head a s) = freelist s"
  "freelist_size (relink_at_head a s) = freelist_size s"
  "dd_size (relink_at_head a s) = dd_size s"
  "head (relink_at_head a s) = Some a"
  "index_cache (relink_at_head a s) = index_cache s"
  "cache_size (relink_at_head a s) = cache_size s"
  "cache_capacity (relink_at_head a s) = cache_capacity s"
  "cache_offset (relink_at_head a s) = cache_offset s"
  "entry_key (mem (relink_at_head a s) b) = entry_key (mem s b)"
  "entry_value (mem (relink_at_head a s) b) = entry_value (mem s b)"
  "entry_cache_idx (mem (relink_at_head a s) b) = entry_cache_idx (mem s b)"
  by (simp_all add: relink_at_head_def Let_def split: option.splits)

lemma relink_at_tail_mem:
  assumes "links_inv s as" "a \<notin> set as"
  shows "b \<notin> set as \<Longrightarrow> b \<noteq> a \<Longrightarrow> mem (relink_at_tail a s) b = mem s b"
    and "nexts (mem (relink_at_tail a s)) =
           (if as = [] then (nexts (mem s))(a := None)
            else ((nexts (mem s))(a := None))(last as := Some a))"
    and "prevs (mem (relink_at_tail a s)) = (prevs (mem s))(a := tail s)"
    and "head (relink_at_tail a s) = (if as = [] then Some a else head s)"
proof -
  have t: "tail s = (if as = [] then None else Some (last as))" by (rule links_tail[OF assms(1)])
  have ne: "as \<noteq> [] \<Longrightarrow> last as \<noteq> a" using assms(2) last_in_set by metis
  have in_as: "as \<noteq> [] \<Longrightarrow> last as \<in> set as" by simp
  show "b \<notin> set as \<Longrightarrow> b \<noteq> a \<Longrightarrow> mem (relink_at_tail a s) b = mem s b"
    using in_as by (cases "as = []") (auto simp: relink_at_tail_def Let_def t)
  show "nexts (mem (relink_at_tail a s)) =
           (if as = [] then (nexts (mem s))(a := None)
            else ((nexts (mem s))(a := None))(last as := Some a))"
    using ne by (cases "as = []") (auto simp: relink_at_tail_def Let_def t nexts_def fun_eq_iff)
  show "prevs (mem (relink_at_tail a s)) = (prevs (mem s))(a := tail s)"
    using ne by (cases "as = []") (auto simp: relink_at_tail_def Let_def t prevs_def fun_eq_iff)
  show "head (relink_at_tail a s) = (if as = [] then Some a else head s)"
    by (cases "as = []") (simp_all add: relink_at_tail_def Let_def t)
qed

lemma relink_at_head_mem:
  assumes "links_inv s as" "a \<notin> set as"
  shows "b \<notin> set as \<Longrightarrow> b \<noteq> a \<Longrightarrow> mem (relink_at_head a s) b = mem s b"
    and "prevs (mem (relink_at_head a s)) =
           (if as = [] then (prevs (mem s))(a := None)
            else ((prevs (mem s))(a := None))(hd as := Some a))"
    and "nexts (mem (relink_at_head a s)) = (nexts (mem s))(a := head s)"
    and "tail (relink_at_head a s) = (if as = [] then Some a else tail s)"
proof -
  have t: "head s = (if as = [] then None else Some (hd as))" by (rule links_head[OF assms(1)])
  have ne: "as \<noteq> [] \<Longrightarrow> hd as \<noteq> a" using assms(2) hd_in_set by metis
  have in_as: "as \<noteq> [] \<Longrightarrow> hd as \<in> set as" by simp
  show "b \<notin> set as \<Longrightarrow> b \<noteq> a \<Longrightarrow> mem (relink_at_head a s) b = mem s b"
    using in_as by (cases "as = []") (auto simp: relink_at_head_def Let_def t)
  show "prevs (mem (relink_at_head a s)) =
           (if as = [] then (prevs (mem s))(a := None)
            else ((prevs (mem s))(a := None))(hd as := Some a))"
    using ne by (cases "as = []") (auto simp: relink_at_head_def Let_def t prevs_def fun_eq_iff)
  show "nexts (mem (relink_at_head a s)) = (nexts (mem s))(a := head s)"
    using ne by (cases "as = []") (auto simp: relink_at_head_def Let_def t nexts_def fun_eq_iff)
  show "tail (relink_at_head a s) = (if as = [] then Some a else tail s)"
    by (cases "as = []") (simp_all add: relink_at_head_def Let_def t)
qed

lemma links_relink_at_tail:
  assumes "links_inv s as" "a \<notin> set as"
  shows "links_inv (relink_at_tail a s) (as @ [a])"
proof -
  from assms have f: "path (nexts (mem s)) (head s) as None"
    and b: "path (prevs (mem s)) (tail s) (rev as) None" and d: "distinct as"
    by (simp_all add: links_inv_def)
  from assms(2) have a': "a \<notin> set (rev as)" by simp
  show ?thesis
    unfolding links_inv_def relink_at_tail_mem(2-4)[OF assms] relink_at_tail_fields
    using path_snoc_new[OF f d assms(2)] path_cons_new[OF b a'] d assms(2)
    by simp
qed

lemma links_relink_at_head:
  assumes "links_inv s as" "a \<notin> set as"
  shows "links_inv (relink_at_head a s) (a # as)"
proof -
  from assms have f: "path (nexts (mem s)) (head s) as None"
    and b: "path (prevs (mem s)) (tail s) (rev as) None" and d: "distinct (rev as)"
    by (simp_all add: links_inv_def)
  from assms(2) have a': "a \<notin> set (rev as)" by simp
  show ?thesis
    unfolding links_inv_def relink_at_head_mem(2-4)[OF assms] relink_at_head_fields
    using path_snoc_new[OF b d a'] path_cons_new[OF f assms(2)] d assms(2)
    by (cases "as = []") (simp_all add: last_rev)
qed

lemma dict_inv_set_cong: "set as' = set as \<Longrightarrow> dict_inv s as' = dict_inv s as"
  by (simp add: dict_inv_def)

lemma free_inv_set_cong: "set as' = set as \<Longrightarrow> free_inv s as' fs = free_inv s as fs"
  by (simp add: free_inv_def)

text \<open>
  Unlinking \<open>a\<close> and linking it again at an end: \<open>s2\<close> is the state after the relink,
  \<open>as'\<close> the new order.
\<close>

lemma core_inv_moved:
  assumes inv: "core_inv s (xs @ a # ys) fs"
    and l2: "links_inv s2 as'" and as': "set as' = set (xs @ a # ys)"
      "length as' = length (xs @ a # ys)"
    and eqs: "dict s2 = dict s" "dd_size s2 = dd_size s" "allocated s2 = allocated s"
      "freelist s2 = freelist s"
    and keys: "\<And>b. entry_key (mem s2 b) = entry_key (mem s b)"
    and frame: "\<And>b. b \<notin> set (xs @ a # ys) \<Longrightarrow> mem s2 b = mem s b"
  shows "core_inv s2 as' fs"
proof -
  from inv have sz: "dd_size s = int (length (xs @ a # ys))" and di: "dict_inv s (xs @ a # ys)"
    and fi: "free_inv s (xs @ a # ys) fs" by (simp_all add: core_inv_def)
  have "dict_inv s2 (xs @ a # ys) = dict_inv s (xs @ a # ys)"
    by (rule dict_inv_cong) (simp_all add: eqs keys)
  with di have 1: "dict_inv s2 as'" by (simp add: dict_inv_set_cong[OF as'(1)])
  from fi have "set fs \<inter> set (xs @ a # ys) = {}" by (simp add: free_inv_def)
  then have "\<And>b. b \<in> set fs \<Longrightarrow> mem s2 b = mem s b" by (intro frame) auto
  then have "free_inv s2 (xs @ a # ys) fs = free_inv s (xs @ a # ys) fs"
    by (intro free_inv_cong) (simp_all add: eqs)
  with fi have 2: "free_inv s2 as' fs" by (simp add: free_inv_set_cong[OF as'(1)])
  from l2 1 2 sz show ?thesis by (simp add: core_inv_def eqs as'(2))
qed

lemma links_inv_invalidate [simp]:
  "links_inv (DequeDict_invalidate_cache s) as = links_inv s as"
  by (rule links_inv_cong) simp_all

lemma move_to_end_absent:
  "dict s k = None \<Longrightarrow> DequeDict_move_to_end s k l = (Inl KeyError, s)"
  by (simp add: DequeDict_move_to_end_def)

lemma move_to_end_payload [simp]:
  "entry_key (mem (snd (DequeDict_move_to_end s k l)) b) = entry_key (mem s b)"
  "entry_value (mem (snd (DequeDict_move_to_end s k l)) b) = entry_value (mem s b)"
  "dict (snd (DequeDict_move_to_end s k l)) = dict s"
  "dd_size (snd (DequeDict_move_to_end s k l)) = dd_size s"
  by (simp_all add: DequeDict_move_to_end_def Let_def split: option.splits)

lemma remove1_last: "distinct as \<Longrightarrow> as \<noteq> [] \<Longrightarrow> remove1 (last as) as @ [last as] = as"
  by (induction as) auto

lemma remove1_hd: "as \<noteq> [] \<Longrightarrow> hd as # remove1 (hd as) as = as"
  by (cases as) auto

lemma dd_inv_move_to_end:
  assumes inv: "dd_inv s as fs" and k: "dict s k = Some a"
  shows "fst (DequeDict_move_to_end s k l) = Inr ()"
    and "\<exists>fs'. dd_inv (snd (DequeDict_move_to_end s k l))
           (if l then remove1 a as @ [a] else a # remove1 a as) fs'"
proof -
  show "fst (DequeDict_move_to_end s k l) = Inr ()"
    using k by (simp add: DequeDict_move_to_end_def Let_def)
  have core: "core_inv s as fs" by (rule dd_inv_core[OF inv])
  have li: "links_inv s as" by (rule core_inv_links[OF core])
  have d: "distinct as" by (rule core_inv_distinct[OF core])
  from core_inv_lookup[OF core k] have a: "a \<in> set as" by simp
  then have ne: "as \<noteq> []" by auto
  have hd: "head s = Some (hd as)" and tl: "tail s = Some (last as)"
    using links_head[OF li] links_tail[OF li] ne by simp_all
  let ?as' = "if l then remove1 a as @ [a] else a # remove1 a as"
  show "\<exists>fs'. dd_inv (snd (DequeDict_move_to_end s k l)) ?as' fs'"
  proof (cases "(l \<and> Some a = tail s) \<or> (\<not> l \<and> Some a = head s)")
    case True
    then have "?as' = as" using hd tl d ne by (auto simp: remove1_last remove1_hd)
    moreover from True k have "snd (DequeDict_move_to_end s k l) = s"
      by (simp add: DequeDict_move_to_end_def)
    ultimately show ?thesis using inv by auto
  next
    case False
    from a obtain xs ys where as: "as = xs @ a # ys" by (auto simp: in_set_conv_decomp)
    from d as have na: "a \<notin> set xs" "a \<notin> set ys" by auto
    then have r: "remove1 a as = xs @ ys" by (simp add: as remove1_append)
    from core as have core': "core_inv s (xs @ a # ys) fs" by simp
    from li as have li': "links_inv s (xs @ a # ys)" by simp
    let ?s1 = "DequeDict_invalidate_cache (unlink_from_list a s)"
    have l1: "links_inv ?s1 (xs @ ys)" using links_unlink[OF li'] by simp
    have na': "a \<notin> set (xs @ ys)" using na by simp
    have fr1: "\<And>b. b \<notin> set (xs @ a # ys) \<Longrightarrow> mem ?s1 b = mem s b"
      by (simp add: unlink_from_list_other[OF li'])
    show ?thesis
    proof (cases l)
      case True
      with False k have st: "snd (DequeDict_move_to_end s k l) = relink_at_tail a ?s1"
        by (simp add: DequeDict_move_to_end_def Let_def)
      have "core_inv (relink_at_tail a ?s1) ((xs @ ys) @ [a]) fs"
      proof (rule core_inv_moved[OF core' links_relink_at_tail[OF l1 na']])
        show "\<And>b. b \<notin> set (xs @ a # ys) \<Longrightarrow> mem (relink_at_tail a ?s1) b = mem s b"
          using relink_at_tail_mem(1)[OF l1 na'] fr1 by auto
      qed auto
      then have "dd_inv (relink_at_tail a ?s1) ((xs @ ys) @ [a]) fs"
        by (simp add: dd_inv_def cache_inv_def)
      with True st r show ?thesis by auto
    next
      case l: False
      with False k have st: "snd (DequeDict_move_to_end s k l) = relink_at_head a ?s1"
        by (simp add: DequeDict_move_to_end_def Let_def)
      have "core_inv (relink_at_head a ?s1) (a # xs @ ys) fs"
      proof (rule core_inv_moved[OF core' links_relink_at_head[OF l1 na']])
        show "\<And>b. b \<notin> set (xs @ a # ys) \<Longrightarrow> mem (relink_at_head a ?s1) b = mem s b"
          using relink_at_head_mem(1)[OF l1 na'] fr1 by auto
      qed auto
      then have "dd_inv (relink_at_head a ?s1) (a # xs @ ys) fs"
        by (simp add: dd_inv_def cache_inv_def)
      with l st r show ?thesis by auto
    qed
  qed
qed

subsection \<open>Traversals\<close>

lemma collect_path:
  assumes "path h c as None" "\<And>a. next_fn (Some a) = Some (f a, h a)" "next_fn None = None"
  shows "collect next_fn c = Some (map f as)"
  using assms(1)
proof (induction as arbitrary: c)
  case Nil
  then show ?case by (simp add: assms(3))
next
  case (Cons a as)
  then have c: "c = Some a" and p: "path h (h a) as None" by simp_all
  from Cons.IH[OF p] show ?case by (simp add: c assms(2))
qed

lemma list_iter_inv:
  assumes "links_inv s as"
  shows "list_iter s = Some (map (\<lambda>a. Key (entry_key (mem s a))) as)"
  unfolding list_iter_def
  by (rule collect_path[where h = "nexts (mem s)"])
     (use assms in \<open>simp_all add: links_inv_def DequeDictIter_next_def nexts_def\<close>)

lemma list_reversed_inv:
  assumes "links_inv s as"
  shows "list_reversed s = Some (map (\<lambda>a. Key (entry_key (mem s a))) (rev as))"
  unfolding list_reversed_def
  by (rule collect_path[where h = "prevs (mem s)"])
     (use assms in \<open>simp_all add: links_inv_def DequeDictRevIter_next_def prevs_def\<close>)

lemma list_view_inv:
  assumes "links_inv s as"
  shows "list_view kind False s = Some (map (view_obj kind (mem s)) as)"
    and "list_view kind True s = Some (map (view_obj kind (mem s)) (rev as))"
proof -
  show "list_view kind False s = Some (map (view_obj kind (mem s)) as)"
    unfolding list_view_def
    by (rule collect_path[where h = "nexts (mem s)"])
       (use assms in \<open>simp_all add: links_inv_def DequeDictViewIter_next_def nexts_def view_obj_def\<close>)
  show "list_view kind True s = Some (map (view_obj kind (mem s)) (rev as))"
    unfolding list_view_def
    by (rule collect_path[where h = "prevs (mem s)"])
       (use assms in \<open>simp_all add: links_inv_def DequeDictViewIter_next_def prevs_def view_obj_def\<close>)
qed

lemma compare_loop_path:
  assumes "path (nexts m) c as None"
  shows "compare_loop m other c
           = Some (\<forall>a \<in> set as. other (entry_key (m a)) = Some (entry_value (m a)))"
  using assms
proof (induction as arbitrary: c)
  case Nil
  then show ?case by (subst compare_loop.simps) simp
next
  case (Cons a as)
  then have c: "c = Some a" and p: "path (nexts m) (entry_next (m a)) as None"
    by (simp_all add: nexts_def)
  show ?case
    by (subst compare_loop.simps) (auto simp: c Cons.IH[OF p] split: option.splits)
qed

subsection \<open>Rebuilding the cache and positional access\<close>

lemma rebuild_loop_path:
  assumes "path (nexts m) c as None" "distinct as" "i + length as \<le> length arr"
  shows "\<exists>m' arr'. rebuild_loop m arr c i = Some (m', arr') \<and> length arr' = length arr
           \<and> (\<forall>j < length as. arr' ! (i + j) = as ! j
                  \<and> entry_cache_idx (m' (as ! j)) = int (i + j))
           \<and> (\<forall>p < i. arr' ! p = arr ! p)
           \<and> (\<forall>b. entry_key (m' b) = entry_key (m b) \<and> entry_value (m' b) = entry_value (m b)
                  \<and> entry_prev (m' b) = entry_prev (m b) \<and> entry_next (m' b) = entry_next (m b))
           \<and> (\<forall>b. b \<notin> set as \<longrightarrow> m' b = m b)"
  using assms
proof (induction as arbitrary: m arr c i)
  case Nil
  then show ?case by (subst rebuild_loop.simps) simp
next
  case (Cons a as)
  let ?m1 = "m(a := (m a)\<lparr>entry_cache_idx := int i\<rparr>)" and ?arr1 = "arr[i := a]"
  from Cons.prems have c: "c = Some a" and p: "path (nexts m) (entry_next (m a)) as None"
    and d: "distinct as" "a \<notin> set as" and len: "Suc i + length as \<le> length ?arr1" "i < length arr"
    by (simp_all add: nexts_def)
  have "nexts ?m1 = nexts m" by (simp add: nexts_def fun_eq_iff)
  with p have p1: "path (nexts ?m1) (entry_next (m a)) as None" by simp
  from Cons.IH[OF p1 d(1) len(1)]
  obtain m' arr' where r: "rebuild_loop ?m1 ?arr1 (entry_next (m a)) (Suc i) = Some (m', arr')"
    and l: "length arr' = length ?arr1"
    and j: "\<forall>j < length as. arr' ! (Suc i + j) = as ! j
              \<and> entry_cache_idx (m' (as ! j)) = int (Suc i + j)"
    and pre: "\<forall>p < Suc i. arr' ! p = ?arr1 ! p"
    and pay: "\<forall>b. entry_key (m' b) = entry_key (?m1 b) \<and> entry_value (m' b) = entry_value (?m1 b)
                  \<and> entry_prev (m' b) = entry_prev (?m1 b) \<and> entry_next (m' b) = entry_next (?m1 b)"
    and out: "\<forall>b. b \<notin> set as \<longrightarrow> m' b = ?m1 b"
    by blast
  have run: "rebuild_loop m arr c i = Some (m', arr')"
    by (subst rebuild_loop.simps) (simp add: c len(2) r)
  have at_j: "\<forall>j < length (a # as). arr' ! (i + j) = (a # as) ! j
                \<and> entry_cache_idx (m' ((a # as) ! j)) = int (i + j)"
  proof (intro allI impI)
    fix j assume jl: "j < length (a # as)"
    show "arr' ! (i + j) = (a # as) ! j \<and> entry_cache_idx (m' ((a # as) ! j)) = int (i + j)"
    proof (cases j)
      case 0
      from pre len(2) have "arr' ! i = a" by simp
      moreover from out d(2) have "m' a = ?m1 a" by simp
      ultimately show ?thesis using 0 by simp
    next
      case (Suc j')
      with jl j show ?thesis by simp
    qed
  qed
  have pre': "\<forall>p < i. arr' ! p = arr ! p" using pre by simp
  have pay': "\<forall>b. entry_key (m' b) = entry_key (m b) \<and> entry_value (m' b) = entry_value (m b)
                  \<and> entry_prev (m' b) = entry_prev (m b) \<and> entry_next (m' b) = entry_next (m b)"
    using pay by simp
  have out': "\<forall>b. b \<notin> set (a # as) \<longrightarrow> m' b = m b" using out by simp
  from run l at_j pre' pay' out' show ?case by simp
qed

lemma nth_take_drop_eq:
  "\<lbrakk>length arr = length as; \<forall>j < length as. arr ! j = as ! j\<rbrakk> \<Longrightarrow> arr = as"
  by (simp add: list_eq_iff_nth_eq)

text \<open>The state \<^verbatim>\<open>DequeDict_rebuild_cache\<close> returns on a well-formed state.\<close>

lemma rebuild_cache_inv:
  assumes inv: "core_inv s as fs"
  shows "\<exists>rc s'. DequeDict_rebuild_cache env s = Some (rc, s') \<and> dd_inv s' as fs
           \<and> (rc = 0 \<or> rc = - 1)
           \<and> (rc = - 1 \<longleftrightarrow> as \<noteq> [] \<and> \<not> cache_alloc_ok env)
           \<and> (index_cache s' = None \<longleftrightarrow> as = [] \<or> \<not> cache_alloc_ok env)
           \<and> dict s' = dict s \<and> head s' = head s \<and> tail s' = tail s \<and> dd_size s' = dd_size s
           \<and> (\<forall>b. entry_key (mem s' b) = entry_key (mem s b)
                  \<and> entry_value (mem s' b) = entry_value (mem s b))"
proof -
  let ?s0 = "DequeDict_invalidate_cache s"
  have sz: "dd_size s = int (length as)" by (rule core_inv_size[OF inv])
  have li: "links_inv s as" by (rule core_inv_links[OF inv])
  show ?thesis
  proof (cases "as = []")
    case True
    with sz have "DequeDict_rebuild_cache env s = Some (0, ?s0)"
      by (simp add: DequeDict_rebuild_cache_def)
    moreover have "dd_inv ?s0 as fs" using inv by (simp add: dd_inv_def)
    ultimately show ?thesis using True by simp
  next
    case False
    with sz have nz: "dd_size s \<noteq> 0" by simp
    show ?thesis
    proof (cases "cache_alloc_ok env")
      case no: False
      let ?s1 = "?s0\<lparr>cache_capacity := dd_size s\<rparr>"
      from nz no have "DequeDict_rebuild_cache env s = Some (- 1, ?s1)"
        by (simp add: DequeDict_rebuild_cache_def Let_def)
      moreover have "core_inv ?s1 as fs = core_inv s as fs"
        by (rule core_inv_cong) simp_all
      then have "dd_inv ?s1 as fs" using inv by (simp add: dd_inv_def cache_inv_def)
      ultimately show ?thesis using False no by simp
    next
      case True
      let ?arr0 = "replicate (nat (dd_size s)) (0::nat)"
      from li have p: "path (nexts (mem s)) (head s) as None" and d: "distinct as"
        by (simp_all add: links_inv_def)
      have len: "0 + length as \<le> length ?arr0" using sz by simp
      from rebuild_loop_path[OF p d len]
      obtain m' arr' where r: "rebuild_loop (mem s) ?arr0 (head s) 0 = Some (m', arr')"
        and l: "length arr' = length ?arr0"
        and j: "\<forall>j < length as. arr' ! (0 + j) = as ! j
                  \<and> entry_cache_idx (m' (as ! j)) = int (0 + j)"
        and pay: "\<forall>b. entry_key (m' b) = entry_key (mem s b)
                  \<and> entry_value (m' b) = entry_value (mem s b)
                  \<and> entry_prev (m' b) = entry_prev (mem s b)
                  \<and> entry_next (m' b) = entry_next (mem s b)"
        by blast
      let ?s' = "s\<lparr>index_cache := Some arr', cache_size := dd_size s,
          cache_capacity := dd_size s, cache_offset := 0, mem := m'\<rparr>"
      have st: "DequeDict_rebuild_cache env s = Some (0, ?s')"
        using nz True r
        by (simp add: DequeDict_rebuild_cache_def Let_def DequeDict_invalidate_cache_def)
      have "arr' = as" using l j sz by (intro nth_take_drop_eq) simp_all
      then have "cache_inv ?s' as" using sz j by (simp add: cache_inv_def)
      moreover have "core_inv ?s' as fs = core_inv s as fs"
        by (rule core_inv_cong) (simp_all add: pay)
      ultimately have "dd_inv ?s' as fs" using inv by (simp add: dd_inv_def)
      with st False True pay show ?thesis by simp
    qed
  qed
qed

lemma at_cached_inv:
  assumes c: "cache_inv s as" and arr: "index_cache s = Some arr"
  shows "at_cached s arr index =
           (if norm_index (int (length as)) index < 0
               \<or> norm_index (int (length as)) index \<ge> int (length as)
            then Inl IndexError
            else Inr (entry_value (mem s (as ! nat (norm_index (int (length as)) index)))))"
proof -
  let ?n = "nat (cache_size s - cache_offset s)" and ?k = "nat (cache_offset s)"
  from c arr have b: "0 \<le> cache_offset s" "cache_offset s \<le> cache_size s"
    "cache_size s \<le> cache_capacity s" "int (length arr) = cache_capacity s"
    and t: "take ?n (drop ?k arr) = as"
    by (simp_all add: cache_inv_def)
  from t b have la: "int (length as) = cache_size s - cache_offset s" by auto
  let ?i = "norm_index (int (length as)) index"
  show ?thesis
  proof (cases "?i < 0 \<or> ?i \<ge> int (length as)")
    case True
    then show ?thesis by (auto simp: at_cached_def Let_def la norm_index_def)
  next
    case False
    then have r: "0 \<le> ?i" "nat ?i < length as" by auto
    from r(2) have "as ! nat ?i = take ?n (drop ?k arr) ! nat ?i" by (simp add: t)
    also have "\<dots> = arr ! (?k + nat ?i)" using r la b by simp
    also have "?k + nat ?i = nat (cache_offset s + ?i)" using r b by simp
    finally have "arr ! nat (cache_offset s + ?i) = as ! nat ?i" by simp
    with False show ?thesis by (auto simp: at_cached_def Let_def la norm_index_def)
  qed
qed

lemma at_overflow:
  "\<not> fits_ssize_t index \<Longrightarrow> DequeDict_at env s index = Some (Inl OverflowError, s)"
  by (simp add: DequeDict_at_def)

lemma at_inv:
  assumes inv: "dd_inv s as fs" and fit: "fits_ssize_t index"
  shows "\<exists>r s'. DequeDict_at env s index = Some (r, s') \<and> dd_inv s' as fs
           \<and> dict s' = dict s \<and> head s' = head s \<and> tail s' = tail s \<and> dd_size s' = dd_size s
           \<and> (\<forall>b. entry_key (mem s' b) = entry_key (mem s b)
                  \<and> entry_value (mem s' b) = entry_value (mem s b))
           \<and> (index_cache s' = None \<longleftrightarrow>
                 index_cache s = None \<and> (as = [] \<or> \<not> cache_alloc_ok env))
           \<and> r = (if index_cache s = None \<and> as \<noteq> [] \<and> \<not> cache_alloc_ok env
                   then Inl MemoryError
                   else if norm_index (int (length as)) index < 0
                          \<or> norm_index (int (length as)) index \<ge> int (length as)
                   then Inl IndexError
                   else Inr (entry_value (mem s (as ! nat (norm_index (int (length as)) index)))))"
proof (cases "index_cache s")
  case (Some arr)
  from inv have c: "cache_inv s as" by (simp add: dd_inv_def)
  have "DequeDict_at env s index = Some (at_cached s arr index, s)"
    by (simp add: DequeDict_at_def fit Some)
  with inv Some at_cached_inv[OF c Some, of index] show ?thesis by simp
next
  case None
  from rebuild_cache_inv[OF dd_inv_core[OF inv], of env]
  obtain rc s' where r: "DequeDict_rebuild_cache env s = Some (rc, s')"
    and inv': "dd_inv s' as fs" and rc: "rc = 0 \<or> rc = - 1"
    and rcm: "rc = - 1 \<longleftrightarrow> as \<noteq> [] \<and> \<not> cache_alloc_ok env"
    and ic: "index_cache s' = None \<longleftrightarrow> as = [] \<or> \<not> cache_alloc_ok env"
    and f: "dict s' = dict s" "head s' = head s" "tail s' = tail s" "dd_size s' = dd_size s"
    and pay: "\<forall>b. entry_key (mem s' b) = entry_key (mem s b)
                  \<and> entry_value (mem s' b) = entry_value (mem s b)"
    by (elim exE conjE) (rule that)
  from inv' have c': "cache_inv s' as" by (simp add: dd_inv_def)
  show ?thesis
  proof (cases "rc = - 1")
    case True
    with r None have "DequeDict_at env s index = Some (Inl MemoryError, s')"
      by (simp add: DequeDict_at_def fit)
    with True rcm inv' f pay None ic show ?thesis by simp
  next
    case False
    with rc have rc0: "rc = 0" by simp
    show ?thesis
    proof (cases "index_cache s'")
      case n: None
      with ic rcm False have e: "as = []" by auto
      from r None rc0 n have "DequeDict_at env s index = Some (Inl IndexError, s')"
        by (simp add: DequeDict_at_def fit)
      with e inv' f pay n None show ?thesis by (simp add: norm_index_def)
    next
      case (Some arr)
      from r None rc0 Some have "DequeDict_at env s index = Some (at_cached s' arr index, s')"
        by (simp add: DequeDict_at_def fit)
      moreover from rcm False have "\<not> (as \<noteq> [] \<and> \<not> cache_alloc_ok env)" by simp
      ultimately show ?thesis
        using at_cached_inv[OF c' Some, of index] inv' f pay ic Some None by auto
    qed
  qed
qed

subsection \<open>Clearing\<close>

lemma clear_loop_path:
  assumes "path (nexts (mem s)) c as None" "distinct as" "free_inv s as fs"
  shows "\<exists>s' fs'. clear_loop s c = Some s' \<and> free_inv s' [] fs'
           \<and> dict s' = dict s \<and> head s' = head s \<and> tail s' = tail s \<and> dd_size s' = dd_size s
           \<and> index_cache s' = index_cache s"
  using assms
proof (induction as arbitrary: s c fs)
  case Nil
  then show ?case by (subst clear_loop.simps) auto
next
  case (Cons a as)
  from Cons.prems have c: "c = Some a" and p: "path (nexts (mem s)) (entry_next (mem s a)) as None"
    and d: "distinct as" "a \<notin> set as" and fi: "free_inv s (a # as) fs"
    by (simp_all add: nexts_def)
  from fi have "free_inv s as fs" by (auto intro: free_inv_subset)
  moreover from fi have "a \<notin> set fs" "a \<in> allocated s" by (auto simp: free_inv_def)
  ultimately obtain fs1 where f1: "free_inv (entry_free a s) as fs1"
    using entry_free_free[of s as fs a] d(2) by auto
  have "path (nexts (mem (entry_free a s))) (entry_next (mem s a)) as None
      = path (nexts (mem s)) (entry_next (mem s a)) as None"
    using d(2) by (intro path_cong) (auto simp: nexts_def entry_free_def)
  with p have p1: "path (nexts (mem (entry_free a s))) (entry_next (mem s a)) as None" by simp
  from Cons.IH[OF p1 d(1) f1]
  obtain s' fs' where "clear_loop (entry_free a s) (entry_next (mem s a)) = Some s'"
    "free_inv s' [] fs'" "dict s' = dict s" "head s' = head s" "tail s' = tail s"
    "dd_size s' = dd_size s" "index_cache s' = index_cache s"
    by auto
  then show ?case by (subst clear_loop.simps) (auto simp: c)
qed

lemma clear_method_inv:
  assumes inv: "core_inv s as fs"
  shows "\<exists>s' fs'. DequeDict_clear_method s = Some s' \<and> dd_inv s' [] fs'"
proof -
  from inv have li: "links_inv s as" and fi: "free_inv s as fs" by (simp_all add: core_inv_def)
  from li have p: "path (nexts (mem s)) (head s) as None" and d: "distinct as"
    by (simp_all add: links_inv_def)
  from clear_loop_path[OF p d fi]
  obtain s1 fs' where r: "clear_loop s (head s) = Some s1" and f: "free_inv s1 [] fs'" by auto
  let ?s' = "DequeDict_invalidate_cache
      (s1\<lparr>dict := Map.empty, head := None, tail := None, dd_size := 0\<rparr>)"
  from r have "DequeDict_clear_method s = Some ?s'" by (simp add: DequeDict_clear_method_def)
  moreover from f have "dd_inv ?s' [] fs'"
    by (simp add: dd_inv_def core_inv_def links_inv_def dict_inv_def free_inv_def cache_inv_def)
  ultimately show ?thesis by auto
qed

subsection \<open>Every call preserves well-formedness\<close>

lemma dd_inv_links: "dd_inv s as fs \<Longrightarrow> links_inv s as"
  by (simp add: dd_inv_def core_inv_def)

lemma setitem_inv:
  assumes inv: "dd_inv s as fs" and fresh: "malloc_fresh env s"
    and ok: "capsule_ok env" "dict_set_ok env"
  shows "\<exists>as' fs'. dd_inv (snd (DequeDict_setitem env s k val)) as' fs'"
proof (cases val)
  case None
  show ?thesis
  proof (cases "dict s k")
    case n: None
    with None inv show ?thesis by (auto simp: delitem_absent)
  next
    case (Some a)
    with None dd_inv_remove_key[OF inv Some] show ?thesis by (auto simp: delitem_state)
  qed
next
  case (Some v)
  show ?thesis
  proof (cases "dict s k")
    case (Some a)
    with \<open>val = Some v\<close> dd_inv_set_value[OF inv, of a v] show ?thesis
      by (auto simp: setitem_update)
  next
    case None
    obtain r s1 where al: "entry_alloc env s = (r, s1)" by (cases "entry_alloc env s")
    show ?thesis
    proof (cases r)
      case n: None
      with al None \<open>val = Some v\<close> inv show ?thesis by (auto simp: setitem_alloc_fail)
    next
      case (Some a)
      with al have al': "entry_alloc env s = (Some a, s1)" by simp
      from dd_inv_setitem_new(1)[OF inv None fresh al', of v]
        setitem_new_state[OF None al' ok, of v] \<open>val = Some v\<close>
      show ?thesis by auto
    qed
  qed
qed

lemma appendleft_inv:
  assumes inv: "dd_inv s as fs" and fresh: "malloc_fresh env s"
    and ok: "capsule_ok env" "dict_set_ok env"
  shows "\<exists>as' fs'. dd_inv (snd (DequeDict_appendleft env s k v)) as' fs'"
proof (cases "dict s k")
  case (Some a)
  with inv show ?thesis by (auto simp: appendleft_duplicate)
next
  case None
  obtain r s1 where al: "entry_alloc env s = (r, s1)" by (cases "entry_alloc env s")
  show ?thesis
  proof (cases r)
    case n: None
    with al None inv show ?thesis by (auto simp: appendleft_alloc_fail)
  next
    case (Some a)
    with al have al': "entry_alloc env s = (Some a, s1)" by simp
    from dd_inv_appendleft(1)[OF inv None fresh al', of v]
      appendleft_state[OF None al' ok, of v]
    show ?thesis by auto
  qed
qed

lemma popleft_inv:
  assumes inv: "dd_inv s as fs"
  shows "\<exists>fs'. dd_inv (snd (DequeDict_popleft s)) (tl as) fs'"
    and "\<exists>fs'. dd_inv (snd (DequeDict_popleftitem s)) (tl as) fs'"
proof -
  have li: "links_inv s as" by (rule dd_inv_links[OF inv])
  show "\<exists>fs'. dd_inv (snd (DequeDict_popleft s)) (tl as) fs'"
  proof (cases as)
    case Nil
    with li inv show ?thesis by (auto simp: pop_empty)
  next
    case (Cons a ys)
    with inv li dd_inv_remove_first[of s a ys fs] show ?thesis by (auto simp: popleft_state)
  qed
  show "\<exists>fs'. dd_inv (snd (DequeDict_popleftitem s)) (tl as) fs'"
  proof (cases as)
    case Nil
    with li inv show ?thesis by (auto simp: pop_empty)
  next
    case (Cons a ys)
    with inv li dd_inv_remove_first[of s a ys fs] show ?thesis by (auto simp: popleft_state)
  qed
qed

lemma popitem_inv:
  assumes inv: "dd_inv s as fs"
  shows "\<exists>fs'. dd_inv (snd (DequeDict_popitem s)) (butlast as) fs'"
    and "\<exists>fs'. dd_inv (snd (DequeDict_pop s None d)) (butlast as) fs'"
proof -
  have li: "links_inv s as" by (rule dd_inv_links[OF inv])
  show "\<exists>fs'. dd_inv (snd (DequeDict_popitem s)) (butlast as) fs'"
  proof (cases as rule: rev_cases)
    case Nil
    with li inv show ?thesis by (auto simp: pop_empty)
  next
    case (snoc xs a)
    with inv li dd_inv_remove_last[of s xs a fs] show ?thesis by (auto simp: pop_last_state)
  qed
  show "\<exists>fs'. dd_inv (snd (DequeDict_pop s None d)) (butlast as) fs'"
  proof (cases as rule: rev_cases)
    case Nil
    with li inv show ?thesis by (auto simp: pop_empty split: option.splits)
  next
    case (snoc xs a)
    with inv li dd_inv_remove_last[of s xs a fs] show ?thesis by (auto simp: pop_last_state)
  qed
qed

lemma pop_key_inv:
  assumes inv: "dd_inv s as fs"
  shows "\<exists>as' fs'. dd_inv (snd (DequeDict_pop s (Some k) d)) as' fs'"
proof (cases "dict s k")
  case None
  with inv show ?thesis by (auto simp: pop_key_absent split: option.splits)
next
  case (Some a)
  with dd_inv_remove_key[OF inv Some] show ?thesis by (auto simp: pop_key_state)
qed

lemma setdefault_inv:
  assumes inv: "dd_inv s as fs" and fresh: "malloc_fresh env s"
    and ok: "capsule_ok env" "dict_set_ok env"
  shows "\<exists>as' fs'. dd_inv (snd (DequeDict_setdefault env s k v)) as' fs'"
proof (cases "dict s k")
  case (Some a)
  with inv show ?thesis by (auto simp: DequeDict_setdefault_def)
next
  case None
  then have "snd (DequeDict_setdefault env s k v) = snd (DequeDict_setitem env s k (Some v))"
    by (simp add: DequeDict_setdefault_def split: prod.splits sum.splits)
  with setitem_inv[OF inv fresh ok] show ?thesis by simp
qed

lemma richcompare_inv:
  assumes "links_inv s as"
  shows "DequeDict_richcompare s other cop =
     Some (if cop \<noteq> Py_EQ \<and> cop \<noteq> Py_NE then NotImplemented
           else (case other of
                   NotMapping \<Rightarrow> (if cop = Py_EQ then Py_False else Py_True)
                 | Mapping n d \<Rightarrow>
                     if n = - 1 then NotImplemented
                     else if (cop = Py_EQ) =
                             (dd_size s = n \<and>
                              (\<forall>a \<in> set as. d (entry_key (mem s a)) = Some (entry_value (mem s a))))
                          then Py_True else Py_False))"
proof -
  from assms have "path (nexts (mem s)) (head s) as None" by (simp add: links_inv_def)
  note compare_loop_path[OF this]
  then show ?thesis
    by (auto simp: DequeDict_richcompare_def split: other_obj.splits bool.splits)
qed

lemma exec_inv:
  assumes inv: "dd_inv s as fs" and fresh: "malloc_fresh env s"
    and ok: "capsule_ok env" "dict_set_ok env"
  shows "\<exists>r s' as' fs'. exec env op s = Some (r, s') \<and> dd_inv s' as' fs'"
proof -
  have li: "links_inv s as" by (rule dd_inv_links[OF inv])
  have same: "\<And>r. exec env op s = Some (r, s) \<Longrightarrow> ?thesis" using inv by blast
  have via: "\<And>r s'. exec env op s = Some (r, s') \<Longrightarrow> \<exists>as' fs'. dd_inv s' as' fs' \<Longrightarrow> ?thesis"
    by blast
  show ?thesis
  proof (cases op)
    case (OpSetItem k v)
    with setitem_inv[OF inv fresh ok, of k "Some v"] show ?thesis
      by (fastforce split: prod.splits)
  next
    case (OpDelItem k)
    with setitem_inv[OF inv fresh ok, of k None] show ?thesis
      by (fastforce split: prod.splits)
  next
    case OpPopLeft
    with popleft_inv(1)[OF inv] show ?thesis by (fastforce split: prod.splits)
  next
    case OpPopLeftItem
    with popleft_inv(2)[OF inv] show ?thesis by (fastforce split: prod.splits)
  next
    case (OpPop key d)
    show ?thesis
    proof (cases key)
      case None
      with OpPop popitem_inv(2)[OF inv, of d] show ?thesis
        by (cases "DequeDict_pop s None d") fastforce
    next
      case (Some k)
      with OpPop pop_key_inv[OF inv, of k d] show ?thesis
        by (cases "DequeDict_pop s (Some k) d") fastforce
    qed
  next
    case OpPopItem
    with popitem_inv(1)[OF inv] show ?thesis by (fastforce split: prod.splits)
  next
    case (OpAppendLeft k v)
    with appendleft_inv[OF inv fresh ok, of k v] show ?thesis by (fastforce split: prod.splits)
  next
    case OpClear
    with clear_method_inv[OF dd_inv_core[OF inv]] show ?thesis by fastforce
  next
    case (OpSetDefault k v)
    with setdefault_inv[OF inv fresh ok, of k v] show ?thesis by (fastforce split: prod.splits)
  next
    case (OpAt index)
    show ?thesis
    proof (cases "fits_ssize_t index")
      case True
      from at_inv[OF inv True, of env] OpAt show ?thesis by fastforce
    next
      case False
      with OpAt inv show ?thesis by (fastforce simp: at_overflow)
    qed
  next
    case (OpMoveToEnd k l)
    show ?thesis
    proof (cases "dict s k")
      case None
      with OpMoveToEnd inv show ?thesis by (fastforce simp: move_to_end_absent)
    next
      case (Some a)
      with OpMoveToEnd dd_inv_move_to_end(2)[OF inv Some, of l] show ?thesis
        by (cases "DequeDict_move_to_end s k l") fastforce
    qed
  next
    case OpIter
    with list_iter_inv[OF li] inv show ?thesis by fastforce
  next
    case OpReversed
    with list_reversed_inv[OF li] inv show ?thesis by fastforce
  next
    case (OpView kind reverse)
    with list_view_inv[OF li, of kind] inv show ?thesis by (cases reverse) fastforce+
  next
    case (OpRichCompare other cop)
    with richcompare_inv[OF li, of other cop] inv show ?thesis by fastforce
  qed (use inv in fastforce)+
qed

lemma run_inv:
  assumes "dd_inv s as fs" "admissible prog s"
  shows "\<exists>rs s' as' fs'. run prog s = Some (rs, s') \<and> dd_inv s' as' fs'"
  using assms
proof (induction prog arbitrary: s as fs)
  case Nil
  then show ?case by auto
next
  case (Cons step prog)
  obtain env op where step: "step = (env, op)" by (cases step)
  from Cons.prems(2) step have fresh: "malloc_fresh env s" and ok: "capsule_ok env" "dict_set_ok env"
    by (simp_all add: index_alloc_ok_def)
  from exec_inv[OF Cons.prems(1) fresh ok, of op]
  obtain r s1 as1 fs1 where e: "exec env op s = Some (r, s1)" and i1: "dd_inv s1 as1 fs1"
    by blast
  from Cons.prems(2) step e have "admissible prog s1" by simp
  from Cons.IH[OF i1 this]
  obtain rs s' as' fs' where "run prog s1 = Some (rs, s')" "dd_inv s' as' fs'" by blast
  with e step show ?case by auto
qed

lemma cache_inv_slots:
  assumes "cache_inv s as" "index_cache s = Some arr"
  shows "cache_size s - cache_offset s = int (length as)"
    and "\<forall>i < length as. arr ! (nat (cache_offset s) + i) = as ! i
           \<and> entry_cache_idx (mem s (as ! i)) = cache_offset s + int i"
proof -
  let ?n = "nat (cache_size s - cache_offset s)" and ?k = "nat (cache_offset s)"
  from assms have b: "0 \<le> cache_offset s" "cache_offset s \<le> cache_size s"
    "cache_size s \<le> cache_capacity s" "int (length arr) = cache_capacity s"
    and t: "take ?n (drop ?k arr) = as"
    and i: "\<forall>i < length as. entry_cache_idx (mem s (as ! i)) = cache_offset s + int i"
    by (simp_all add: cache_inv_def)
  from t b show la: "cache_size s - cache_offset s = int (length as)" by auto
  show "\<forall>i < length as. arr ! (nat (cache_offset s) + i) = as ! i
           \<and> entry_cache_idx (mem s (as ! i)) = cache_offset s + int i"
  proof (intro allI impI conjI)
    fix j assume j: "j < length as"
    then have "as ! j = take ?n (drop ?k arr) ! j" by (simp add: t)
    also have "\<dots> = arr ! (?k + j)" using j la b by simp
    finally show "arr ! (?k + j) = as ! j" by simp
    from i j show "entry_cache_idx (mem s (as ! j)) = cache_offset s + int j" by simp
  qed
qed

subsection \<open>Evaluation on concrete states\<close>

lemmas eval_defs =
  DequeDict_new_def all_ok_def no_capsule_def no_cache_memory_def blank_mem_def
  malloc_fresh_def index_alloc_ok_def FREELIST_MAX_def
  entry_alloc_def entry_free_def DequeDict_invalidate_cache_def DequeDict_rebuild_cache_def
  DequeDict_cache_ensure_capacity_def unlink_from_list_def unlink_head_def unlink_tail_def
  discard_entry_def link_at_tail_def link_at_head_def cache_append_def store_capsule_def
  relink_at_tail_def relink_at_head_def bump_cache_offset_def pop_cache_right_def
  DequeDict_len_def DequeDict_getitem_def DequeDict_setitem_def DequeDict_contains_def
  DequeDict_peekleft_def DequeDict_peekleftitem_def DequeDict_peekleftkey_def
  DequeDict_peek_def DequeDict_peekitem_def DequeDict_popleft_def DequeDict_popleftitem_def
  DequeDict_pop_def DequeDict_popitem_def DequeDict_appendleft_def DequeDict_get_def
  DequeDict_setdefault_def at_cached_def DequeDict_at_def DequeDict_move_to_end_def
  fits_ssize_t_def PY_SSIZE_T_MAX_def PY_SSIZE_T_MIN_def
  DequeDictIter_next_def DequeDictRevIter_next_def DequeDictViewIter_next_def
  list_iter_def list_reversed_def list_view_def returning_def item_of_def cmp_obj_def
  Let_def

lemma rebuild_loop_None [simp]: "rebuild_loop m arr None i = Some (m, arr)"
  by (subst rebuild_loop.simps) simp

lemma rebuild_loop_Some [simp]:
  "rebuild_loop m arr (Some e) i =
     (if i < length arr
      then rebuild_loop (m(e := (m e)\<lparr>entry_cache_idx := int i\<rparr>)) (arr[i := e])
             (entry_next (m e)) (Suc i)
      else None)"
  by (subst rebuild_loop.simps) simp

lemma dd_inv_new: "dd_inv (DequeDict_new m) [] []"
  by (simp add: dd_inv_def core_inv_def links_inv_def dict_inv_def free_inv_def cache_inv_def
      DequeDict_new_def)

lemma abc_state_reached:
  "run abc_run (DequeDict_new blank_mem) = Some ([Inr PyNone, Inr PyNone, Inr PyNone], abc_state)"
  by (simp add: abc_run_def abc_state_def abc_entries_def eval_defs fun_eq_iff insert_commute)

lemma abc_cached_reached:
  "DequeDict_at (all_ok 4) abc_state 0 = Some (Inr 1, abc_cached)"
  by (simp add: abc_cached_def abc_entries_cached_def abc_state_def abc_entries_def eval_defs
      fun_eq_iff eval_nat_numeral)

lemma dd_inv_abc_state: "dd_inv abc_state [1, 2, 3] []"
  by (simp add: dd_inv_def core_inv_def links_inv_def dict_inv_def free_inv_def cache_inv_def
      abc_state_def abc_entries_def nexts_def prevs_def blank_mem_def)

lemma dd_inv_abc_cached: "dd_inv abc_cached [1, 2, 3] []"
  by (simp add: dd_inv_def core_inv_def links_inv_def dict_inv_def free_inv_def cache_inv_def
      abc_cached_def abc_entries_cached_def nexts_def prevs_def blank_mem_def
      nth_Cons' less_Suc_eq eval_nat_numeral)

lemma peek_inv:
  assumes "links_inv s as" "as \<noteq> []"
  shows "DequeDict_peek s = Inr (entry_value (mem s (last as)))"
    and "DequeDict_peekleft s = Inr (entry_value (mem s (hd as)))"
  using links_head[OF assms(1)] links_tail[OF assms(1)] assms(2)
  by (simp_all add: DequeDict_peek_def DequeDict_peekleft_def)

lemma view_obj_item: "view_obj 2 m a = Item (entry_key (m a)) (entry_value (m a))"
  by (simp add: view_obj_def)

lemma view_obj_cong:
  "entry_key (m' a) = entry_key (m a) \<Longrightarrow> entry_value (m' a) = entry_value (m a) \<Longrightarrow>
     view_obj kind m' a = view_obj kind m a"
  by (simp add: view_obj_def)

subsection \<open>Keys and pairs of a well-formed state\<close>


lemma core_inv_distinct_keys:
  assumes "core_inv s as fs"
  shows "distinct (keys_of (mem s) as)"
proof -
  have "inj_on (\<lambda>a. entry_key (mem s a)) (set as)"
  proof (rule inj_onI)
    fix a b assume "a \<in> set as" "b \<in> set as" "entry_key (mem s a) = entry_key (mem s b)"
    with core_inv_lookup_live[OF assms] show "a = b" by (metis option.inject)
  qed
  with core_inv_distinct[OF assms] show ?thesis by (simp add: keys_of_def distinct_map)
qed

lemma list_iter_keys:
  assumes "links_inv s as"
  shows "list_iter s = Some (map Key (keys_of (mem s) as))"
  using list_iter_inv[OF assms] by (simp add: keys_of_def comp_def)

lemma keys_of_cong:
  "(\<And>a. a \<in> set as \<Longrightarrow> entry_key (m' a) = entry_key (m a)) \<Longrightarrow> keys_of m' as = keys_of m as"
  by (simp add: keys_of_def)

lemma list_view_cong:
  assumes "links_inv s as" "links_inv s' as"
    and "\<And>a. a \<in> set as \<Longrightarrow> entry_key (mem s' a) = entry_key (mem s a)"
    and "\<And>a. a \<in> set as \<Longrightarrow> entry_value (mem s' a) = entry_value (mem s a)"
  shows "list_view kind r s' = list_view kind r s"
proof -
  have "map (view_obj kind (mem s')) as = map (view_obj kind (mem s)) as"
    by (rule map_cong[OF refl], rule view_obj_cong) (simp_all add: assms)
  moreover have "map (view_obj kind (mem s')) (rev as) = map (view_obj kind (mem s)) (rev as)"
    by (rule map_cong[OF refl], rule view_obj_cong) (simp_all add: assms)
  ultimately show ?thesis
    using list_view_inv[OF assms(1), of kind] list_view_inv[OF assms(2), of kind]
    by (cases r) simp_all
qed

subsection \<open>Failing calls\<close>

lemma returning_Inl [simp]: "returning f r = Inl e \<longleftrightarrow> r = Inl e"
  by (cases r) (simp_all add: returning_def)

lemma setitem_error:
  "DequeDict_setitem env s k (Some v) = (Inl e, s') \<Longrightarrow> e = MemoryError"
  by (auto simp: DequeDict_setitem_def store_capsule_def split: option.splits prod.splits if_splits)

lemma delitem_error:
  "DequeDict_setitem env s k None = (Inl e, s') \<Longrightarrow> e = KeyError \<and> s' = s"
  by (auto simp: DequeDict_setitem_def split: option.splits)

lemma appendleft_error:
  "DequeDict_appendleft env s k v = (Inl e, s') \<Longrightarrow> (e = KeyError \<and> s' = s) \<or> e = MemoryError"
  by (auto simp: DequeDict_appendleft_def store_capsule_def
      split: option.splits prod.splits if_splits)

lemma setdefault_error:
  "DequeDict_setdefault env s k v = (Inl e, s') \<Longrightarrow> e = MemoryError"
  by (auto simp: DequeDict_setdefault_def split: option.splits prod.splits sum.splits
      dest: setitem_error)

lemma pop_errors:
  "DequeDict_popleft s = (Inl e, s') \<Longrightarrow> s' = s"
  "DequeDict_popleftitem s = (Inl e, s') \<Longrightarrow> s' = s"
  "DequeDict_popitem s = (Inl e, s') \<Longrightarrow> s' = s"
  "DequeDict_pop s key d = (Inl e, s') \<Longrightarrow> s' = s"
  "DequeDict_move_to_end s k l = (Inl e, s') \<Longrightarrow> s' = s"
  by (auto simp: DequeDict_popleft_def DequeDict_popleftitem_def DequeDict_popitem_def
      DequeDict_pop_def DequeDict_move_to_end_def Let_def split: option.splits if_splits)

lemma exec_error_unchanged:
  assumes "exec env op s = Some (Inl e, s')" "e = KeyError \<or> e = IndexError"
    "\<forall>i. op \<noteq> OpAt i"
  shows "s' = s"
proof (cases op)
  case (OpSetItem k v)
  with assms show ?thesis by (auto split: prod.splits dest: setitem_error)
next
  case (OpDelItem k)
  with assms show ?thesis by (auto split: prod.splits dest: delitem_error)
next
  case OpPopLeft
  with assms show ?thesis by (auto split: prod.splits dest: pop_errors)
next
  case OpPopLeftItem
  with assms show ?thesis by (auto split: prod.splits dest: pop_errors)
next
  case (OpPop key d)
  with assms show ?thesis by (auto dest: pop_errors)
next
  case OpPopItem
  with assms show ?thesis by (auto split: prod.splits dest: pop_errors)
next
  case (OpAppendLeft k v)
  with assms show ?thesis by (auto split: prod.splits dest: appendleft_error)
next
  case OpClear
  with assms show ?thesis by (auto split: option.splits)
next
  case (OpSetDefault k v)
  with assms show ?thesis by (auto split: prod.splits dest: setdefault_error)
next
  case (OpAt i)
  with assms show ?thesis by simp
next
  case (OpMoveToEnd k l)
  with assms show ?thesis by (auto split: prod.splits dest: pop_errors)
qed (use assms in \<open>auto split: option.splits\<close>)

subsection \<open>The container as a mapping\<close>

lemma compare_loop_None [simp]: "compare_loop m other None = Some True"
  by (subst compare_loop.simps) simp

lemma compare_loop_Some [simp]:
  "compare_loop m other (Some e) =
     (case other (entry_key (m e)) of
        None \<Rightarrow> Some False
      | Some other_val \<Rightarrow>
          if entry_value (m e) = other_val
          then compare_loop m other (entry_next (m e))
          else Some False)"
  by (subst compare_loop.simps) simp

lemma lookup_live:
  "core_inv s as fs \<Longrightarrow> a \<in> set as \<Longrightarrow>
     lookup s (entry_key (mem s a)) = Some (entry_value (mem s a))"
  by (simp add: lookup_def core_inv_lookup_live)

lemma lookup_Some:
  assumes "core_inv s as fs"
  shows "lookup s k = Some v \<longleftrightarrow> (k, v) \<in> set (pairs_of (mem s) as)"
proof
  assume "lookup s k = Some v"
  then obtain a where d: "dict s k = Some a" and v: "v = entry_value (mem s a)"
    by (auto simp: lookup_def split: option.splits)
  from core_inv_lookup[OF assms d] v show "(k, v) \<in> set (pairs_of (mem s) as)"
    by (auto simp: pairs_of_def)
next
  assume "(k, v) \<in> set (pairs_of (mem s) as)"
  then obtain a where "a \<in> set as" "k = entry_key (mem s a)" "v = entry_value (mem s a)"
    by (auto simp: pairs_of_def)
  with lookup_live[OF assms] show "lookup s k = Some v" by simp
qed

lemma dom_lookup:
  assumes "core_inv s as fs"
  shows "dom (lookup s) = set (keys_of (mem s) as)"
proof -
  have "\<And>k. k \<in> dom (lookup s) \<longleftrightarrow> k \<in> set (keys_of (mem s) as)"
    using lookup_Some[OF assms] by (force simp: dom_def pairs_of_def keys_of_def)
  then show ?thesis by blast
qed

lemma card_dom_lookup:
  assumes "core_inv s as fs"
  shows "int (card (dom (lookup s))) = dd_size s" "finite (dom (lookup s))"
proof -
  have "card (dom (lookup s)) = length (keys_of (mem s) as)"
    unfolding dom_lookup[OF assms] by (rule distinct_card[OF core_inv_distinct_keys[OF assms]])
  then show "int (card (dom (lookup s))) = dd_size s"
    by (simp add: keys_of_def core_inv_size[OF assms])
  show "finite (dom (lookup s))" unfolding dom_lookup[OF assms] by simp
qed

lemma as_mapping_lookup:
  "core_inv t bs gs \<Longrightarrow> as_mapping t = plain_dict (lookup t)"
  by (auto simp: as_mapping_def plain_dict_def DequeDict_len_def DequeDict_getitem_def
      lookup_def card_dom_lookup(1) fun_eq_iff split: option.splits)

lemma entries_match_iff:
  assumes "core_inv s as fs"
  shows "(\<forall>a \<in> set as. d (entry_key (mem s a)) = Some (entry_value (mem s a)))
           \<longleftrightarrow> (\<forall>k \<in> dom (lookup s). d k = lookup s k)"
proof
  assume h: "\<forall>a \<in> set as. d (entry_key (mem s a)) = Some (entry_value (mem s a))"
  show "\<forall>k \<in> dom (lookup s). d k = lookup s k"
  proof
    fix k assume "k \<in> dom (lookup s)"
    then obtain v where v: "lookup s k = Some v" by auto
    with lookup_Some[OF assms] obtain a where "a \<in> set as" "k = entry_key (mem s a)"
      "v = entry_value (mem s a)" by (auto simp: pairs_of_def)
    with h v show "d k = lookup s k" by simp
  qed
next
  assume h: "\<forall>k \<in> dom (lookup s). d k = lookup s k"
  show "\<forall>a \<in> set as. d (entry_key (mem s a)) = Some (entry_value (mem s a))"
  proof
    fix a assume "a \<in> set as"
    from lookup_live[OF assms this] h
    show "d (entry_key (mem s a)) = Some (entry_value (mem s a))" by (metis domI)
  qed
qed

lemma same_size_submap_eq:
  assumes "finite (dom d)" "card (dom m) = card (dom d)" "\<forall>k \<in> dom m. d k = m k"
  shows "m = d"
proof -
  from assms(3) have sub: "dom m \<subseteq> dom d" by (auto simp: dom_def)
  with assms(1,2) have eq: "dom m = dom d" by (simp add: card_subset_eq)
  show ?thesis
  proof
    fix k show "m k = d k"
    proof (cases "k \<in> dom m")
      case True with assms(3) show ?thesis by simp
    next
      case False
      with eq have "m k = None" "d k = None" by auto
      then show ?thesis by simp
    qed
  qed
qed

lemma lookup_eq_iff:
  assumes "core_inv s as fs" "finite (dom d)"
  shows "lookup s = d \<longleftrightarrow>
           dd_size s = int (card (dom d)) \<and> (\<forall>k \<in> dom (lookup s). d k = lookup s k)"
proof
  assume "lookup s = d"
  with card_dom_lookup(1)[OF assms(1)] show
    "dd_size s = int (card (dom d)) \<and> (\<forall>k \<in> dom (lookup s). d k = lookup s k)" by auto
next
  assume h: "dd_size s = int (card (dom d)) \<and> (\<forall>k \<in> dom (lookup s). d k = lookup s k)"
  with card_dom_lookup(1)[OF assms(1)] have "card (dom (lookup s)) = card (dom d)" by simp
  from same_size_submap_eq[OF assms(2) this] h show "lookup s = d" by simp
qed


lemma richcompare_plain_dict:
  assumes "dd_inv s as fs" "finite (dom d)"
  shows "DequeDict_richcompare s (plain_dict d) Py_EQ =
           Some (if lookup s = d then Py_True else Py_False)"
    and "DequeDict_richcompare s (plain_dict d) Py_NE =
           Some (if lookup s = d then Py_False else Py_True)"
proof -
  from assms(1) have c: "core_inv s as fs" by (rule dd_inv_core)
  have l: "links_inv s as" by (rule core_inv_links[OF c])
  have e: "(dd_size s = int (card (dom d)) \<and>
             (\<forall>a \<in> set as. d (entry_key (mem s a)) = Some (entry_value (mem s a))))
            = (lookup s = d)"
    using lookup_eq_iff[OF c assms(2)] entries_match_iff[OF c, of d] by blast
  show "DequeDict_richcompare s (plain_dict d) Py_EQ =
           Some (if lookup s = d then Py_True else Py_False)"
    using e by (auto simp: richcompare_inv[OF l] plain_dict_def)
  show "DequeDict_richcompare s (plain_dict d) Py_NE =
           Some (if lookup s = d then Py_False else Py_True)"
    using e by (auto simp: richcompare_inv[OF l] plain_dict_def)
qed

lemma lookup_eq_pairs:
  assumes "core_inv s as fs"
  shows "lookup s = d \<longleftrightarrow> set (pairs_of (mem s) as) = {(k, v). d k = Some v}"
proof
  assume "lookup s = d"
  with lookup_Some[OF assms] show "set (pairs_of (mem s) as) = {(k, v). d k = Some v}"
    by auto
next
  assume h: "set (pairs_of (mem s) as) = {(k, v). d k = Some v}"
  have "\<And>k v. lookup s k = Some v \<longleftrightarrow> d k = Some v"
    using lookup_Some[OF assms] h by auto
  then show "lookup s = d"
    by (intro ext) (metis option.exhaust)
qed

lemma dd_inv_xy_state: "dd_inv xy_state [1, 2] []"
  by (simp add: dd_inv_def core_inv_def links_inv_def dict_inv_def free_inv_def cache_inv_def
      xy_state_def nexts_def prevs_def blank_mem_def)

lemma dd_inv_yx_state: "dd_inv yx_state [1, 2] []"
  by (simp add: dd_inv_def core_inv_def links_inv_def dict_inv_def free_inv_def cache_inv_def
      yx_state_def nexts_def prevs_def blank_mem_def)

subsection \<open>The variant without cache runs in lockstep\<close>

lemma forget_cache_sel [simp]:
  "mem_nc (forget_cache s) a = forget_entry (mem s a)"
  "allocated_nc (forget_cache s) = allocated s"
  "freelist_nc (forget_cache s) = freelist s"
  "freelist_size_nc (forget_cache s) = freelist_size s"
  "dict_nc (forget_cache s) = dict s"
  "head_nc (forget_cache s) = head s"
  "tail_nc (forget_cache s) = tail s"
  "dd_size_nc (forget_cache s) = dd_size s"
  by (simp_all add: forget_cache_def)

lemma forget_entry_sel [simp]:
  "entry_key_nc (forget_entry e) = entry_key e"
  "entry_value_nc (forget_entry e) = entry_value e"
  "entry_prev_nc (forget_entry e) = entry_prev e"
  "entry_next_nc (forget_entry e) = entry_next e"
  by (simp_all add: forget_entry_def)

lemma forget_entry_upd [simp]:
  "forget_entry (e\<lparr>entry_next := n\<rparr>) = (forget_entry e)\<lparr>entry_next_nc := n\<rparr>"
  "forget_entry (e\<lparr>entry_prev := p\<rparr>) = (forget_entry e)\<lparr>entry_prev_nc := p\<rparr>"
  "forget_entry (e\<lparr>entry_value := v\<rparr>) = (forget_entry e)\<lparr>entry_value_nc := v\<rparr>"
  "forget_entry (e\<lparr>entry_cache_idx := i\<rparr>) = forget_entry e"
  by (simp_all add: forget_entry_def)

lemma forget_cache_upd [simp]:
  "forget_cache (s\<lparr>mem := m\<rparr>) = (forget_cache s)\<lparr>mem_nc := (\<lambda>a. forget_entry (m a))\<rparr>"
  "forget_cache (s\<lparr>allocated := al\<rparr>) = (forget_cache s)\<lparr>allocated_nc := al\<rparr>"
  "forget_cache (s\<lparr>freelist := fl\<rparr>) = (forget_cache s)\<lparr>freelist_nc := fl\<rparr>"
  "forget_cache (s\<lparr>freelist_size := n\<rparr>) = (forget_cache s)\<lparr>freelist_size_nc := n\<rparr>"
  "forget_cache (s\<lparr>dict := d\<rparr>) = (forget_cache s)\<lparr>dict_nc := d\<rparr>"
  "forget_cache (s\<lparr>head := h\<rparr>) = (forget_cache s)\<lparr>head_nc := h\<rparr>"
  "forget_cache (s\<lparr>tail := t\<rparr>) = (forget_cache s)\<lparr>tail_nc := t\<rparr>"
  "forget_cache (s\<lparr>dd_size := n\<rparr>) = (forget_cache s)\<lparr>dd_size_nc := n\<rparr>"
  "forget_cache (s\<lparr>index_cache := c\<rparr>) = forget_cache s"
  "forget_cache (s\<lparr>cache_size := n\<rparr>) = forget_cache s"
  "forget_cache (s\<lparr>cache_capacity := n\<rparr>) = forget_cache s"
  "forget_cache (s\<lparr>cache_offset := n\<rparr>) = forget_cache s"
  by (simp_all add: forget_cache_def)

lemma forget_cache_mem_eq:
  "(\<And>a. forget_entry (m a) = f a) \<Longrightarrow>
     (forget_cache s)\<lparr>mem_nc := (\<lambda>a. forget_entry (m a))\<rparr> = (forget_cache s)\<lparr>mem_nc := f\<rparr>"
  by (simp add: fun_eq_iff)

lemmas forget_defs = forget_cache_def forget_entry_def fun_eq_iff

lemma forget_entry_alloc:
  "entry_alloc_nc env (forget_cache s) = map_prod id forget_cache (entry_alloc env s)"
  by (simp add: entry_alloc_def entry_alloc_nc_def split: option.splits)

lemma forget_entry_free:
  "forget_cache (entry_free a s) = entry_free_nc a (forget_cache s)"
  by (simp add: entry_free_def entry_free_nc_def forget_defs)

lemma forget_invalidate [simp]:
  "forget_cache (DequeDict_invalidate_cache s) = forget_cache s"
  by (simp add: DequeDict_invalidate_cache_def)

lemma forget_unlink_from_list:
  "forget_cache (unlink_from_list a s) = unlink_from_list_nc a (forget_cache s)"
  by (auto simp: unlink_from_list_def unlink_from_list_nc_def Let_def forget_defs split: option.splits)

lemma forget_unlink_head:
  "forget_cache (unlink_head a s) = unlink_head_nc a (forget_cache s)"
  by (auto simp: unlink_head_def unlink_head_nc_def Let_def forget_defs split: option.splits)

lemma forget_unlink_tail:
  "forget_cache (unlink_tail a s) = unlink_tail_nc a (forget_cache s)"
  by (auto simp: unlink_tail_def unlink_tail_nc_def Let_def forget_defs split: option.splits)

lemma forget_discard_entry:
  "forget_cache (discard_entry a k s) = discard_entry_nc a k (forget_cache s)"
  by (simp add: discard_entry_def discard_entry_nc_def Let_def entry_free_def entry_free_nc_def
      forget_defs)

lemma forget_link_at_tail:
  "forget_cache (link_at_tail a k v s) = link_at_tail_nc a k v (forget_cache s)"
  by (auto simp: link_at_tail_def link_at_tail_nc_def Let_def forget_defs split: option.splits)

lemma forget_link_at_head:
  "forget_cache (link_at_head a k v s) = link_at_head_nc a k v (forget_cache s)"
  by (auto simp: link_at_head_def link_at_head_nc_def Let_def forget_defs split: option.splits)

lemma forget_relink_at_tail:
  "forget_cache (relink_at_tail a s) = relink_at_tail_nc a (forget_cache s)"
  by (auto simp: relink_at_tail_def relink_at_tail_nc_def Let_def forget_defs
      split: option.splits)

lemma forget_relink_at_head:
  "forget_cache (relink_at_head a s) = relink_at_head_nc a (forget_cache s)"
  by (auto simp: relink_at_head_def relink_at_head_nc_def Let_def forget_defs
      split: option.splits)

lemma forget_ensure_capacity:
  "forget_cache (snd (DequeDict_cache_ensure_capacity env s)) = forget_cache s"
  by (simp add: DequeDict_cache_ensure_capacity_def Let_def)

lemma forget_cache_append [simp]:
  "forget_cache (cache_append env a s) = forget_cache s"
proof (cases "DequeDict_cache_ensure_capacity env s")
  case (Pair rc s1)
  with forget_ensure_capacity[of env s] have "forget_cache s1 = forget_cache s" by simp
  with Pair show ?thesis
    by (simp add: cache_append_def forget_defs split: option.splits)
qed

lemma forget_bump_cache_offset [simp]:
  "forget_cache (bump_cache_offset s) = forget_cache s"
  by (simp add: bump_cache_offset_def)

lemma forget_pop_cache_right [simp]:
  "forget_cache (pop_cache_right s) = forget_cache s"
  by (simp add: pop_cache_right_def)

lemma forget_store_capsule:
  "store_capsule_nc env a k (forget_cache s) = map_prod id forget_cache (store_capsule env a k s)"
  by (simp add: store_capsule_def store_capsule_nc_def forget_entry_free)

lemmas forget_blocks =
  forget_entry_free forget_unlink_from_list forget_unlink_head forget_unlink_tail
  forget_discard_entry forget_link_at_tail forget_link_at_head forget_relink_at_tail
  forget_relink_at_head

lemma forget_len: "DequeDict_len_nc (forget_cache s) = DequeDict_len s"
  by (simp add: DequeDict_len_def DequeDict_len_nc_def)

lemma forget_getitem: "DequeDict_getitem_nc (forget_cache s) k = DequeDict_getitem s k"
  by (simp add: DequeDict_getitem_def DequeDict_getitem_nc_def split: option.splits)

lemma forget_contains: "DequeDict_contains_nc (forget_cache s) k = DequeDict_contains s k"
  by (simp add: DequeDict_contains_def DequeDict_contains_nc_def)

lemma forget_peeks:
  "DequeDict_peekleft_nc (forget_cache s) = DequeDict_peekleft s"
  "DequeDict_peekleftitem_nc (forget_cache s) = DequeDict_peekleftitem s"
  "DequeDict_peekleftkey_nc (forget_cache s) = DequeDict_peekleftkey s"
  "DequeDict_peek_nc (forget_cache s) = DequeDict_peek s"
  "DequeDict_peekitem_nc (forget_cache s) = DequeDict_peekitem s"
  by (simp_all add: DequeDict_peekleft_def DequeDict_peekleft_nc_def
      DequeDict_peekleftitem_def DequeDict_peekleftitem_nc_def
      DequeDict_peekleftkey_def DequeDict_peekleftkey_nc_def
      DequeDict_peek_def DequeDict_peek_nc_def
      DequeDict_peekitem_def DequeDict_peekitem_nc_def split: option.splits)

lemma forget_get: "DequeDict_get_nc (forget_cache s) k d = DequeDict_get s k d"
  by (simp add: DequeDict_get_def DequeDict_get_nc_def split: option.splits)

lemma forget_setitem:
  "DequeDict_setitem_nc env (forget_cache s) k val =
     map_prod id forget_cache (DequeDict_setitem env s k val)"
proof (cases val)
  case None
  then show ?thesis
    by (simp add: DequeDict_setitem_def DequeDict_setitem_nc_def forget_blocks
        split: option.splits)
next
  case (Some v)
  show ?thesis
  proof (cases "dict s k")
    case (Some a)
    then show ?thesis using \<open>val = Some v\<close>
      by (simp add: DequeDict_setitem_def DequeDict_setitem_nc_def forget_defs)
  next
    case None
    obtain r s1 where a: "entry_alloc env s = (r, s1)" by (cases "entry_alloc env s")
    with forget_entry_alloc[of env s]
    have b: "entry_alloc_nc env (forget_cache s) = (r, forget_cache s1)" by simp
    show ?thesis using None \<open>val = Some v\<close> a b
      by (simp add: DequeDict_setitem_def DequeDict_setitem_nc_def forget_store_capsule[symmetric]
          forget_link_at_tail split: option.splits)
  qed
qed

lemma forget_appendleft:
  "DequeDict_appendleft_nc env (forget_cache s) k v =
     map_prod id forget_cache (DequeDict_appendleft env s k v)"
proof -
  obtain r s1 where a: "entry_alloc env s = (r, s1)" by (cases "entry_alloc env s")
  with forget_entry_alloc[of env s]
  have b: "entry_alloc_nc env (forget_cache s) = (r, forget_cache s1)" by simp
  show ?thesis using a b
    by (simp add: DequeDict_appendleft_def DequeDict_appendleft_nc_def forget_store_capsule[symmetric]
        forget_link_at_head split: option.splits)
qed

lemma forget_popleft:
  "DequeDict_popleft_nc (forget_cache s) = map_prod id forget_cache (DequeDict_popleft s)"
  by (simp add: DequeDict_popleft_def DequeDict_popleft_nc_def Let_def forget_discard_entry
      forget_unlink_head[symmetric] split: option.splits)

lemma forget_popleftitem:
  "DequeDict_popleftitem_nc (forget_cache s) = map_prod id forget_cache (DequeDict_popleftitem s)"
  by (simp add: DequeDict_popleftitem_def DequeDict_popleftitem_nc_def Let_def
      forget_discard_entry forget_unlink_head[symmetric] split: option.splits)

lemma forget_popitem:
  "DequeDict_popitem_nc (forget_cache s) = map_prod id forget_cache (DequeDict_popitem s)"
  by (simp add: DequeDict_popitem_def DequeDict_popitem_nc_def Let_def
      forget_discard_entry forget_unlink_tail[symmetric] split: option.splits)

lemma forget_pop:
  "DequeDict_pop_nc (forget_cache s) key d = map_prod id forget_cache (DequeDict_pop s key d)"
  by (simp add: DequeDict_pop_def DequeDict_pop_nc_def Let_def
      forget_discard_entry forget_unlink_tail[symmetric] forget_unlink_from_list[symmetric]
      split: option.splits)

lemma forget_setdefault:
  "DequeDict_setdefault_nc env (forget_cache s) k v =
     map_prod id forget_cache (DequeDict_setdefault env s k v)"
  by (cases "DequeDict_setitem env s k (Some v)")
     (simp add: DequeDict_setdefault_def DequeDict_setdefault_nc_def forget_setitem
      split: option.splits sum.splits)

lemma forget_move_to_end:
  "DequeDict_move_to_end_nc (forget_cache s) k l =
     map_prod id forget_cache (DequeDict_move_to_end s k l)"
  by (simp add: DequeDict_move_to_end_def DequeDict_move_to_end_nc_def Let_def
      forget_relink_at_tail forget_relink_at_head forget_unlink_from_list[symmetric]
      split: option.splits)

lemma clear_loop_forget:
  assumes "clear_loop s e = Some s'"
  shows "clear_loop_nc (forget_cache s) e = Some (forget_cache s')"
proof (rule clear_loop.raw_induct[where P = "\<lambda>s e s'.
      clear_loop_nc (forget_cache s) e = Some (forget_cache s')", OF _ assms], goal_cases)
  case (1 clear_loop' s e s')
  show ?case
  proof (cases e)
    case None
    with 1(2) show ?thesis by (subst clear_loop_nc.simps) simp
  next
    case (Some a)
    with 1(2) have "clear_loop' (entry_free a s) (entry_next (mem s a)) = Some s'" by simp
    from 1(1)[OF this] Some show ?thesis
      by (subst clear_loop_nc.simps) (simp add: forget_entry_free)
  qed
qed

lemma clear_loop_nc_forget:
  assumes "clear_loop_nc t e = Some t'"
  shows "\<forall>s. t = forget_cache s \<longrightarrow> (\<exists>s'. clear_loop s e = Some s')"
proof (rule clear_loop_nc.raw_induct[where P = "\<lambda>t e t'.
      \<forall>s. t = forget_cache s \<longrightarrow> (\<exists>s'. clear_loop s e = Some s')", OF _ assms], goal_cases)
  case (1 clear_loop' t e t')
  show ?case
  proof (intro allI impI)
    fix s assume t: "t = forget_cache s"
    show "\<exists>s'. clear_loop s e = Some s'"
    proof (cases e)
      case None
      then show ?thesis by (subst clear_loop.simps) simp
    next
      case (Some a)
      with 1(2) have "clear_loop' (entry_free_nc a t) (entry_next_nc (mem_nc t a)) = Some t'"
        by simp
      from 1(1)[OF this] t have "\<exists>s'. clear_loop (entry_free a s) (entry_next (mem s a)) = Some s'"
        by (simp add: forget_entry_free[symmetric])
      with Some show ?thesis
        by (subst clear_loop.simps) simp
    qed
  qed
qed

lemma forget_clear_loop:
  "clear_loop_nc (forget_cache s) e = map_option forget_cache (clear_loop s e)"
proof (cases "clear_loop s e")
  case (Some s')
  with clear_loop_forget[OF Some] show ?thesis by simp
next
  case None
  have "clear_loop_nc (forget_cache s) e = None"
  proof (cases "clear_loop_nc (forget_cache s) e")
    case (Some t')
    from clear_loop_nc_forget[OF Some] None show ?thesis by auto
  qed simp
  with None show ?thesis by simp
qed

lemma forget_clear_method:
  "DequeDict_clear_method_nc (forget_cache s) = map_option forget_cache (DequeDict_clear_method s)"
  by (simp add: DequeDict_clear_method_def DequeDict_clear_method_nc_def forget_clear_loop
      split: option.splits)

lemma compare_loop_forget:
  assumes "compare_loop m other e = Some b"
  shows "compare_loop_nc (\<lambda>a. forget_entry (m a)) other e = Some b"
proof (rule compare_loop.raw_induct[where P = "\<lambda>m other e b.
      compare_loop_nc (\<lambda>a. forget_entry (m a)) other e = Some b", OF _ assms], goal_cases)
  case (1 compare_loop' m other e b)
  show ?case
  proof (cases e)
    case None
    with 1(2) show ?thesis by (subst compare_loop_nc.simps) simp
  next
    case (Some a)
    show ?thesis
    proof (cases "other (entry_key (m a))")
      case None
      with 1(2) Some show ?thesis by (subst compare_loop_nc.simps) simp
    next
      case (Some w)
      show ?thesis
      proof (cases "entry_value (m a) = w")
        case True
        with 1(2) Some \<open>e = Some a\<close>
        have "compare_loop' m other (entry_next (m a)) = Some b" by simp
        from 1(1)[OF this] True Some \<open>e = Some a\<close> show ?thesis
          by (subst compare_loop_nc.simps) simp
      next
        case False
        with 1(2) Some \<open>e = Some a\<close> show ?thesis by (subst compare_loop_nc.simps) simp
      qed
    qed
  qed
qed

lemma compare_loop_nc_forget:
  assumes "compare_loop_nc m' other e = Some b"
  shows "m' = (\<lambda>a. forget_entry (m a)) \<longrightarrow> compare_loop m other e = Some b"
proof (rule compare_loop_nc.raw_induct[where P = "\<lambda>m' other e b.
      m' = (\<lambda>a. forget_entry (m a)) \<longrightarrow> compare_loop m other e = Some b", OF _ assms],
    intro impI, goal_cases)
  case (1 compare_loop' m' other e b)
  note m' = 1(3)
  have ih: "\<And>e b. compare_loop' m' other e = Some b \<Longrightarrow> compare_loop m other e = Some b"
    using 1(1) m' by blast
  show ?case
  proof (cases e)
    case None
    with 1(2) show ?thesis by simp
  next
    case (Some a)
    show ?thesis
    proof (cases "other (entry_key (m a))")
      case None
      with 1(2) Some m' show ?thesis by simp
    next
      case (Some w)
      show ?thesis
      proof (cases "entry_value (m a) = w")
        case True
        with 1(2) Some \<open>e = Some a\<close> m'
        have "compare_loop' m' other (entry_next (m a)) = Some b" by simp
        from ih[OF this] True Some \<open>e = Some a\<close> show ?thesis by simp
      next
        case False
        with 1(2) Some \<open>e = Some a\<close> m' show ?thesis by simp
      qed
    qed
  qed
qed

lemma forget_compare_loop:
  "compare_loop_nc (\<lambda>a. forget_entry (m a)) other e = compare_loop m other e"
proof (cases "compare_loop m other e")
  case (Some b)
  with compare_loop_forget[OF Some] show ?thesis by simp
next
  case None
  have "compare_loop_nc (\<lambda>a. forget_entry (m a)) other e = None"
  proof (cases "compare_loop_nc (\<lambda>a. forget_entry (m a)) other e")
    case (Some b)
    from compare_loop_nc_forget[OF Some, of m] None show ?thesis by auto
  qed simp
  with None show ?thesis by simp
qed

lemma forget_richcompare:
  "DequeDict_richcompare_nc (forget_cache s) other cop = DequeDict_richcompare s other cop"
proof -
  have "mem_nc (forget_cache s) = (\<lambda>a. forget_entry (mem s a))" by (simp add: forget_cache_def)
  then show ?thesis
    by (simp add: DequeDict_richcompare_def DequeDict_richcompare_nc_def forget_compare_loop
        split: other_obj.splits)
qed

lemma forget_iter_next:
  "DequeDictIter_next_nc (mem_nc (forget_cache s)) = DequeDictIter_next (mem s)"
  "DequeDictRevIter_next_nc (mem_nc (forget_cache s)) = DequeDictRevIter_next (mem s)"
  "DequeDictViewIter_next_nc kind (mem_nc (forget_cache s)) = DequeDictViewIter_next kind False (mem s)"
  by (simp_all add: fun_eq_iff DequeDictIter_next_def DequeDictIter_next_nc_def
      DequeDictRevIter_next_def DequeDictRevIter_next_nc_def
      DequeDictViewIter_next_def DequeDictViewIter_next_nc_def split: option.splits)

lemma forget_lists:
  "list_iter_nc (forget_cache s) = list_iter s"
  "list_reversed_nc (forget_cache s) = list_reversed s"
  "list_view_nc kind (forget_cache s) = list_view kind False s"
  by (simp_all add: list_iter_def list_iter_nc_def list_reversed_def list_reversed_nc_def
      list_view_def list_view_nc_def forget_iter_next)

subsection \<open>Traversal of a chain that ends in a cycle\<close>

lemma collect_self_loop:
  assumes "next_fn c = Some (x, c)"
  shows "collect next_fn c = None"
proof (cases "collect next_fn c")
  case (Some ys)
  have "\<forall>x. next_fn c \<noteq> Some (x, c)"
  proof (rule collect.raw_induct[where P = "\<lambda>f c ys. \<forall>x. f c \<noteq> Some (x, c)", OF _ Some],
      goal_cases)
    case (1 collect' f c ys)
    show ?case
    proof (intro allI notI)
      fix x assume f: "f c = Some (x, c)"
      with 1(2) obtain rest where "collect' f c = Some rest"
        by (auto simp: bind_eq_Some_conv)
      from 1(1)[OF this] f show False by simp
    qed
  qed
  with assms show ?thesis by simp
qed simp

lemma collect_step_None:
  "next_fn c = Some (x, c') \<Longrightarrow> collect next_fn c' = None \<Longrightarrow> collect next_fn c = None"
  by simp

subsection \<open>Equality of containers whose keys are unique\<close>

text \<open>
  A well-formed container \<open>s\<close> compared with a plain mapping \<open>d\<close>, or with
  another well-formed container \<open>t\<close>, is equal exactly when the sizes agree and every key
  of \<open>s\<close> is mapped by the other operand to the value it has in \<open>s\<close>; \<open>!=\<close> is the
  negation. That condition holds exactly when both hold the same set of
  \<open>(key, value)\<close> pairs, so that the answer does not depend on the order of the entries
  and is the same with the operands exchanged, while iteration yields the keys of each
  container in the order of its own list.
\<close>

lemma equality_with_unique_keys:
  assumes "dd_inv s as fs" and "dd_inv t bs gs" and "finite (dom d)"
  shows "DequeDict_richcompare s (plain_dict d) Py_EQ =
           Some (if dd_size s = int (card (dom d)) \<and> (\<forall>k \<in> dom (lookup s). d k = lookup s k)
                 then Py_True else Py_False)
     \<and> DequeDict_richcompare s (plain_dict d) Py_NE =
           Some (if dd_size s = int (card (dom d)) \<and> (\<forall>k \<in> dom (lookup s). d k = lookup s k)
                 then Py_False else Py_True)
     \<and> DequeDict_richcompare s (as_mapping t) Py_EQ =
           Some (if dd_size s = dd_size t \<and> (\<forall>k \<in> dom (lookup s). lookup t k = lookup s k)
                 then Py_True else Py_False)
     \<and> DequeDict_richcompare s (as_mapping t) Py_NE =
           Some (if dd_size s = dd_size t \<and> (\<forall>k \<in> dom (lookup s). lookup t k = lookup s k)
                 then Py_False else Py_True)
     \<and> ((dd_size s = int (card (dom d)) \<and> (\<forall>k \<in> dom (lookup s). d k = lookup s k))
          \<longleftrightarrow> set (pairs_of (mem s) as) = {(k, v). d k = Some v})
     \<and> ((dd_size s = dd_size t \<and> (\<forall>k \<in> dom (lookup s). lookup t k = lookup s k))
          \<longleftrightarrow> set (pairs_of (mem s) as) = set (pairs_of (mem t) bs))
     \<and> DequeDict_richcompare t (as_mapping s) Py_EQ =
         DequeDict_richcompare s (as_mapping t) Py_EQ
     \<and> list_iter s = Some (map Key (keys_of (mem s) as))
     \<and> list_iter t = Some (map Key (keys_of (mem t) bs))"
proof -
  have cs: "core_inv s as fs" by (rule dd_inv_core[OF assms(1)])
  have ct: "core_inv t bs gs" by (rule dd_inv_core[OF assms(2)])
  have ft: "finite (dom (lookup t))" and fs: "finite (dom (lookup s))"
    by (rule card_dom_lookup(2)[OF ct], rule card_dom_lookup(2)[OF cs])
  have nt: "int (card (dom (lookup t))) = dd_size t" and ns: "int (card (dom (lookup s))) = dd_size s"
    by (rule card_dom_lookup(1)[OF ct], rule card_dom_lookup(1)[OF cs])
  have mt: "as_mapping t = plain_dict (lookup t)" and ms: "as_mapping s = plain_dict (lookup s)"
    by (rule as_mapping_lookup[OF ct], rule as_mapping_lookup[OF cs])
  have ed: "lookup s = d \<longleftrightarrow>
      dd_size s = int (card (dom d)) \<and> (\<forall>k \<in> dom (lookup s). d k = lookup s k)"
    by (rule lookup_eq_iff[OF cs assms(3)])
  have et: "lookup s = lookup t \<longleftrightarrow>
      dd_size s = dd_size t \<and> (\<forall>k \<in> dom (lookup s). lookup t k = lookup s k)"
    using lookup_eq_iff[OF cs ft] by (simp only: nt)
  have pt: "set (pairs_of (mem t) bs) = {(k, v). lookup t k = Some v}"
    using lookup_Some[OF ct] by auto
  have 1: "DequeDict_richcompare s (plain_dict d) Py_EQ =
           Some (if dd_size s = int (card (dom d)) \<and> (\<forall>k \<in> dom (lookup s). d k = lookup s k)
                 then Py_True else Py_False)"
    unfolding ed[symmetric] by (rule richcompare_plain_dict(1)[OF assms(1,3)])
  have 2: "DequeDict_richcompare s (plain_dict d) Py_NE =
           Some (if dd_size s = int (card (dom d)) \<and> (\<forall>k \<in> dom (lookup s). d k = lookup s k)
                 then Py_False else Py_True)"
    unfolding ed[symmetric] by (rule richcompare_plain_dict(2)[OF assms(1,3)])
  have 3: "DequeDict_richcompare s (as_mapping t) Py_EQ =
           Some (if dd_size s = dd_size t \<and> (\<forall>k \<in> dom (lookup s). lookup t k = lookup s k)
                 then Py_True else Py_False)"
    unfolding et[symmetric] mt by (rule richcompare_plain_dict(1)[OF assms(1) ft])
  have 4: "DequeDict_richcompare s (as_mapping t) Py_NE =
           Some (if dd_size s = dd_size t \<and> (\<forall>k \<in> dom (lookup s). lookup t k = lookup s k)
                 then Py_False else Py_True)"
    unfolding et[symmetric] mt by (rule richcompare_plain_dict(2)[OF assms(1) ft])
  have 5: "(dd_size s = int (card (dom d)) \<and> (\<forall>k \<in> dom (lookup s). d k = lookup s k))
          \<longleftrightarrow> set (pairs_of (mem s) as) = {(k, v). d k = Some v}"
    unfolding ed[symmetric] by (rule lookup_eq_pairs[OF cs])
  have 6: "(dd_size s = dd_size t \<and> (\<forall>k \<in> dom (lookup s). lookup t k = lookup s k))
          \<longleftrightarrow> set (pairs_of (mem s) as) = set (pairs_of (mem t) bs)"
    unfolding et[symmetric] pt by (rule lookup_eq_pairs[OF cs])
  have "DequeDict_richcompare t (as_mapping s) Py_EQ =
          Some (if lookup t = lookup s then Py_True else Py_False)"
    unfolding ms by (rule richcompare_plain_dict(1)[OF assms(2) fs])
  moreover have "DequeDict_richcompare s (as_mapping t) Py_EQ =
          Some (if lookup s = lookup t then Py_True else Py_False)"
    unfolding mt by (rule richcompare_plain_dict(1)[OF assms(1) ft])
  ultimately have 7: "DequeDict_richcompare t (as_mapping s) Py_EQ =
         DequeDict_richcompare s (as_mapping t) Py_EQ"
    by (simp add: eq_commute[of "lookup t"])
  have 8: "list_iter s = Some (map Key (keys_of (mem s) as))"
    by (rule list_iter_keys[OF core_inv_links[OF cs]])
  have 9: "list_iter t = Some (map Key (keys_of (mem t) bs))"
    by (rule list_iter_keys[OF core_inv_links[OF ct]])
  from 1 2 3 4 5 6 7 8 9 show ?thesis by (intro conjI)
qed

lemma equality_with_unique_keys_example:
  "DequeDict_richcompare xy_state (plain_dict [''y'' \<mapsto> 2, ''x'' \<mapsto> 1]) Py_EQ = Some Py_True
   \<and> DequeDict_richcompare xy_state (plain_dict [''y'' \<mapsto> 2, ''x'' \<mapsto> 1]) Py_NE = Some Py_False
   \<and> DequeDict_richcompare xy_state (as_mapping yx_state) Py_EQ = Some Py_True
   \<and> DequeDict_richcompare yx_state (as_mapping xy_state) Py_EQ = Some Py_True
   \<and> DequeDict_richcompare xy_state (plain_dict [''y'' \<mapsto> 2, ''x'' \<mapsto> 3]) Py_EQ = Some Py_False
   \<and> list_iter xy_state = Some [Key ''x'', Key ''y'']
   \<and> list_iter yx_state = Some [Key ''y'', Key ''x'']"
proof -
  have f: "finite (dom [''y'' \<mapsto> 2 :: int, ''x'' \<mapsto> 1])"
    "finite (dom [''y'' \<mapsto> 2 :: int, ''x'' \<mapsto> 3])" by simp_all
  have l: "lookup xy_state = [''x'' \<mapsto> 1, ''y'' \<mapsto> 2]"
    "lookup yx_state = [''x'' \<mapsto> 1, ''y'' \<mapsto> 2]"
    by (auto simp: lookup_def xy_state_def yx_state_def blank_mem_def fun_eq_iff)
  have m: "mem xy_state (Suc 0) = \<lparr>entry_key = ''x'', entry_value = 1, entry_prev = None,
             entry_next = Some 2, entry_cache_idx = - 1\<rparr>"
          "mem xy_state 2 = \<lparr>entry_key = ''y'', entry_value = 2, entry_prev = Some 1,
             entry_next = None, entry_cache_idx = - 1\<rparr>"
          "mem yx_state (Suc 0) = \<lparr>entry_key = ''y'', entry_value = 2, entry_prev = None,
             entry_next = Some 2, entry_cache_idx = - 1\<rparr>"
          "mem yx_state 2 = \<lparr>entry_key = ''x'', entry_value = 1, entry_prev = Some 1,
             entry_next = None, entry_cache_idx = - 1\<rparr>"
          "dd_size xy_state = 2" "dd_size yx_state = 2"
    by (simp_all add: xy_state_def yx_state_def)
  from equality_with_unique_keys[OF dd_inv_xy_state dd_inv_yx_state f(1)]
       equality_with_unique_keys[OF dd_inv_xy_state dd_inv_yx_state f(2)]
  show ?thesis
    by (simp add: l m keys_of_def)
qed

lemma clear_loop_None [simp]: "clear_loop s None = Some s"
  by (subst clear_loop.simps) simp

lemma init_without_items:
  "DequeDict_init True (DequeDict_new m) NoItems = Some (Inr (), DequeDict_new m)"
  by (simp add: DequeDict_init_def DequeDict_new_def DequeDict_invalidate_cache_def)

lemma init_xy_dict:
  "DequeDict_init True (DequeDict_new blank_mem) xy_dict = Some (Inr (), xy_state)"
  by (simp add: DequeDict_init_def xy_dict_def xy_state_def eval_defs fun_eq_iff insert_commute)

lemma forget_exec:
  assumes "shared_op op"
  shows "exec_nc env op (forget_cache s)
           = map_option (map_prod id forget_cache) (exec env op s)"
proof (cases op)
  case OpLen
  then show ?thesis by (simp add: forget_len)
next
  case (OpGetItem k)
  then show ?thesis by (simp add: forget_getitem)
next
  case (OpSetItem k v)
  then show ?thesis
    by (cases "DequeDict_setitem env s k (Some v)") (simp add: forget_setitem)
next
  case (OpDelItem k)
  then show ?thesis
    by (cases "DequeDict_setitem env s k None") (simp add: forget_setitem)
next
  case (OpContains k)
  then show ?thesis by (simp add: forget_contains)
next
  case OpPeekLeft
  then show ?thesis by (simp add: forget_peeks)
next
  case OpPeekLeftItem
  then show ?thesis by (simp add: forget_peeks)
next
  case OpPeekLeftKey
  then show ?thesis by (simp add: forget_peeks)
next
  case OpPeek
  then show ?thesis by (simp add: forget_peeks)
next
  case OpPeekItem
  then show ?thesis by (simp add: forget_peeks)
next
  case OpPopLeft
  then show ?thesis by (cases "DequeDict_popleft s") (simp add: forget_popleft)
next
  case OpPopLeftItem
  then show ?thesis by (cases "DequeDict_popleftitem s") (simp add: forget_popleftitem)
next
  case (OpPop key d)
  then show ?thesis by (cases "DequeDict_pop s key d") (simp add: forget_pop)
next
  case OpPopItem
  then show ?thesis by (cases "DequeDict_popitem s") (simp add: forget_popitem)
next
  case (OpAppendLeft k v)
  then show ?thesis by (cases "DequeDict_appendleft env s k v") (simp add: forget_appendleft)
next
  case (OpGet k d)
  then show ?thesis by (simp add: forget_get)
next
  case OpClear
  then show ?thesis by (simp add: forget_clear_method split: option.splits)
next
  case (OpSetDefault k v)
  then show ?thesis by (cases "DequeDict_setdefault env s k v") (simp add: forget_setdefault)
next
  case (OpAt i)
  with assms show ?thesis by simp
next
  case (OpMoveToEnd k l)
  then show ?thesis by (cases "DequeDict_move_to_end s k l") (simp add: forget_move_to_end)
next
  case OpIter
  then show ?thesis by (simp add: forget_lists split: option.splits)
next
  case OpReversed
  then show ?thesis by (simp add: forget_lists split: option.splits)
next
  case (OpView kind reverse)
  with assms show ?thesis by (simp add: forget_lists split: option.splits)
next
  case (OpRichCompare other cop)
  then show ?thesis by (simp add: forget_richcompare split: option.splits)
qed

lemma forget_run:
  assumes "shared_run ops"
  shows "run_nc ops (forget_cache s) = map_option (map_prod id forget_cache) (run ops s)"
  using assms
proof (induction ops arbitrary: s)
  case Nil
  then show ?case by simp
next
  case (Cons step ops)
  obtain env op where step: "step = (env, op)" by (cases step)
  from Cons.prems step have sh: "shared_op op" and rest: "shared_run ops"
    by (simp_all add: shared_run_def)
  show ?case
  proof (cases "exec env op s")
    case None
    with forget_exec[OF sh, of env s] step show ?thesis by simp
  next
    case (Some rs')
    obtain r s' where rs': "rs' = (r, s')" by (cases rs')
    from forget_exec[OF sh, of env s] Some rs'
    have e: "exec_nc env op (forget_cache s) = Some (r, forget_cache s')" by simp
    from Cons.IH[OF rest, of s'] Some rs' e step show ?thesis
      by (cases "run ops s'") auto
  qed
qed

lemma forget_init_from_dict:
  "init_from_dict_nc kvs (forget_cache s) = map_prod id forget_cache (init_from_dict kvs s)"
proof (induction kvs arbitrary: s)
  case Nil
  then show ?case by simp
next
  case (Cons x kvs)
  obtain env k v where x: "x = (env, k, v)" by (cases x)
  obtain r s1 where a: "entry_alloc env s = (r, s1)" by (cases "entry_alloc env s")
  with forget_entry_alloc[of env s]
  have b: "entry_alloc_nc env (forget_cache s) = (r, forget_cache s1)" by simp
  show ?case
  proof (cases r)
    case None
    with a b x show ?thesis by simp
  next
    case (Some e)
    obtain q s2 where c: "store_capsule env e k (link_at_tail e k v s1) = (q, s2)"
      by (cases "store_capsule env e k (link_at_tail e k v s1)")
    with forget_store_capsule[of env e k "link_at_tail e k v s1"]
    have d: "store_capsule_nc env e k (link_at_tail_nc e k v (forget_cache s1))
               = (q, forget_cache s2)"
      by (simp add: forget_link_at_tail)
    from a b c d x Some Cons.IH[of s2] show ?thesis by (cases q) simp_all
  qed
qed

lemma forget_init_from_iterable:
  "init_from_iterable_nc xs (forget_cache s) = map_prod id forget_cache (init_from_iterable xs s)"
proof (induction xs arbitrary: s)
  case Nil
  then show ?case by simp
next
  case (Cons x xs)
  obtain env it where x: "x = (env, it)" by (cases x)
  show ?case
  proof (cases it)
    case NotPair
    with x show ?thesis by simp
  next
    case (PyPair k v)
    obtain r s1 where a: "entry_alloc env s = (r, s1)" by (cases "entry_alloc env s")
    with forget_entry_alloc[of env s]
    have b: "entry_alloc_nc env (forget_cache s) = (r, forget_cache s1)" by simp
    show ?thesis
    proof (cases r)
      case None
      with a b x PyPair show ?thesis by simp
    next
      case (Some e)
      obtain q s2 where c: "store_capsule env e k (link_at_tail e k v s1) = (q, s2)"
        by (cases "store_capsule env e k (link_at_tail e k v s1)")
      with forget_store_capsule[of env e k "link_at_tail e k v s1"]
      have d: "store_capsule_nc env e k (link_at_tail_nc e k v (forget_cache s1))
                 = (q, forget_cache s2)"
        by (simp add: forget_link_at_tail)
      from a b c d x PyPair Some Cons.IH[of s2] show ?thesis by (cases q) simp_all
    qed
  qed
qed

lemma forget_init:
  "DequeDict_init_nc ok (forget_cache s) items
     = map_option (map_prod id forget_cache) (DequeDict_init ok s items)"
  by (simp add: DequeDict_init_def DequeDict_init_nc_def forget_clear_loop Let_def
      forget_init_from_dict[symmetric] forget_init_from_iterable[symmetric]
      split: option.splits init_items.splits)

lemma forget_new: "forget_cache (DequeDict_new m) = DequeDict_new_nc (\<lambda>a. forget_entry (m a))"
  by (simp add: forget_cache_def DequeDict_new_def DequeDict_new_nc_def)

lemma forget_blank_mem: "(\<lambda>a. forget_entry (blank_mem a)) = blank_mem_nc"
  by (simp add: blank_mem_def blank_mem_nc_def forget_entry_def)

lemma forget_update_from_dict:
  "update_from_dict_nc kvs (forget_cache s) = map_prod id forget_cache (update_from_dict kvs s)"
proof (induction kvs arbitrary: s)
  case Nil
  then show ?case by simp
next
  case (Cons x kvs)
  obtain env k v where x: "x = (env, k, v)" by (cases x)
  obtain q s1 where a: "DequeDict_setitem env s k (Some v) = (q, s1)"
    by (cases "DequeDict_setitem env s k (Some v)")
  with forget_setitem[of env s k "Some v"]
  have b: "DequeDict_setitem_nc env (forget_cache s) k (Some v) = (q, forget_cache s1)" by simp
  from a b x Cons.IH[of s1] show ?case by (cases q) simp_all
qed

lemma forget_update_from_iterable:
  "update_from_iterable_nc xs (forget_cache s)
     = map_prod id forget_cache (update_from_iterable xs s)"
proof (induction xs arbitrary: s)
  case Nil
  then show ?case by simp
next
  case (Cons x xs)
  obtain env it where x: "x = (env, it)" by (cases x)
  show ?case
  proof (cases it)
    case NotPair
    with x show ?thesis by simp
  next
    case (PyPair k v)
    obtain q s1 where a: "DequeDict_setitem env s k (Some v) = (q, s1)"
      by (cases "DequeDict_setitem env s k (Some v)")
    with forget_setitem[of env s k "Some v"]
    have b: "DequeDict_setitem_nc env (forget_cache s) k (Some v) = (q, forget_cache s1)"
      by simp
    from a b x PyPair Cons.IH[of s1] show ?thesis by (cases q) simp_all
  qed
qed

lemma forget_update:
  "DequeDict_update_nc (forget_cache s) other kwds
     = map_prod id forget_cache (DequeDict_update s other kwds)"
proof -
  let ?first = "case other of
              NoItems \<Rightarrow> (Inr (), s)
            | FromDict kvs \<Rightarrow> update_from_dict kvs s
            | FromIterable xs \<Rightarrow> update_from_iterable xs s"
  obtain q s1 where a: "?first = (q, s1)" by (cases ?first)
  then have b: "(case other of
              NoItems \<Rightarrow> (Inr (), forget_cache s)
            | FromDict kvs \<Rightarrow> update_from_dict_nc kvs (forget_cache s)
            | FromIterable xs \<Rightarrow> update_from_iterable_nc xs (forget_cache s))
           = (q, forget_cache s1)"
    by (cases other) (auto simp: forget_update_from_dict forget_update_from_iterable)
  show ?thesis
    unfolding DequeDict_update_def DequeDict_update_nc_def a b
    by (cases q) (simp_all add: forget_update_from_dict)
qed

subsection \<open>Runs whose insertions reach the key index\<close>

text \<open>
  In every state reached by a program of calls, started in a well-formed state and run
  with an allocator that can extend the key index: the entries \<open>as'\<close> are the
  head-to-tail traversal, the size is their number, and whenever the position cache is
  present its logical size \<open>cache_size - cache_offset\<close> is the size, the slots from
  \<open>cache_offset\<close> on hold \<open>as'\<close> in order and every live entry stores its slot; so
  \<open>at(i)\<close> returns the value of the \<open>i\<close>-th entry of the traversal for every
  \<open>i\<close> in \<open>[0, size())\<close> that is a \<^verbatim>\<open>Py_ssize_t\<close>, with a present cache as
  it is and with an absent one after the rebuild (whose array allocation may fail, then
  \<open>at\<close> reports the memory error).
\<close>

lemma run_keeps_cache_mirror:
  assumes "dd_inv s as fs" "admissible prog s"
  shows "\<exists>rs s' as' fs'. run prog s = Some (rs, s') \<and> dd_inv s' as' fs'
     \<and> list_view 2 False s' = Some (map (view_obj 2 (mem s')) as')
     \<and> dd_size s' = int (length as')
     \<and> (\<forall>arr. index_cache s' = Some arr \<longrightarrow>
           cache_size s' - cache_offset s' = dd_size s' \<and>
           (\<forall>i < length as'. arr ! (nat (cache_offset s') + i) = as' ! i
               \<and> entry_cache_idx (mem s' (as' ! i)) = cache_offset s' + int i))
     \<and> (\<forall>env i. fits_ssize_t i \<and> 0 \<le> i \<and> i < dd_size s' \<and> (index_cache s' \<noteq> None \<or> cache_alloc_ok env) \<longrightarrow>
           (\<exists>s''. DequeDict_at env s' i = Some (Inr (entry_value (mem s' (as' ! nat i))), s'')))"
proof -
  from run_inv[OF assms]
  obtain rs s' as' fs' where r: "run prog s = Some (rs, s')" and inv: "dd_inv s' as' fs'"
    by blast
  have li: "links_inv s' as'" by (rule dd_inv_links[OF inv])
  have sz: "dd_size s' = int (length as')" by (rule core_inv_size[OF dd_inv_core[OF inv]])
  from inv have c: "cache_inv s' as'" by (simp add: dd_inv_def)
  have slots: "\<forall>arr. index_cache s' = Some arr \<longrightarrow>
           cache_size s' - cache_offset s' = dd_size s' \<and>
           (\<forall>i < length as'. arr ! (nat (cache_offset s') + i) = as' ! i
               \<and> entry_cache_idx (mem s' (as' ! i)) = cache_offset s' + int i)"
    using cache_inv_slots[OF c] sz by simp
  have at: "\<forall>env i. fits_ssize_t i \<and> 0 \<le> i \<and> i < dd_size s' \<and> (index_cache s' \<noteq> None \<or> cache_alloc_ok env) \<longrightarrow>
           (\<exists>s''. DequeDict_at env s' i = Some (Inr (entry_value (mem s' (as' ! nat i))), s''))"
  proof (intro allI impI)
    fix env :: alloc_env and i :: int
    assume h: "fits_ssize_t i \<and> 0 \<le> i \<and> i < dd_size s' \<and> (index_cache s' \<noteq> None \<or> cache_alloc_ok env)"
    from h have fit: "fits_ssize_t i" by simp
    from at_inv[OF inv fit, of env] h sz
    show "\<exists>s''. DequeDict_at env s' i = Some (Inr (entry_value (mem s' (as' ! nat i))), s'')"
      by (auto simp: norm_index_def)
  qed
  from r inv list_view_inv(1)[OF li, of 2] sz slots at show ?thesis by blast
qed

text \<open>
  The program \<open>mixed_run\<close> on the empty container is such a run; its calls return
  \<open>None, None, None, 1, 1, 3, None\<close>, and afterwards the cache array is \<open>[1, 2, 3]\<close>
  with offset 1 and size 3, the traversal is \<open>b, d\<close> and \<open>at(0) = 2\<close>, \<open>at(1) = 4\<close>.
\<close>

lemma run_keeps_cache_mirror_example:
  "dd_inv (DequeDict_new blank_mem) [] [] \<and> admissible mixed_run (DequeDict_new blank_mem)
   \<and> (\<exists>rs s' as' fs'. run mixed_run (DequeDict_new blank_mem) = Some (rs, s')
     \<and> dd_inv s' as' fs'
     \<and> list_view 2 False s' = Some (map (view_obj 2 (mem s')) as')
     \<and> dd_size s' = int (length as')
     \<and> (\<forall>arr. index_cache s' = Some arr \<longrightarrow>
           cache_size s' - cache_offset s' = dd_size s' \<and>
           (\<forall>i < length as'. arr ! (nat (cache_offset s') + i) = as' ! i
               \<and> entry_cache_idx (mem s' (as' ! i)) = cache_offset s' + int i))
     \<and> (\<forall>env i. fits_ssize_t i \<and> 0 \<le> i \<and> i < dd_size s' \<and> (index_cache s' \<noteq> None \<or> cache_alloc_ok env) \<longrightarrow>
           (\<exists>s''. DequeDict_at env s' i = Some (Inr (entry_value (mem s' (as' ! nat i))), s''))))
   \<and> map_option fst (run mixed_run (DequeDict_new blank_mem))
       = Some [Inr PyNone, Inr PyNone, Inr PyNone, Inr (Value 1), Inr (Value 1),
               Inr (Value 3), Inr PyNone]
   \<and> (case run mixed_run (DequeDict_new blank_mem) of
         None \<Rightarrow> False
       | Some (rs, s') \<Rightarrow>
           list_view 2 False s' = Some [Item ''b'' 2, Item ''d'' 4]
           \<and> map_option fst (DequeDict_at (all_ok 5) s' 0) = Some (Inr 2)
           \<and> map_option fst (DequeDict_at (all_ok 5) s' 1) = Some (Inr 4)
           \<and> index_cache s' = Some [1, 2, 3] \<and> cache_offset s' = 1 \<and> cache_size s' = 3)"
proof -
  have h1: "dd_inv (DequeDict_new blank_mem) [] []" by (rule dd_inv_new)
  have h2: "admissible mixed_run (DequeDict_new blank_mem)"
    by (simp add: mixed_run_def eval_defs)
  have e1: "map_option fst (run mixed_run (DequeDict_new blank_mem))
       = Some [Inr PyNone, Inr PyNone, Inr PyNone, Inr (Value 1), Inr (Value 1),
               Inr (Value 3), Inr PyNone]"
    by (simp add: mixed_run_def eval_defs)
  have e2: "case run mixed_run (DequeDict_new blank_mem) of
         None \<Rightarrow> False
       | Some (rs, s') \<Rightarrow>
           list_view 2 False s' = Some [Item ''b'' 2, Item ''d'' 4]
           \<and> map_option fst (DequeDict_at (all_ok 5) s' 0) = Some (Inr 2)
           \<and> map_option fst (DequeDict_at (all_ok 5) s' 1) = Some (Inr 4)
           \<and> index_cache s' = Some [1, 2, 3] \<and> cache_offset s' = 1 \<and> cache_size s' = 3"
    by (simp add: mixed_run_def eval_defs eval_nat_numeral)
  show ?thesis
    by (rule conjI[OF h1 conjI[OF h2 conjI[OF
          run_keeps_cache_mirror[OF h1 h2] conjI[OF e1 e2]]]])
qed

subsection \<open>The constructor and \<open>update\<close>\<close>

text \<open>
  On a container without cache and for a key that is not in the key index, the body of
  the constructor's loops is \<^verbatim>\<open>DequeDict_setitem\<close>; so the constructor does what
  \<open>update\<close> does as long as no key is repeated.
\<close>

lemma init_step_is_setitem:
  assumes "dict s k = None" "index_cache s = None"
  shows "(case entry_alloc env s of
            (None, s1) \<Rightarrow> (Inl MemoryError, s1)
          | (Some new_entry, s1) \<Rightarrow>
              store_capsule env new_entry k (link_at_tail new_entry k v s1))
         = DequeDict_setitem env s k (Some v)"
proof -
  obtain r s1 where a: "entry_alloc env s = (r, s1)" by (cases "entry_alloc env s")
  with assms(2) have "index_cache s1 = None"
    by (auto simp: entry_alloc_def split: option.splits)
  then have "\<And>e. cache_append env e (link_at_tail e k v s1) = link_at_tail e k v s1"
    by (simp add: cache_append_def link_at_tail_def Let_def split: option.splits)
  with a assms(1) show ?thesis by (simp add: DequeDict_setitem_def split: option.splits)
qed

lemma setitem_new_keeps_no_cache:
  assumes "DequeDict_setitem env s k (Some v) = (Inr (), s')" "dict s k = None"
    "index_cache s = None"
  shows "index_cache s' = None" "dict s' k \<noteq> None"
    "\<And>k'. k' \<noteq> k \<Longrightarrow> dict s' k' = dict s k'"
proof -
  obtain r s1 where a: "entry_alloc env s = (r, s1)" by (cases "entry_alloc env s")
  with assms(3) have c: "index_cache s1 = None" and d: "dict s1 = dict s"
    by (auto simp: entry_alloc_def split: option.splits)
  from assms(1,2) a obtain e where r: "r = Some e"
    and st: "store_capsule env e k (cache_append env e (link_at_tail e k v s1)) = (Inr (), s')"
    by (auto simp: DequeDict_setitem_def split: option.splits)
  from c have ca: "cache_append env e (link_at_tail e k v s1) = link_at_tail e k v s1"
    by (simp add: cache_append_def link_at_tail_def Let_def split: option.splits)
  from st ca have s': "s' = (link_at_tail e k v s1)\<lparr>dict := (dict (link_at_tail e k v s1))(k \<mapsto> e)\<rparr>"
    by (auto simp: store_capsule_def split: if_splits)
  have l: "index_cache (link_at_tail e k v s1) = None" "dict (link_at_tail e k v s1) = dict s"
    using c d by (simp_all add: link_at_tail_def Let_def split: option.splits)
  show "index_cache s' = None" "dict s' k \<noteq> None"
    "\<And>k'. k' \<noteq> k \<Longrightarrow> dict s' k' = dict s k'"
    using l by (simp_all add: s')
qed

lemma init_from_iterable_is_update:
  assumes "index_cache s = None" "distinct (item_keys xs)"
    "\<forall>k \<in> set (item_keys xs). dict s k = None"
  shows "init_from_iterable xs s = update_from_iterable xs s"
  using assms
proof (induction xs arbitrary: s)
  case Nil
  then show ?case by simp
next
  case (Cons x xs)
  obtain env it where x: "x = (env, it)" by (cases x)
  show ?case
  proof (cases it)
    case NotPair
    with x show ?thesis by simp
  next
    case (PyPair k v)
    with x Cons.prems have k: "dict s k = None" "k \<notin> set (item_keys xs)"
      "distinct (item_keys xs)" "\<forall>k' \<in> set (item_keys xs). dict s k' = None"
      by simp_all
    note st = init_step_is_setitem[OF k(1) Cons.prems(1), of env v]
    obtain q s1 where a: "DequeDict_setitem env s k (Some v) = (q, s1)"
      by (cases "DequeDict_setitem env s k (Some v)")
    show ?thesis
    proof (cases q)
      case (Inl e)
      with a st x PyPair show ?thesis by (simp split: prod.splits option.splits)
    next
      case (Inr u)
      with a have a': "DequeDict_setitem env s k (Some v) = (Inr (), s1)" by simp
      note f = setitem_new_keeps_no_cache[OF a' k(1) Cons.prems(1)]
      have "\<forall>k' \<in> set (item_keys xs). dict s1 k' = None"
      proof
        fix k' assume m: "k' \<in> set (item_keys xs)"
        with k(2) have "k' \<noteq> k" by auto
        from f(3)[OF this] k(4) m show "dict s1 k' = None" by simp
      qed
      from Cons.IH[OF f(1) k(3) this] a' st x PyPair show ?thesis
        by (simp split: prod.splits option.splits)
    qed
  qed
qed

text \<open>
  \<open>update\<close> with the pairs \<open>(a, 1), (a, 2)\<close> on the empty container leaves one entry
  with the value 2, and the container equals itself.
\<close>

lemma update_with_duplicate_pairs:
  "(case DequeDict_update (DequeDict_new blank_mem) duplicate_pairs [] of
      (r, d) \<Rightarrow>
        r = Inr () \<and> DequeDict_len d = 1
        \<and> list_view 2 False d = Some [Item ''a'' 2]
        \<and> DequeDict_richcompare d (as_mapping d) Py_EQ = Some Py_True)"
  by (simp add: DequeDict_update_def duplicate_pairs_def as_mapping_def DequeDict_richcompare_def
      eval_defs)

section \<open>The claims\<close>

text \<open>
  Claim C1. An allocation failure while the new entry of \<open>set(key, value)\<close> is created
  should leave the container in its pre-call state. Evaluated on the empty container
  with a failing \<^verbatim>\<open>PyLong_FromVoidPtr\<close>: the call reports the error, yet the size
  is 1 instead of 0, \<open>head\<close> and \<open>tail\<close> point to the new entry, which is at the same time
  the first block of the free list, the key is not in the index, and iteration yields the
  pair that was not stored.
\<close>

theorem setitem_capsule_failure_leaves_entry_linked:
  "fst (DequeDict_setitem (no_capsule 1) (DequeDict_new blank_mem) ''a'' (Some 1)) = Inl MemoryError
   \<and> dd_size (DequeDict_new blank_mem) = 0
   \<and> dd_size (snd (DequeDict_setitem (no_capsule 1) (DequeDict_new blank_mem) ''a'' (Some 1))) = 1
   \<and> head (snd (DequeDict_setitem (no_capsule 1) (DequeDict_new blank_mem) ''a'' (Some 1))) = Some 1
   \<and> tail (snd (DequeDict_setitem (no_capsule 1) (DequeDict_new blank_mem) ''a'' (Some 1))) = Some 1
   \<and> freelist (snd (DequeDict_setitem (no_capsule 1) (DequeDict_new blank_mem) ''a'' (Some 1))) = Some 1
   \<and> dict (snd (DequeDict_setitem (no_capsule 1) (DequeDict_new blank_mem) ''a'' (Some 1))) ''a'' = None
   \<and> list_view 2 False (DequeDict_new blank_mem) = Some []
   \<and> list_view 2 False (snd (DequeDict_setitem (no_capsule 1) (DequeDict_new blank_mem) ''a'' (Some 1)))
       = Some [Item ''a'' 1]"
  by (simp add: DequeDict_setitem_def DequeDict_new_def no_capsule_def entry_alloc_def
      link_at_tail_def cache_append_def store_capsule_def entry_free_def FREELIST_MAX_def
      list_view_def DequeDictViewIter_next_def Let_def)

text \<open>
  Claim C2. The invariant is not preserved by an insertion whose entry cannot be stored
  in the key index (the defect of claim C1: the entry is handed to \<^verbatim>\<open>entry_free\<close>
  while it stays linked). The next insertion takes the same block from the free list.
  Started on the empty container, the two insertions leave size 2 and a list whose
  only entry points to itself, and \<open>at(0)\<close> does not return: the rebuild loop writes
  past the end of the array. Started on the container \<open>a, b, c\<close> with its cache
  \<open>[1, 2, 3]\<close>, the first call reports the error and the second succeeds; afterwards
  the cache is present with logical size 5 and holds the block 4 in the slots 3 and 4,
  the block stores the slot 4, its \<open>next\<close> is the block itself, so that the traversal
  from the head never ends, and \<open>at(3)\<close> and \<open>at(4)\<close> both return the value 5.
\<close>

theorem failed_insert_breaks_cache_invariant:
  "map_option fst (run (take 2 failed_first_insert_run) (DequeDict_new blank_mem))
     = Some [Inl MemoryError, Inr PyNone]
   \<and> map_option (dd_size \<circ> snd) (run (take 2 failed_first_insert_run) (DequeDict_new blank_mem))
       = Some 2
   \<and> run failed_first_insert_run (DequeDict_new blank_mem) = None
   \<and> (case run failed_insert_run abc_cached of
         None \<Rightarrow> False
       | Some (rs, s') \<Rightarrow>
           rs = [Inl MemoryError, Inr PyNone]
           \<and> index_cache s' = Some [1, 2, 3, 4, 4, 0, 0, 0]
           \<and> cache_offset s' = 0 \<and> cache_size s' = 5 \<and> dd_size s' = 5
           \<and> entry_cache_idx (mem s' 4) = 4
           \<and> head s' = Some 1 \<and> tail s' = Some 4 \<and> entry_next (mem s' 4) = Some 4
           \<and> list_view 2 False s' = None
           \<and> map_option fst (DequeDict_at (all_ok 6) s' 3) = Some (Inr 5)
           \<and> map_option fst (DequeDict_at (all_ok 6) s' 4) = Some (Inr 5))"
proof -
  have a1: "map_option fst (run (take 2 failed_first_insert_run) (DequeDict_new blank_mem))
     = Some [Inl MemoryError, Inr PyNone]"
    by (simp add: failed_first_insert_run_def eval_defs)
  have a2: "map_option (dd_size \<circ> snd)
       (run (take 2 failed_first_insert_run) (DequeDict_new blank_mem)) = Some 2"
    by (simp add: failed_first_insert_run_def eval_defs)
  have a3: "run failed_first_insert_run (DequeDict_new blank_mem) = None"
    by (simp add: failed_first_insert_run_def eval_defs eval_nat_numeral)
  have e: "case run failed_insert_run abc_cached of
         None \<Rightarrow> False
       | Some (rs, s') \<Rightarrow>
           rs = [Inl MemoryError, Inr PyNone]
           \<and> index_cache s' = Some [1, 2, 3, 4, 4, 0, 0, 0]
           \<and> cache_offset s' = 0 \<and> cache_size s' = 5 \<and> dd_size s' = 5
           \<and> entry_cache_idx (mem s' 4) = 4
           \<and> head s' = Some 1 \<and> tail s' = Some 4 \<and> entry_next (mem s' 4) = Some 4
           \<and> entry_next (mem s' 1) = Some 2 \<and> entry_next (mem s' 2) = Some 3
           \<and> entry_next (mem s' 3) = Some 4
           \<and> map_option fst (DequeDict_at (all_ok 6) s' 3) = Some (Inr 5)
           \<and> map_option fst (DequeDict_at (all_ok 6) s' 4) = Some (Inr 5)"
    by (simp add: failed_insert_run_def abc_cached_def abc_entries_cached_def eval_defs
        eval_nat_numeral)
  then obtain rs s' where r: "run failed_insert_run abc_cached = Some (rs, s')"
    and f: "rs = [Inl MemoryError, Inr PyNone]"
      "index_cache s' = Some [1, 2, 3, 4, 4, 0, 0, 0]"
      "cache_offset s' = 0" "cache_size s' = 5" "dd_size s' = 5"
      "entry_cache_idx (mem s' 4) = 4"
      "head s' = Some 1" "tail s' = Some 4" "entry_next (mem s' 4) = Some 4"
      "map_option fst (DequeDict_at (all_ok 6) s' 3) = Some (Inr 5)"
      "map_option fst (DequeDict_at (all_ok 6) s' 4) = Some (Inr 5)"
    and n: "entry_next (mem s' (Suc 0)) = Some 2" "entry_next (mem s' 2) = Some 3"
      "entry_next (mem s' 3) = Some 4"
    by (auto split: option.splits)
  let ?f = "DequeDictViewIter_next 2 False (mem s')"
  have "collect ?f (Some 4) = None"
    by (rule collect_self_loop) (simp add: DequeDictViewIter_next_def f)
  then have "collect ?f (Some 3) = None"
    by (rule collect_step_None[rotated]) (simp add: DequeDictViewIter_next_def n)
  then have "collect ?f (Some 2) = None"
    by (rule collect_step_None[rotated]) (simp add: DequeDictViewIter_next_def n)
  then have "collect ?f (Some 1) = None"
    by (rule collect_step_None[rotated]) (simp add: DequeDictViewIter_next_def n)
  then have lv: "list_view 2 False s' = None" by (simp add: list_view_def f)
  from r f lv have "case run failed_insert_run abc_cached of
         None \<Rightarrow> False
       | Some (rs, s') \<Rightarrow>
           rs = [Inl MemoryError, Inr PyNone]
           \<and> index_cache s' = Some [1, 2, 3, 4, 4, 0, 0, 0]
           \<and> cache_offset s' = 0 \<and> cache_size s' = 5 \<and> dd_size s' = 5
           \<and> entry_cache_idx (mem s' 4) = 4
           \<and> head s' = Some 1 \<and> tail s' = Some 4 \<and> entry_next (mem s' 4) = Some 4
           \<and> list_view 2 False s' = None
           \<and> map_option fst (DequeDict_at (all_ok 6) s' 3) = Some (Inr 5)
           \<and> map_option fst (DequeDict_at (all_ok 6) s' 4) = Some (Inr 5)"
    by simp
  with a1 a2 a3 show ?thesis by (intro conjI)
qed

text \<open>
  Claim C3. The cache is present and full (\<open>cache_size = cache_capacity\<close>) and
  \<open>set(k, v)\<close> appends a new key. When the reallocation succeeds, the growth step
  sets the capacity to the double, at least 8, and keeps the slots; when it fails, the
  step leaves the cache absent with size, capacity and offset 0. In both cases the
  assignment succeeds and the new pair is the last of the traversal; after a failed
  growth a later \<open>at(i)\<close> (whose allocation succeeds; \<open>i\<close> is below the size and,
  as every size of the C program is, a \<^verbatim>\<open>Py_ssize_t\<close>) rebuilds the cache and
  returns the value of the \<open>i\<close>-th entry.
\<close>

theorem cache_growth_failure_degrades:
  fixes s :: "('k, 'v) DequeDictObject" and v :: 'v
  assumes inv: "dd_inv s as fs"
    and full: "index_cache s = Some arr" "cache_size s = cache_capacity s"
    and k: "dict s k = None"
    and fresh: "malloc_fresh env s" and ok: "index_alloc_ok env"
    and al: "entry_alloc env s = (Some a, s1)"
  shows "(cache_alloc_ok env \<longrightarrow>
            (\<exists>arr'. DequeDict_cache_ensure_capacity env s
                      = (0, s\<lparr>index_cache := Some arr',
                               cache_capacity := max 8 (2 * cache_capacity s)\<rparr>)
                \<and> int (length arr') = max 8 (2 * cache_capacity s)
                \<and> take (length arr) arr' = arr))
     \<and> (\<not> cache_alloc_ok env \<longrightarrow>
            DequeDict_cache_ensure_capacity env s
              = (- 1, s\<lparr>index_cache := None, cache_size := 0, cache_capacity := 0,
                         cache_offset := 0\<rparr>))
     \<and> (\<exists>s' fs'. DequeDict_setitem env s k (Some v) = (Inr (), s')
            \<and> dd_inv s' (as @ [a]) fs'
            \<and> list_view 2 False s' = Some (map (view_obj 2 (mem s)) as @ [Item k v])
            \<and> (cache_alloc_ok env \<longrightarrow>
                  index_cache s' \<noteq> None \<and> cache_capacity s' = max 8 (2 * cache_capacity s)
                  \<and> cache_size s' = cache_size s + 1)
            \<and> (\<not> cache_alloc_ok env \<longrightarrow>
                  index_cache s' = None \<and> cache_size s' = 0 \<and> cache_capacity s' = 0
                  \<and> cache_offset s' = 0
                  \<and> (\<forall>env' i. cache_alloc_ok env' \<and> fits_ssize_t i \<and> 0 \<le> i \<and> i < dd_size s' \<longrightarrow>
                        (\<exists>s''. DequeDict_at env' s' i
                                  = Some (Inr (entry_value (mem s' ((as @ [a]) ! nat i))), s'')
                              \<and> index_cache s'' \<noteq> None))))"
proof -
  from inv full have cap: "int (length arr) = cache_capacity s"
    by (simp add: dd_inv_def cache_inv_def)
  let ?new_cap = "max 8 (2 * cache_capacity s)"
  let ?arr' = "take (nat ?new_cap) (arr @ replicate (nat ?new_cap) 0)"
  have g1: "cache_alloc_ok env \<longrightarrow>
            (\<exists>arr'. DequeDict_cache_ensure_capacity env s
                      = (0, s\<lparr>index_cache := Some arr', cache_capacity := ?new_cap\<rparr>)
                \<and> int (length arr') = ?new_cap \<and> take (length arr) arr' = arr)"
  proof
    assume c: "cache_alloc_ok env"
    have "(if cache_capacity s * 2 < 8 then 8 else cache_capacity s * 2) = ?new_cap" by simp
    then have "DequeDict_cache_ensure_capacity env s
        = (0, s\<lparr>index_cache := Some ?arr', cache_capacity := ?new_cap\<rparr>)"
      using c full by (simp add: DequeDict_cache_ensure_capacity_def Let_def del: max_less_iff_conj)
    moreover have "length ?arr' = nat ?new_cap" by simp
    then have "int (length ?arr') = ?new_cap" by simp
    moreover have "take (length arr) ?arr' = arr" using cap by simp
    ultimately show "\<exists>arr'. DequeDict_cache_ensure_capacity env s
                      = (0, s\<lparr>index_cache := Some arr', cache_capacity := ?new_cap\<rparr>)
                \<and> int (length arr') = ?new_cap \<and> take (length arr) arr' = arr"
      by blast
  qed
  have g2: "\<not> cache_alloc_ok env \<longrightarrow>
            DequeDict_cache_ensure_capacity env s
              = (- 1, s\<lparr>index_cache := None, cache_size := 0, cache_capacity := 0,
                         cache_offset := 0\<rparr>)"
    using full by (simp add: DequeDict_cache_ensure_capacity_def Let_def
        DequeDict_invalidate_cache_def)
  let ?s2 = "link_at_tail a k v s1"
  let ?s' = "(cache_append env a ?s2)\<lparr>dict := (dict s)(k \<mapsto> a)\<rparr>"
  note f = entry_alloc_fields[OF al]
  from ok have ok': "capsule_ok env" "dict_set_ok env" by (simp_all add: index_alloc_ok_def)
  have st: "DequeDict_setitem env s k (Some v) = (Inr (), ?s')"
    by (rule setitem_new_state[OF k al ok'])
  note n = dd_inv_setitem_new(1)[OF inv k fresh al, of v]
    dd_inv_setitem_new(2)[OF inv k fresh al]
    dd_inv_setitem_new(3)[OF inv k fresh al, of v]
    dd_inv_setitem_new(4)[OF inv k fresh al, of v]
    dd_inv_setitem_new(5)[OF inv k fresh al, of _ v]
    dd_inv_setitem_new(6)[OF inv k fresh al, of _ v]
  from n(1) obtain fs' where inv': "dd_inv ?s' (as @ [a]) fs'" by blast
  have li': "links_inv ?s' (as @ [a])" by (rule dd_inv_links[OF inv'])
  have "map (view_obj 2 (mem ?s')) as = map (view_obj 2 (mem s)) as"
  proof (rule map_cong[OF refl])
    fix b assume "b \<in> set as"
    with n(2) have "b \<noteq> a" by auto
    then show "view_obj 2 (mem ?s') b = view_obj 2 (mem s) b"
      by (intro view_obj_cong n(5,6))
  qed
  moreover have "view_obj 2 (mem ?s') a = Item k v"
    using n(3,4) by (simp add: view_obj_item)
  ultimately have lv: "list_view 2 False ?s' = Some (map (view_obj 2 (mem s)) as @ [Item k v])"
    using list_view_inv(1)[OF li', of 2] by simp
  have s2c: "index_cache ?s2 = Some arr" "cache_size ?s2 = cache_capacity ?s2"
    "cache_capacity ?s2 = cache_capacity s" "cache_size ?s2 = cache_size s"
    using full by (simp_all add: f)
  have c1: "cache_alloc_ok env \<longrightarrow>
                  index_cache ?s' \<noteq> None \<and> cache_capacity ?s' = ?new_cap
                  \<and> cache_size ?s' = cache_size s + 1"
    using s2c by (simp add: cache_append_def DequeDict_cache_ensure_capacity_def Let_def
        del: max_less_iff_conj) 
  have c2: "\<not> cache_alloc_ok env \<longrightarrow>
                  index_cache ?s' = None \<and> cache_size ?s' = 0 \<and> cache_capacity ?s' = 0
                  \<and> cache_offset ?s' = 0"
    using s2c by (simp add: cache_append_def DequeDict_cache_ensure_capacity_def Let_def)
  have sz': "dd_size ?s' = int (length (as @ [a]))"
    by (rule core_inv_size[OF dd_inv_core[OF inv']])
  have at: "\<not> cache_alloc_ok env \<longrightarrow>
      (\<forall>env' i. cache_alloc_ok env' \<and> fits_ssize_t i \<and> 0 \<le> i \<and> i < dd_size ?s' \<longrightarrow>
          (\<exists>s''. DequeDict_at env' ?s' i
                    = Some (Inr (entry_value (mem ?s' ((as @ [a]) ! nat i))), s'')
                \<and> index_cache s'' \<noteq> None))"
  proof (intro allI impI)
    fix env' :: alloc_env and i :: int
    assume "\<not> cache_alloc_ok env" and h: "cache_alloc_ok env' \<and> fits_ssize_t i \<and> 0 \<le> i \<and> i < dd_size ?s'"
    from h have fit: "fits_ssize_t i" by simp
    from at_inv[OF inv' fit, of env'] h sz'
    show "\<exists>s''. DequeDict_at env' ?s' i
                    = Some (Inr (entry_value (mem ?s' ((as @ [a]) ! nat i))), s'')
                \<and> index_cache s'' \<noteq> None"
      by (auto simp: norm_index_def)
  qed
  from st inv' lv c1 c2 at
  have "\<exists>s' fs'. DequeDict_setitem env s k (Some v) = (Inr (), s')
            \<and> dd_inv s' (as @ [a]) fs'
            \<and> list_view 2 False s' = Some (map (view_obj 2 (mem s)) as @ [Item k v])
            \<and> (cache_alloc_ok env \<longrightarrow>
                  index_cache s' \<noteq> None \<and> cache_capacity s' = max 8 (2 * cache_capacity s)
                  \<and> cache_size s' = cache_size s + 1)
            \<and> (\<not> cache_alloc_ok env \<longrightarrow>
                  index_cache s' = None \<and> cache_size s' = 0 \<and> cache_capacity s' = 0
                  \<and> cache_offset s' = 0
                  \<and> (\<forall>env' i. cache_alloc_ok env' \<and> fits_ssize_t i \<and> 0 \<le> i \<and> i < dd_size s' \<longrightarrow>
                        (\<exists>s''. DequeDict_at env' s' i
                                  = Some (Inr (entry_value (mem s' ((as @ [a]) ! nat i))), s'')
                              \<and> index_cache s'' \<noteq> None)))"
    by blast
  with g1 g2 show ?thesis by blast
qed


text \<open>
  The container \<open>a, b, c\<close> with its cache of capacity 3 full, and \<open>set(d, 4)\<close> while
  the reallocation fails: the assignment succeeds, the cache is absent, iteration yields
  the four pairs and \<open>at(3) = 4\<close> after the rebuild. With a reallocation that succeeds
  the capacity is 8.
\<close>

theorem cache_growth_failure_degrades_witness:
  "dd_inv abc_cached [1, 2, 3] []
   \<and> index_cache abc_cached = Some [1, 2, 3]
   \<and> cache_size abc_cached = cache_capacity abc_cached
   \<and> dict abc_cached ''d'' = None
   \<and> malloc_fresh (no_cache_memory 4) abc_cached
   \<and> index_alloc_ok (no_cache_memory 4)
   \<and> entry_alloc (no_cache_memory 4) abc_cached
       = (Some 4, abc_cached\<lparr>allocated := insert 4 (allocated abc_cached)\<rparr>)
   \<and> DequeDict_cache_ensure_capacity (no_cache_memory 4) abc_cached
       = (- 1, abc_cached\<lparr>index_cache := None, cache_size := 0, cache_capacity := 0,
                          cache_offset := 0\<rparr>)
   \<and> (\<exists>s' fs'. DequeDict_setitem (no_cache_memory 4) abc_cached ''d'' (Some 4) = (Inr (), s')
            \<and> dd_inv s' ([1, 2, 3] @ [4]) fs'
            \<and> list_view 2 False s' = Some (map (view_obj 2 (mem abc_cached)) [1, 2, 3] @ [Item ''d'' 4])
            \<and> index_cache s' = None \<and> cache_size s' = 0 \<and> cache_capacity s' = 0
            \<and> cache_offset s' = 0
            \<and> (\<forall>env' i. cache_alloc_ok env' \<and> fits_ssize_t i \<and> 0 \<le> i \<and> i < dd_size s' \<longrightarrow>
                  (\<exists>s''. DequeDict_at env' s' i
                            = Some (Inr (entry_value (mem s' (([1, 2, 3] @ [4]) ! nat i))), s'')
                        \<and> index_cache s'' \<noteq> None)))
   \<and> (case DequeDict_setitem (no_cache_memory 4) abc_cached ''d'' (Some 4) of
         (r, s') \<Rightarrow>
           r = Inr () \<and> index_cache s' = None \<and> cache_capacity s' = 0
           \<and> list_view 2 False s'
               = Some [Item ''a'' 1, Item ''b'' 2, Item ''c'' 3, Item ''d'' 4]
           \<and> map_option fst (DequeDict_at (all_ok 5) s' 3) = Some (Inr 4)
           \<and> map_option (index_cache \<circ> snd) (DequeDict_at (all_ok 5) s' 3)
               = Some (Some [1, 2, 3, 4]))
   \<and> (case DequeDict_setitem (all_ok 4) abc_cached ''d'' (Some 4) of
         (r, s') \<Rightarrow>
           r = Inr () \<and> index_cache s' = Some [1, 2, 3, 4, 0, 0, 0, 0]
           \<and> cache_capacity s' = 8 \<and> cache_size s' = 4)"
proof -
  have h1: "dd_inv abc_cached [1, 2, 3] []" by (rule dd_inv_abc_cached)
  have h2: "index_cache abc_cached = Some [1, 2, 3]" by (simp add: abc_cached_def)
  have h3: "cache_size abc_cached = cache_capacity abc_cached" by (simp add: abc_cached_def)
  have h4: "dict abc_cached ''d'' = None" by (simp add: abc_cached_def)
  have h5: "malloc_fresh (no_cache_memory 4) abc_cached"
    by (simp add: abc_cached_def eval_defs)
  have h6: "index_alloc_ok (no_cache_memory 4)" by (simp add: eval_defs)
  have h7: "entry_alloc (no_cache_memory 4) abc_cached
       = (Some 4, abc_cached\<lparr>allocated := insert 4 (allocated abc_cached)\<rparr>)"
    by (simp add: abc_cached_def eval_defs)
  have e1: "case DequeDict_setitem (no_cache_memory 4) abc_cached ''d'' (Some 4) of
         (r, s') \<Rightarrow>
           r = Inr () \<and> index_cache s' = None \<and> cache_capacity s' = 0
           \<and> list_view 2 False s'
               = Some [Item ''a'' 1, Item ''b'' 2, Item ''c'' 3, Item ''d'' 4]
           \<and> map_option fst (DequeDict_at (all_ok 5) s' 3) = Some (Inr 4)
           \<and> map_option (index_cache \<circ> snd) (DequeDict_at (all_ok 5) s' 3)
               = Some (Some [1, 2, 3, 4])"
    by (simp add: abc_cached_def abc_entries_cached_def eval_defs eval_nat_numeral)
  have e2: "case DequeDict_setitem (all_ok 4) abc_cached ''d'' (Some 4) of
         (r, s') \<Rightarrow>
           r = Inr () \<and> index_cache s' = Some [1, 2, 3, 4, 0, 0, 0, 0]
           \<and> cache_capacity s' = 8 \<and> cache_size s' = 4"
    by (simp add: abc_cached_def abc_entries_cached_def eval_defs eval_nat_numeral)
  have na: "\<not> cache_alloc_ok (no_cache_memory 4)" by (simp add: no_cache_memory_def)
  note t = cache_growth_failure_degrades[OF h1 h2 h3 h4 h5 h6 h7, of 4]
  from t na have c1: "DequeDict_cache_ensure_capacity (no_cache_memory 4) abc_cached
       = (- 1, abc_cached\<lparr>index_cache := None, cache_size := 0, cache_capacity := 0,
                          cache_offset := 0\<rparr>)"
    by blast
  from t na have c2: "\<exists>s' fs'. DequeDict_setitem (no_cache_memory 4) abc_cached ''d'' (Some 4) = (Inr (), s')
            \<and> dd_inv s' ([1, 2, 3] @ [4]) fs'
            \<and> list_view 2 False s' = Some (map (view_obj 2 (mem abc_cached)) [1, 2, 3] @ [Item ''d'' 4])
            \<and> index_cache s' = None \<and> cache_size s' = 0 \<and> cache_capacity s' = 0
            \<and> cache_offset s' = 0
            \<and> (\<forall>env' i. cache_alloc_ok env' \<and> fits_ssize_t i \<and> 0 \<le> i \<and> i < dd_size s' \<longrightarrow>
                  (\<exists>s''. DequeDict_at env' s' i
                            = Some (Inr (entry_value (mem s' (([1, 2, 3] @ [4]) ! nat i))), s'')
                        \<and> index_cache s'' \<noteq> None))"
    by blast
  show ?thesis
    by (rule conjI[OF h1 conjI[OF h2 conjI[OF h3 conjI[OF h4 conjI[OF h5 conjI[OF h6 conjI[OF h7
          conjI[OF c1 conjI[OF c2 conjI[OF e1 e2]]]]]]]]]])
qed

text \<open>
  Claim C4. As the claim states it, \<open>at(index)\<close> fails with \<^verbatim>\<open>IndexError\<close> for every
  index on an empty container and for \<open>index = size()\<close>. The code converts the argument
  to a \<^verbatim>\<open>Py_ssize_t\<close> first and builds the cache before it looks at the index: on
  the empty container \<open>at(2^63)\<close> raises \<^verbatim>\<open>OverflowError\<close>, and on the container
  \<open>a, b, c\<close> without cache \<open>at(3)\<close> raises \<^verbatim>\<open>MemoryError\<close> when the cache array
  cannot be allocated.
\<close>

theorem at_outside_ssize_t_or_without_memory:
  "DequeDict_at (all_ok 1) (DequeDict_new blank_mem) (2 ^ 63)
     = Some (Inl OverflowError, DequeDict_new blank_mem)
   \<and> DequeDict_at (all_ok 4) abc_state (- (2 ^ 63) - 1) = Some (Inl OverflowError, abc_state)
   \<and> dd_size abc_state = 3
   \<and> map_option fst (DequeDict_at (no_cache_memory 4) abc_state 3) = Some (Inl MemoryError)"
  by (simp add: abc_state_def abc_entries_def eval_defs)

text \<open>
  Claim C4, amended. On a well-formed state \<open>at(index)\<close> returns. An index outside the
  range of \<^verbatim>\<open>Py_ssize_t\<close> fails with \<^verbatim>\<open>OverflowError\<close> and leaves the state.
  For an index within that range: when the cache is absent, the container is not empty
  and the cache array cannot be allocated, the call fails with \<^verbatim>\<open>MemoryError\<close>;
  in every other case a negative index is first increased by the logical size, which
  is the size, the call fails with \<^verbatim>\<open>IndexError\<close> exactly when the normalised index
  is negative or not below the size, and otherwise returns the value of the entry at
  that position of the traversal; so \<open>at(size())\<close>, \<open>at(-size()-1)\<close> and every
  index on an empty container fail with \<^verbatim>\<open>IndexError\<close>, and \<open>at(-1)\<close> is \<open>peek()\<close>
  on a non-empty one.
\<close>

theorem at_index_semantics:
  assumes "dd_inv s as fs"
  shows "\<exists>r s'. DequeDict_at env s index = Some (r, s')
     \<and> (\<not> fits_ssize_t index \<longrightarrow> r = Inl OverflowError \<and> s' = s)
     \<and> (fits_ssize_t index \<and> index_cache s = None \<and> dd_size s \<noteq> 0 \<and> \<not> cache_alloc_ok env
          \<longrightarrow> r = Inl MemoryError)
     \<and> (fits_ssize_t index \<and> (cache_alloc_ok env \<or> dd_size s = 0 \<or> index_cache s \<noteq> None)
          \<longrightarrow> (r = Inl IndexError \<longleftrightarrow>
                  norm_index (dd_size s) index < 0 \<or> norm_index (dd_size s) index \<ge> dd_size s)
             \<and> (r = Inl IndexError \<or>
                  r = Inr (entry_value (mem s (as ! nat (norm_index (dd_size s) index)))))
             \<and> (index = dd_size s \<or> index = - dd_size s - 1 \<or> dd_size s = 0
                  \<longrightarrow> r = Inl IndexError)
             \<and> (index = - 1 \<and> dd_size s \<noteq> 0 \<longrightarrow> r = DequeDict_peek s))
     \<and> (\<forall>arr. index_cache s' = Some arr \<longrightarrow> cache_size s' - cache_offset s' = dd_size s)"
proof (cases "fits_ssize_t index")
  case False
  have sz: "dd_size s = int (length as)" by (rule core_inv_size[OF dd_inv_core[OF assms(1)]])
  from assms have c: "cache_inv s as" by (simp add: dd_inv_def)
  have "\<forall>arr. index_cache s = Some arr \<longrightarrow> cache_size s - cache_offset s = dd_size s"
    using cache_inv_slots(1)[OF c] sz by simp
  with False at_overflow[OF False, of env s] show ?thesis by simp
next
  case fit: True
  have sz: "dd_size s = int (length as)" by (rule core_inv_size[OF dd_inv_core[OF assms(1)]])
  have li: "links_inv s as" by (rule dd_inv_links[OF assms(1)])
  from at_inv[OF assms(1) fit, of env]
  obtain r s' where a: "DequeDict_at env s index = Some (r, s')" and inv': "dd_inv s' as fs"
    and r: "r = (if index_cache s = None \<and> as \<noteq> [] \<and> \<not> cache_alloc_ok env
                   then Inl MemoryError
                   else if norm_index (int (length as)) index < 0
                          \<or> norm_index (int (length as)) index \<ge> int (length as)
                   then Inl IndexError
                   else Inr (entry_value (mem s (as ! nat (norm_index (int (length as)) index)))))"
    by (elim exE conjE) (rule that)
  from inv' have c: "cache_inv s' as" by (simp add: dd_inv_def)
  have 0: "fits_ssize_t index \<and> index_cache s = None \<and> dd_size s \<noteq> 0 \<and> \<not> cache_alloc_ok env
          \<longrightarrow> r = Inl MemoryError"
    using r sz by auto
  have 3: "\<forall>arr. index_cache s' = Some arr \<longrightarrow> cache_size s' - cache_offset s' = dd_size s"
    using cache_inv_slots(1)[OF c] sz by simp
  have m: "fits_ssize_t index \<and> (cache_alloc_ok env \<or> dd_size s = 0 \<or> index_cache s \<noteq> None)
          \<longrightarrow> (r = Inl IndexError \<longleftrightarrow>
                  norm_index (dd_size s) index < 0 \<or> norm_index (dd_size s) index \<ge> dd_size s)
             \<and> (r = Inl IndexError \<or>
                  r = Inr (entry_value (mem s (as ! nat (norm_index (dd_size s) index)))))
             \<and> (index = dd_size s \<or> index = - dd_size s - 1 \<or> dd_size s = 0
                  \<longrightarrow> r = Inl IndexError)
             \<and> (index = - 1 \<and> dd_size s \<noteq> 0 \<longrightarrow> r = DequeDict_peek s)"
  proof
    assume "fits_ssize_t index \<and> (cache_alloc_ok env \<or> dd_size s = 0 \<or> index_cache s \<noteq> None)"
    with sz have ok: "\<not> (index_cache s = None \<and> as \<noteq> [] \<and> \<not> cache_alloc_ok env)"
      by auto
    have 1: "r = Inl IndexError \<longleftrightarrow>
          norm_index (dd_size s) index < 0 \<or> norm_index (dd_size s) index \<ge> dd_size s"
      using r ok by (auto simp: sz)
    have 2: "r = Inl IndexError \<or>
          r = Inr (entry_value (mem s (as ! nat (norm_index (dd_size s) index))))"
      using r ok by (auto simp: sz)
    have 4: "index = dd_size s \<or> index = - dd_size s - 1 \<or> dd_size s = 0 \<longrightarrow> r = Inl IndexError"
      unfolding 1 using sz by (auto simp: norm_index_def)
    have 5: "index = - 1 \<and> dd_size s \<noteq> 0 \<longrightarrow> r = DequeDict_peek s"
    proof
      assume h: "index = - 1 \<and> dd_size s \<noteq> 0"
      with sz have ne: "as \<noteq> []" by auto
      from h sz have n: "norm_index (dd_size s) index = int (length as) - 1"
        by (simp add: norm_index_def)
      from ne have "nat (int (length as) - 1) = length as - 1" by simp
      with ne have "as ! nat (int (length as) - 1) = last as" by (simp add: last_conv_nth)
      with r ok n ne sz show "r = DequeDict_peek s"
        by (auto simp: peek_inv(1)[OF li ne])
    qed
    from 1 2 4 5 show "(r = Inl IndexError \<longleftrightarrow>
                  norm_index (dd_size s) index < 0 \<or> norm_index (dd_size s) index \<ge> dd_size s)
             \<and> (r = Inl IndexError \<or>
                  r = Inr (entry_value (mem s (as ! nat (norm_index (dd_size s) index)))))
             \<and> (index = dd_size s \<or> index = - dd_size s - 1 \<or> dd_size s = 0
                  \<longrightarrow> r = Inl IndexError)
             \<and> (index = - 1 \<and> dd_size s \<noteq> 0 \<longrightarrow> r = DequeDict_peek s)"
      by (intro conjI)
  qed
  from a fit 0 m 3 show ?thesis by blast
qed

text \<open>
  On the container \<open>a, b, c\<close>: \<open>at(-1) = 3 = peek()\<close>, \<open>at(3)\<close> and \<open>at(-4)\<close>
  fail with \<^verbatim>\<open>IndexError\<close>, \<open>at(-3) = 1\<close>; \<open>at(0)\<close> fails on the empty container.
\<close>

theorem at_index_semantics_witness:
  "dd_inv abc_state [1, 2, 3] []
   \<and> (\<exists>r s'. DequeDict_at (all_ok 4) abc_state (- 1) = Some (r, s') \<and> r = DequeDict_peek abc_state)
   \<and> map_option fst (DequeDict_at (all_ok 4) abc_state (- 1)) = Some (Inr 3)
   \<and> DequeDict_peek abc_state = Inr 3
   \<and> map_option fst (DequeDict_at (all_ok 4) abc_state 3) = Some (Inl IndexError)
   \<and> map_option fst (DequeDict_at (all_ok 4) abc_state (- 4)) = Some (Inl IndexError)
   \<and> map_option fst (DequeDict_at (all_ok 4) abc_state (- 3)) = Some (Inr 1)
   \<and> map_option fst (DequeDict_at (all_ok 4) (DequeDict_new blank_mem) 0) = Some (Inl IndexError)"
proof -
  have h1: "dd_inv abc_state [1, 2, 3] []" by (rule dd_inv_abc_state)
  have f: "fits_ssize_t (- 1)" "cache_alloc_ok (all_ok 4)" "dd_size abc_state \<noteq> 0"
    by (simp_all add: eval_defs abc_state_def)
  from at_index_semantics[OF h1, of "all_ok 4" "- 1"] f
  have p: "\<exists>r s'. DequeDict_at (all_ok 4) abc_state (- 1) = Some (r, s') \<and> r = DequeDict_peek abc_state"
    by blast
  have e: "map_option fst (DequeDict_at (all_ok 4) abc_state (- 1)) = Some (Inr 3)
   \<and> DequeDict_peek abc_state = Inr 3
   \<and> map_option fst (DequeDict_at (all_ok 4) abc_state 3) = Some (Inl IndexError)
   \<and> map_option fst (DequeDict_at (all_ok 4) abc_state (- 4)) = Some (Inl IndexError)
   \<and> map_option fst (DequeDict_at (all_ok 4) abc_state (- 3)) = Some (Inr 1)
   \<and> map_option fst (DequeDict_at (all_ok 4) (DequeDict_new blank_mem) 0) = Some (Inl IndexError)"
    by (simp add: abc_state_def abc_entries_def eval_defs eval_nat_numeral)
  show ?thesis
    by (rule conjI[OF h1 conjI[OF p e]])
qed



text \<open>
  Claim C6. \<open>set(k, v)\<close> on a well-formed state in which \<open>k\<close> is present, stored in
  the entry \<open>a\<close>: the call succeeds and the new state differs from the old one only
  in the value field of \<open>a\<close>. Size, head, tail, key index, the order of keys in
  iteration and the four cache fields are unchanged, the values of the other keys are
  unchanged, and \<open>get(k)\<close> returns \<open>v\<close>.
\<close>

theorem set_existing_replaces_value_only:
  assumes "dd_inv s as fs" "dict s k = Some a"
  shows "\<exists>s'. DequeDict_setitem env s k (Some v) = (Inr (), s')
     \<and> s' = s\<lparr>mem := (mem s)(a := (mem s a)\<lparr>entry_value := v\<rparr>)\<rparr>
     \<and> dd_size s' = dd_size s \<and> head s' = head s \<and> tail s' = tail s \<and> dict s' = dict s
     \<and> list_iter s' = list_iter s \<and> list_iter s = Some (map Key (keys_of (mem s) as))
     \<and> index_cache s' = index_cache s \<and> cache_size s' = cache_size s
     \<and> cache_offset s' = cache_offset s \<and> cache_capacity s' = cache_capacity s
     \<and> DequeDict_getitem s' k = Inr v
     \<and> (\<forall>k'. k' \<noteq> k \<longrightarrow> DequeDict_getitem s' k' = DequeDict_getitem s k')
     \<and> dd_inv s' as fs"
proof -
  let ?s' = "s\<lparr>mem := (mem s)(a := (mem s a)\<lparr>entry_value := v\<rparr>)\<rparr>"
  have core: "core_inv s as fs" by (rule dd_inv_core[OF assms(1)])
  have li: "links_inv s as" by (rule core_inv_links[OF core])
  have inv': "dd_inv ?s' as fs" by (rule dd_inv_set_value[OF assms(1)])
  have st: "DequeDict_setitem env s k (Some v) = (Inr (), ?s')"
    by (rule setitem_update[OF assms(2)])
  have it: "list_iter s = Some (map Key (keys_of (mem s) as))" by (rule list_iter_keys[OF li])
  have "keys_of (mem ?s') as = keys_of (mem s) as" by (rule keys_of_cong) simp
  with list_iter_keys[OF dd_inv_links[OF inv']] it have it': "list_iter ?s' = list_iter s"
    by simp
  have g: "DequeDict_getitem ?s' k = Inr v"
    using assms(2) by (simp add: DequeDict_getitem_def)
  have o: "\<forall>k'. k' \<noteq> k \<longrightarrow> DequeDict_getitem ?s' k' = DequeDict_getitem s k'"
  proof (intro allI impI)
    fix k' assume ne: "k' \<noteq> k"
    show "DequeDict_getitem ?s' k' = DequeDict_getitem s k'"
    proof (cases "dict s k'")
      case None
      then show ?thesis by (simp add: DequeDict_getitem_def)
    next
      case (Some b)
      from core_inv_lookup[OF core Some] core_inv_lookup[OF core assms(2)] ne
      have "b \<noteq> a" by auto
      with Some show ?thesis by (simp add: DequeDict_getitem_def)
    qed
  qed
  show ?thesis
  proof (intro exI[of _ ?s'] conjI)
    show "DequeDict_setitem env s k (Some v) = (Inr (), ?s')" by (rule st)
    show "list_iter ?s' = list_iter s" by (rule it')
    show "list_iter s = Some (map Key (keys_of (mem s) as))" by (rule it)
    show "DequeDict_getitem ?s' k = Inr v" by (rule g)
    show "\<forall>k'. k' \<noteq> k \<longrightarrow> DequeDict_getitem ?s' k' = DequeDict_getitem s k'" by (rule o)
    show "dd_inv ?s' as fs" by (rule inv')
  qed simp_all
qed

text \<open>
  On the container \<open>a, b, c\<close> with its cache built, \<open>set(b, 20)\<close>: the state changes in
  the value of the block 2 only, \<open>get(b)\<close> is 20, iteration yields \<open>a, b, c\<close>.
\<close>

theorem set_existing_replaces_value_only_witness:
  "dd_inv abc_cached [1, 2, 3] [] \<and> dict abc_cached ''b'' = Some 2
   \<and> (\<exists>s'. DequeDict_setitem (all_ok 4) abc_cached ''b'' (Some 20) = (Inr (), s')
     \<and> s' = abc_cached\<lparr>mem := (mem abc_cached)(2 := (mem abc_cached 2)\<lparr>entry_value := 20\<rparr>)\<rparr>
     \<and> dd_size s' = dd_size abc_cached \<and> head s' = head abc_cached
     \<and> tail s' = tail abc_cached \<and> dict s' = dict abc_cached
     \<and> list_iter s' = list_iter abc_cached
     \<and> list_iter abc_cached = Some (map Key (keys_of (mem abc_cached) [1, 2, 3]))
     \<and> index_cache s' = index_cache abc_cached \<and> cache_size s' = cache_size abc_cached
     \<and> cache_offset s' = cache_offset abc_cached
     \<and> cache_capacity s' = cache_capacity abc_cached
     \<and> DequeDict_getitem s' ''b'' = Inr 20
     \<and> (\<forall>k'. k' \<noteq> ''b'' \<longrightarrow> DequeDict_getitem s' k' = DequeDict_getitem abc_cached k')
     \<and> dd_inv s' [1, 2, 3] [])
   \<and> list_view 2 False (snd (DequeDict_setitem (all_ok 4) abc_cached ''b'' (Some 20)))
       = Some [Item ''a'' 1, Item ''b'' 20, Item ''c'' 3]
   \<and> index_cache (snd (DequeDict_setitem (all_ok 4) abc_cached ''b'' (Some 20)))
       = Some [1, 2, 3]"
proof -
  have h1: "dd_inv abc_cached [1, 2, 3] []" by (rule dd_inv_abc_cached)
  have h2: "dict abc_cached ''b'' = Some 2" by (simp add: abc_cached_def)
  have e: "list_view 2 False (snd (DequeDict_setitem (all_ok 4) abc_cached ''b'' (Some 20)))
       = Some [Item ''a'' 1, Item ''b'' 20, Item ''c'' 3]
   \<and> index_cache (snd (DequeDict_setitem (all_ok 4) abc_cached ''b'' (Some 20)))
       = Some [1, 2, 3]"
    by (simp add: abc_cached_def abc_entries_cached_def eval_defs)
  show ?thesis
    by (rule conjI[OF h1 conjI[OF h2 conjI[OF
          set_existing_replaces_value_only[OF h1 h2, of "all_ok 4" 20] e]]])
qed

text \<open>
  Claim C7. \<open>pop(k, default)\<close> on a well-formed state: for an absent key it returns
  the default and leaves the state (so the size and the entries) unchanged, and without
  default it fails with \<^verbatim>\<open>KeyError\<close>, the state unchanged; for a present key it
  returns the value and leaves the state that \<open>del d[k]\<close> leaves: the entry is
  removed from the list wherever it stands, the key from the index, the size is one
  less and the cache is absent.
\<close>

theorem pop_by_key_semantics:
  assumes "dd_inv s as fs"
  shows "(dict s k = None \<longrightarrow>
            DequeDict_pop s (Some k) (Some d) = (Inr d, s)
            \<and> DequeDict_pop s (Some k) None = (Inl KeyError, s))
     \<and> (\<forall>a. dict s k = Some a \<longrightarrow>
           (\<exists>s' fs'. DequeDict_pop s (Some k) dflt = (Inr (Value (entry_value (mem s a))), s')
               \<and> DequeDict_setitem env s k None = (Inr (), s')
               \<and> index_cache s' = None \<and> dd_size s' = dd_size s - 1 \<and> dict s' k = None
               \<and> a \<in> set as \<and> dd_inv s' (remove1 a as) fs'
               \<and> list_view 2 False s' = Some (map (view_obj 2 (mem s)) (remove1 a as))))"
proof -
  have core: "core_inv s as fs" by (rule dd_inv_core[OF assms])
  have 1: "dict s k = None \<longrightarrow>
            DequeDict_pop s (Some k) (Some d) = (Inr d, s)
            \<and> DequeDict_pop s (Some k) None = (Inl KeyError, s)"
    by (simp add: pop_key_absent)
  have 2: "\<forall>a. dict s k = Some a \<longrightarrow>
           (\<exists>s' fs'. DequeDict_pop s (Some k) dflt = (Inr (Value (entry_value (mem s a))), s')
               \<and> DequeDict_setitem env s k None = (Inr (), s')
               \<and> index_cache s' = None \<and> dd_size s' = dd_size s - 1 \<and> dict s' k = None
               \<and> a \<in> set as \<and> dd_inv s' (remove1 a as) fs'
               \<and> list_view 2 False s' = Some (map (view_obj 2 (mem s)) (remove1 a as)))"
  proof (intro allI impI)
    fix a assume k: "dict s k = Some a"
    let ?s' = "DequeDict_invalidate_cache (discard_entry a k (unlink_from_list a s))"
    from dd_inv_remove_key[OF assms k]
    obtain fs' where inv': "dd_inv ?s' (remove1 a as) fs'" by blast
    have "map (view_obj 2 (mem ?s')) (remove1 a as) = map (view_obj 2 (mem s)) (remove1 a as)"
      by (rule map_cong[OF refl]) (simp add: view_obj_def)
    with list_view_inv(1)[OF dd_inv_links[OF inv'], of 2]
    have lv: "list_view 2 False ?s' = Some (map (view_obj 2 (mem s)) (remove1 a as))" by simp
    from core_inv_lookup[OF core k] have a: "a \<in> set as" by simp
    have f: "index_cache ?s' = None" "dd_size ?s' = dd_size s - 1" "dict ?s' k = None"
      by simp_all
    from pop_key_state[OF k, of dflt] delitem_state[OF k, of env] f a inv' lv
    show "\<exists>s' fs'. DequeDict_pop s (Some k) dflt = (Inr (Value (entry_value (mem s a))), s')
               \<and> DequeDict_setitem env s k None = (Inr (), s')
               \<and> index_cache s' = None \<and> dd_size s' = dd_size s - 1 \<and> dict s' k = None
               \<and> a \<in> set as \<and> dd_inv s' (remove1 a as) fs'
               \<and> list_view 2 False s' = Some (map (view_obj 2 (mem s)) (remove1 a as))"
      by blast
  qed
  from 1 2 show ?thesis by blast
qed

text \<open>
  Scenario E on the container \<open>a, b, c\<close> with its cache built: \<open>pop(z, -1)\<close> returns -1
  and changes nothing, \<open>pop(z)\<close> fails; \<open>pop(b)\<close> returns 2, leaves \<open>a, c\<close> and no cache.
\<close>

theorem pop_by_key_semantics_witness:
  "dd_inv abc_cached [1, 2, 3] []
   \<and> DequeDict_pop abc_cached (Some ''z'') (Some (Value (- 1))) = (Inr (Value (- 1)), abc_cached)
   \<and> DequeDict_pop abc_cached (Some ''z'') None = (Inl KeyError, abc_cached)
   \<and> fst (DequeDict_pop abc_cached (Some ''b'') None) = Inr (Value 2)
   \<and> list_view 2 False (snd (DequeDict_pop abc_cached (Some ''b'') None))
       = Some [Item ''a'' 1, Item ''c'' 3]
   \<and> index_cache (snd (DequeDict_pop abc_cached (Some ''b'') None)) = None
   \<and> dd_size (snd (DequeDict_pop abc_cached (Some ''b'') None)) = 2"
proof -
  have h1: "dd_inv abc_cached [1, 2, 3] []" by (rule dd_inv_abc_cached)
  have z: "dict abc_cached ''z'' = None" by (simp add: abc_cached_def)
  note t = pop_by_key_semantics[OF h1, of "''z''" "Value (- 1)"]
  from t z have c1: "DequeDict_pop abc_cached (Some ''z'') (Some (Value (- 1)))
      = (Inr (Value (- 1)), abc_cached)" by blast
  from t z have c2: "DequeDict_pop abc_cached (Some ''z'') None = (Inl KeyError, abc_cached)"
    by blast
  have e: "fst (DequeDict_pop abc_cached (Some ''b'') None) = Inr (Value 2)
   \<and> list_view 2 False (snd (DequeDict_pop abc_cached (Some ''b'') None))
       = Some [Item ''a'' 1, Item ''c'' 3]
   \<and> index_cache (snd (DequeDict_pop abc_cached (Some ''b'') None)) = None
   \<and> dd_size (snd (DequeDict_pop abc_cached (Some ''b'') None)) = 2"
    by (simp add: abc_cached_def abc_entries_cached_def eval_defs)
  show ?thesis by (rule conjI[OF h1 conjI[OF c1 conjI[OF c2 e]]])
qed

text \<open>
  Claim C8. \<^verbatim>\<open>DequeDict_init\<close> links one entry for every pair of its argument
  without looking the key up, unlike \<^verbatim>\<open>DequeDict_setitem\<close> and the loops of
  \<^verbatim>\<open>DequeDict_update\<close>. For \<^verbatim>\<open>d = DequeDict([("a", 1), ("a", 2)])\<close> the
  construction succeeds with size 2, the items \<open>(a, 1), (a, 2)\<close> and \<open>d["a"] = 2\<close>.
  The container has the size of itself and maps its only key to the value it maps it
  to, yet \<open>d == d\<close> is false and \<open>d != d\<close> is true: the comparison meets the first
  entry, whose value 1 is not \<open>d["a"]\<close>.
\<close>

theorem duplicate_pairs_container_unequal_to_itself:
  "(case DequeDict_init True (DequeDict_new blank_mem) duplicate_pairs of
      None \<Rightarrow> False
    | Some (r, d) \<Rightarrow>
        r = Inr () \<and> DequeDict_len d = 2
        \<and> list_view 2 False d = Some [Item ''a'' 1, Item ''a'' 2]
        \<and> DequeDict_getitem d ''a'' = Inr 2
        \<and> DequeDict_contains d ''a''
        \<and> DequeDict_richcompare d (as_mapping d) Py_EQ = Some Py_False
        \<and> DequeDict_richcompare d (as_mapping d) Py_NE = Some Py_True)"
  by (simp add: DequeDict_init_def duplicate_pairs_def as_mapping_def DequeDict_richcompare_def
      eval_defs)

text \<open>
  Claim C9. As the claim states it, the two variants share everything except \<open>at\<close>.
  The views of the variant without cache have no \<^verbatim>\<open>__reversed__\<close> either: on
  the container \<open>a, b, c\<close>, \<^verbatim>\<open>list(reversed(d.keys()))\<close> is \<open>[c, b, a]\<close> in
  the cache-bearing variant and fails with \<^verbatim>\<open>TypeError\<close> in the other.
\<close>

theorem reversed_view_only_with_cache_variant:
  "exec (all_ok 4) (OpView 0 True) abc_state
     = Some (Inr (PyList [Key ''c'', Key ''b'', Key ''a'']), abc_state)
   \<and> exec_nc (all_ok 4) (OpView 0 True) (forget_cache abc_state)
       = Some (Inl TypeError, forget_cache abc_state)"
  by (simp add: abc_state_def abc_entries_def eval_defs)

text \<open>
  Claim C9, amended. \<open>forget_cache s\<close> is the state of the variant without cache that
  holds what the state \<open>s\<close> of the cache-bearing variant holds. For every run of calls
  that both variants offer (everything but \<open>at\<close> and the reversed views), started in
  any state \<open>s\<close> and in \<open>forget_cache s\<close> with the same answers of the allocator:
  either neither run returns, or both return the same results and errors, call by call,
  and end in states \<open>s'\<close> and \<open>forget_cache s'\<close>, which have the same traversal of
  \<open>(key, value)\<close> pairs. From a well-formed state and with an allocator that returns
  fresh blocks and can extend the key index both runs return. The constructors and
  \<open>update\<close> agree in the same way, and the empty containers of the two variants
  correspond.
\<close>

theorem no_cache_variant_agrees:
  assumes "shared_run ops"
  shows "run_nc ops (forget_cache s) = map_option (map_prod id forget_cache) (run ops s)
     \<and> (\<forall>rs s'. run ops s = Some (rs, s') \<longrightarrow>
           run_nc ops (forget_cache s) = Some (rs, forget_cache s')
           \<and> list_view_nc 2 (forget_cache s') = list_view 2 False s')
     \<and> (run ops s = None \<longleftrightarrow> run_nc ops (forget_cache s) = None)
     \<and> (\<forall>as fs. dd_inv s as fs \<and> admissible ops s \<longrightarrow>
           (\<exists>rs s' xs. run ops s = Some (rs, s')
               \<and> run_nc ops (forget_cache s) = Some (rs, forget_cache s')
               \<and> list_view 2 False s' = Some xs
               \<and> list_view_nc 2 (forget_cache s') = Some xs))
     \<and> DequeDict_init_nc dict_new_ok (forget_cache s) items
         = map_option (map_prod id forget_cache) (DequeDict_init dict_new_ok s items)
     \<and> DequeDict_update_nc (forget_cache s) items kwds
         = map_prod id forget_cache (DequeDict_update s items kwds)
     \<and> forget_cache (DequeDict_new m) = DequeDict_new_nc (\<lambda>a. forget_entry (m a))"
proof -
  note r = forget_run[OF assms, of s]
  have 2: "\<forall>rs s'. run ops s = Some (rs, s') \<longrightarrow>
           run_nc ops (forget_cache s) = Some (rs, forget_cache s')
           \<and> list_view_nc 2 (forget_cache s') = list_view 2 False s'"
    using r by (simp add: forget_lists)
  have 3: "run ops s = None \<longleftrightarrow> run_nc ops (forget_cache s) = None"
    using r by simp
  have 4: "\<forall>as fs. dd_inv s as fs \<and> admissible ops s \<longrightarrow>
           (\<exists>rs s' xs. run ops s = Some (rs, s')
               \<and> run_nc ops (forget_cache s) = Some (rs, forget_cache s')
               \<and> list_view 2 False s' = Some xs
               \<and> list_view_nc 2 (forget_cache s') = Some xs)"
  proof (intro allI impI)
    fix as fs assume h: "dd_inv s as fs \<and> admissible ops s"
    then have "dd_inv s as fs" "admissible ops s" by simp_all
    from run_inv[OF this]
    obtain rs s' as' fs' where q: "run ops s = Some (rs, s')" and inv': "dd_inv s' as' fs'"
      by blast
    from list_view_inv(1)[OF dd_inv_links[OF inv'], of 2] q 2
    show "\<exists>rs s' xs. run ops s = Some (rs, s')
               \<and> run_nc ops (forget_cache s) = Some (rs, forget_cache s')
               \<and> list_view 2 False s' = Some xs
               \<and> list_view_nc 2 (forget_cache s') = Some xs"
      by simp
  qed
  from r 2 3 4 forget_init[of dict_new_ok s items] forget_update[of s items kwds]
    forget_new[of m] show ?thesis
    by (intro conjI)
qed

text \<open>
  The run \<open>shared_example_run\<close> on the container \<open>a, b, c\<close> with its cache present:
  both variants answer \<open>1, None, KeyError, 4, None, None\<close>, the items
  \<open>(e, 5), (c, 3), (b, 2)\<close> and \<open>True\<close>.
\<close>

theorem no_cache_variant_agrees_witness:
  "shared_run shared_example_run
   \<and> run_nc shared_example_run (forget_cache abc_cached)
       = map_option (map_prod id forget_cache) (run shared_example_run abc_cached)
   \<and> map_option fst (run shared_example_run abc_cached)
       = Some [Inr (Value 1), Inr PyNone, Inl KeyError, Inr (Value 4), Inr PyNone, Inr PyNone,
               Inr (PyList [Item ''e'' 5, Item ''c'' 3, Item ''b'' 2]), Inr (PyBool True)]
   \<and> map_option fst (run_nc shared_example_run (forget_cache abc_cached))
       = Some [Inr (Value 1), Inr PyNone, Inl KeyError, Inr (Value 4), Inr PyNone, Inr PyNone,
               Inr (PyList [Item ''e'' 5, Item ''c'' 3, Item ''b'' 2]), Inr (PyBool True)]
   \<and> forget_cache (DequeDict_new blank_mem) = DequeDict_new_nc blank_mem_nc"
proof -
  have h: "shared_run shared_example_run"
    by (simp add: shared_run_def shared_example_run_def)
  have c: "card (dom [''b'' \<mapsto> 2 :: int, ''c'' \<mapsto> 3, ''e'' \<mapsto> 5]) = 3" by simp
  have e: "map_option fst (run shared_example_run abc_cached)
       = Some [Inr (Value 1), Inr PyNone, Inl KeyError, Inr (Value 4), Inr PyNone, Inr PyNone,
               Inr (PyList [Item ''e'' 5, Item ''c'' 3, Item ''b'' 2]), Inr (PyBool True)]"
    by (simp add: shared_example_run_def abc_cached_def abc_entries_cached_def eval_defs
        plain_dict_def c DequeDict_richcompare_def eval_nat_numeral)
  note t = no_cache_variant_agrees[OF h, of abc_cached True NoItems "[]" blank_mem]
  from t have r: "run_nc shared_example_run (forget_cache abc_cached)
       = map_option (map_prod id forget_cache) (run shared_example_run abc_cached)"
    by blast
  from r e have e': "map_option fst (run_nc shared_example_run (forget_cache abc_cached))
       = Some [Inr (Value 1), Inr PyNone, Inl KeyError, Inr (Value 4), Inr PyNone, Inr PyNone,
               Inr (PyList [Item ''e'' 5, Item ''c'' 3, Item ''b'' 2]), Inr (PyBool True)]"
    by (simp add: option.map_comp comp_def)
  from t have n: "forget_cache (DequeDict_new blank_mem) = DequeDict_new_nc blank_mem_nc"
    by (simp add: forget_blank_mem)
  from h r e e' n show ?thesis by (intro conjI)
qed

text \<open>
  Claim C10. A call on a well-formed state that fails with \<^verbatim>\<open>KeyError\<close> or
  \<^verbatim>\<open>IndexError\<close> (the errors for an absent key, an existing key in
  \<open>appendleft\<close>, an empty container and an index out of range) leaves the traversal
  of \<open>(key, value)\<close> pairs and the size as they were; the state is well-formed with
  the same entries, and it is the very same state unless the call is \<open>at\<close>, which may
  have built the cache.
\<close>

theorem lookup_errors_leave_content:
  assumes "dd_inv s as fs" "exec env op s = Some (Inl e, s')" "e = KeyError \<or> e = IndexError"
  shows "list_view 2 False s' = list_view 2 False s
     \<and> list_view 2 False s = Some (map (view_obj 2 (mem s)) as)
     \<and> dd_size s' = dd_size s \<and> dd_inv s' as fs
     \<and> ((\<forall>i. op \<noteq> OpAt i) \<longrightarrow> s' = s)"
proof -
  have li: "links_inv s as" by (rule dd_inv_links[OF assms(1)])
  have lv: "list_view 2 False s = Some (map (view_obj 2 (mem s)) as)"
    by (rule list_view_inv(1)[OF li])
  show ?thesis
  proof (cases "\<forall>i. op \<noteq> OpAt i")
    case True
    from exec_error_unchanged[OF assms(2,3) True] assms(1) lv True show ?thesis by simp
  next
    case False
    then obtain i where op: "op = OpAt i" by blast
    have fit: "fits_ssize_t i"
    proof (rule ccontr)
      assume "\<not> fits_ssize_t i"
      with assms(2,3) op show False by (auto simp: at_overflow returning_def)
    qed
    from at_inv[OF assms(1) fit, of env]
    obtain r s1 where a: "DequeDict_at env s i = Some (r, s1)" and inv1: "dd_inv s1 as fs"
      and sz: "dd_size s1 = dd_size s"
      and pay: "\<forall>b. entry_key (mem s1 b) = entry_key (mem s b)
                  \<and> entry_value (mem s1 b) = entry_value (mem s b)"
      by blast
    from assms(2) op a have s': "s' = s1" by simp
    have "list_view 2 False s1 = list_view 2 False s"
      by (rule list_view_cong[OF li dd_inv_links[OF inv1]]) (simp_all add: pay)
    with s' inv1 sz lv op show ?thesis by simp
  qed
qed

text \<open>
  On the container \<open>a, b, c\<close> without cache, \<open>at(3)\<close> fails with \<^verbatim>\<open>IndexError\<close>:
  the cache has been built, the pairs and the size are as before. \<open>d[z]\<close>,
  \<open>del d[z]\<close>, \<open>appendleft(a, 0)\<close> fail and leave the state; so do \<open>popleft()\<close>,
  \<open>peek()\<close>, \<open>popitem()\<close> on the empty container.
\<close>

theorem lookup_errors_leave_content_witness:
  "dd_inv abc_state [1, 2, 3] []
   \<and> exec (all_ok 4) (OpAt 3) abc_state = Some (Inl IndexError, abc_cached)
   \<and> (IndexError = KeyError \<or> IndexError = IndexError)
   \<and> list_view 2 False abc_cached = list_view 2 False abc_state
   \<and> list_view 2 False abc_state = Some (map (view_obj 2 (mem abc_state)) [1, 2, 3])
   \<and> dd_size abc_cached = dd_size abc_state \<and> dd_inv abc_cached [1, 2, 3] []
   \<and> list_view 2 False abc_cached = Some [Item ''a'' 1, Item ''b'' 2, Item ''c'' 3]
   \<and> exec (all_ok 4) (OpGetItem ''z'') abc_state = Some (Inl KeyError, abc_state)
   \<and> exec (all_ok 4) (OpDelItem ''z'') abc_state = Some (Inl KeyError, abc_state)
   \<and> exec (all_ok 4) (OpAppendLeft ''a'' 0) abc_state = Some (Inl KeyError, abc_state)
   \<and> exec (all_ok 1) OpPopLeft (DequeDict_new blank_mem)
       = Some (Inl IndexError, DequeDict_new blank_mem)
   \<and> exec (all_ok 1) OpPeek (DequeDict_new blank_mem)
       = Some (Inl IndexError, DequeDict_new blank_mem)
   \<and> exec (all_ok 1) OpPopItem (DequeDict_new blank_mem)
       = Some (Inl KeyError, DequeDict_new blank_mem)"
proof -
  have h1: "dd_inv abc_state [1, 2, 3] []" by (rule dd_inv_abc_state)
  have h2: "exec (all_ok 4) (OpAt 3) abc_state = Some (Inl IndexError, abc_cached)"
    by (simp add: abc_cached_def abc_entries_cached_def abc_state_def abc_entries_def eval_defs
      fun_eq_iff eval_nat_numeral)
  have h3: "IndexError = KeyError \<or> IndexError = IndexError" by simp
  note t = lookup_errors_leave_content[OF h1 h2 h3]
  from t have c1: "list_view 2 False abc_cached = list_view 2 False abc_state" by blast
  from t have c2: "list_view 2 False abc_state = Some (map (view_obj 2 (mem abc_state)) [1, 2, 3])"
    by blast
  from t have c3: "dd_size abc_cached = dd_size abc_state" by blast
  from t have c4: "dd_inv abc_cached [1, 2, 3] []" by blast
  have e: "list_view 2 False abc_cached = Some [Item ''a'' 1, Item ''b'' 2, Item ''c'' 3]
   \<and> exec (all_ok 4) (OpGetItem ''z'') abc_state = Some (Inl KeyError, abc_state)
   \<and> exec (all_ok 4) (OpDelItem ''z'') abc_state = Some (Inl KeyError, abc_state)
   \<and> exec (all_ok 4) (OpAppendLeft ''a'' 0) abc_state = Some (Inl KeyError, abc_state)
   \<and> exec (all_ok 1) OpPopLeft (DequeDict_new blank_mem)
       = Some (Inl IndexError, DequeDict_new blank_mem)
   \<and> exec (all_ok 1) OpPeek (DequeDict_new blank_mem)
       = Some (Inl IndexError, DequeDict_new blank_mem)
   \<and> exec (all_ok 1) OpPopItem (DequeDict_new blank_mem)
       = Some (Inl KeyError, DequeDict_new blank_mem)"
    by (simp add: abc_cached_def abc_entries_cached_def abc_state_def abc_entries_def eval_defs)
  show ?thesis
    by (rule conjI[OF h1 conjI[OF h2 conjI[OF h3 conjI[OF c1 conjI[OF c2 conjI[OF c3
          conjI[OF c4 e]]]]]]])
qed

end
